(* ===== verification/Prelude.thy ===== *)
theory Prelude
  imports Main "HOL-Library.Word" "HOL-Library.Signed_Division" "HOL-Library.Sublist"
begin

text \<open>
  The vocabulary every component theory shares: the outcome of a C++ operation (a value, an
  exception, a failed \<open>assert\<close>, or undefined behaviour), sequencing of such outcomes, 32-bit
  signed arithmetic, access to a character array through pointers that are indices, and the
  fact collections the component proofs use.
\<close>

named_theorems cpp_defs \<open>definitions of the elementary C++ operations\<close>
named_theorems result_simps \<open>how an outcome propagates\<close>

section \<open>Outcomes\<close>

text \<open>
  \<open>Out_of_range\<close>, \<open>Invalid_argument\<close>, \<open>Length_error\<close> and \<open>Runtime_error\<close> are the exceptions of
  the standard library that the sources throw or let pass; \<open>Assertion_failed\<close> is the abort of a
  false \<open>assert\<close> (the build file does not define NDEBUG); \<open>Undefined_behaviour\<close> marks a read or
  a write outside an array, the dereference of a null pointer and a signed overflow.
\<close>

datatype exc =
    Out_of_range
  | Invalid_argument
  | Length_error
  | Runtime_error string
  | Assertion_failed
  | Undefined_behaviour

type_synonym 'a result = "exc + 'a"

definition bindE :: "'a result \<Rightarrow> ('a \<Rightarrow> 'b result) \<Rightarrow> 'b result" where
  "bindE m f = (case m of Inl e \<Rightarrow> Inl e | Inr x \<Rightarrow> f x)"

lemma bindE_Inl [simp, code_unfold]: "bindE (Inl e) f = Inl e"
  by (simp add: bindE_def)

lemma bindE_Inr [simp, code_unfold]: "bindE (Inr x) f = f x"
  by (simp add: bindE_def)

lemma bindE_eq_Inr [result_simps]: "bindE m f = Inr y \<longleftrightarrow> (\<exists>x. m = Inr x \<and> f x = Inr y)"
  by (cases m) simp_all

lemma bindE_eq_Inl [result_simps]:
  "bindE m f = Inl e \<longleftrightarrow> m = Inl e \<or> (\<exists>x. m = Inr x \<and> f x = Inl e)"
  by (cases m) simp_all

lemma bindE_assoc: "bindE (bindE m f) g = bindE m (\<lambda>x. bindE (f x) g)"
  by (cases m) simp_all

lemma bindE_cong [fundef_cong]:
  "m = m' \<Longrightarrow> (\<And>x. m' = Inr x \<Longrightarrow> f x = g x) \<Longrightarrow> bindE m f = bindE m' g"
  by (cases m') simp_all

definition assertE :: "bool \<Rightarrow> unit result" where
  "assertE b = (if b then Inr () else Inl Assertion_failed)"

lemma assertE_simps [simp]:
  "assertE True = Inr ()"
  "assertE False = Inl Assertion_failed"
  by (simp_all add: assertE_def)

lemma assertE_eq_Inr [result_simps]: "assertE b = Inr x \<longleftrightarrow> b"
  by (simp add: assertE_def)

text \<open>\<open>foldE f xs\<close> runs \<open>f\<close> over \<open>xs\<close> with a state, stopping at the first failure.\<close>

fun foldE :: "('a \<Rightarrow> 's \<Rightarrow> 's result) \<Rightarrow> 'a list \<Rightarrow> 's \<Rightarrow> 's result" where
  "foldE f [] s = Inr s"
| "foldE f (x # xs) s = bindE (f x s) (foldE f xs)"

lemma foldE_append: "foldE f (xs @ ys) s = bindE (foldE f xs s) (foldE f ys)"
proof (induction xs arbitrary: s)
  case (Cons x xs)
  then show ?case by (cases "f x s") simp_all
qed simp

lemma foldE_invariant:
  assumes "\<And>x s s'. x \<in> set xs \<Longrightarrow> I s \<Longrightarrow> f x s = Inr s' \<Longrightarrow> I s'"
    and "I s" and "foldE f xs s = Inr s'"
  shows "I s'"
  using assms
proof (induction xs arbitrary: s)
  case (Cons x xs)
  then obtain t where "f x s = Inr t" and "foldE f xs t = Inr s'"
    by (auto simp: result_simps)
  with Cons show ?case
    by (meson list.set_intros)
qed simp

section \<open>The type int\<close>

abbreviation INT_MAX :: int where
  "INT_MAX \<equiv> 2147483647"

abbreviation INT_MIN :: int where
  "INT_MIN \<equiv> - 2147483648"

text \<open>The value of a signed expression: overflow is undefined.\<close>

definition int_expr :: "int \<Rightarrow> int result" where
  "int_expr x = (if INT_MIN \<le> x \<and> x \<le> INT_MAX then Inr x else Inl Undefined_behaviour)"

lemma int_expr_ok [simp]: "INT_MIN \<le> x \<Longrightarrow> x \<le> INT_MAX \<Longrightarrow> int_expr x = Inr x"
  by (simp add: int_expr_def)

lemma int_expr_eq_Inr [result_simps]: "int_expr x = Inr y \<longleftrightarrow> y = x \<and> INT_MIN \<le> x \<and> x \<le> INT_MAX"
  by (auto simp: int_expr_def)

text \<open>\<open>static_cast<int>\<close> of a wider integer keeps the low 32 bits.\<close>

definition to_int32 :: "int \<Rightarrow> int" where
  "to_int32 x = (x + 2147483648) mod 4294967296 - 2147483648"

lemma to_int32_id [simp]: "INT_MIN \<le> x \<Longrightarrow> x \<le> INT_MAX \<Longrightarrow> to_int32 x = x"
  by (simp add: to_int32_def)

lemma to_int32_range: "INT_MIN \<le> to_int32 x \<and> to_int32 x \<le> INT_MAX"
proof -
  have "0 \<le> (x + 2147483648) mod 4294967296" and "(x + 2147483648) mod 4294967296 < 4294967296"
    by simp_all
  then show ?thesis by (simp add: to_int32_def)
qed

section \<open>Arrays accessed through pointers\<close>

text \<open>
  A pointer into an array is the index it points to. \<open>slice lo hi xs\<close> is the range
  \<open>[lo, hi)\<close>; \<open>read_range\<close> and \<open>write_range\<close> are the accesses, undefined outside the array.
\<close>

definition slice :: "int \<Rightarrow> int \<Rightarrow> 'a list \<Rightarrow> 'a list" where
  "slice lo hi xs = take (nat (hi - lo)) (drop (nat lo) xs)"

definition read_range :: "int \<Rightarrow> int \<Rightarrow> 'a list \<Rightarrow> 'a list result" where
  "read_range lo hi xs =
     (if 0 \<le> lo \<and> lo \<le> hi \<and> hi \<le> int (length xs) then Inr (slice lo hi xs)
      else Inl Undefined_behaviour)"

definition write_range :: "int \<Rightarrow> 'a list \<Rightarrow> 'a list \<Rightarrow> 'a list result" where
  "write_range d ys xs =
     (if 0 \<le> d \<and> d + int (length ys) \<le> int (length xs)
      then Inr (take (nat d) xs @ ys @ drop (nat d + length ys) xs)
      else Inl Undefined_behaviour)"

lemma read_range_ok [simp]:
  "0 \<le> lo \<Longrightarrow> lo \<le> hi \<Longrightarrow> hi \<le> int (length xs) \<Longrightarrow> read_range lo hi xs = Inr (slice lo hi xs)"
  by (simp add: read_range_def)

lemma read_range_eq_Inr [result_simps]:
  "read_range lo hi xs = Inr ys \<longleftrightarrow>
     0 \<le> lo \<and> lo \<le> hi \<and> hi \<le> int (length xs) \<and> ys = slice lo hi xs"
  by (auto simp: read_range_def)

lemma length_slice: "0 \<le> lo \<Longrightarrow> lo \<le> hi \<Longrightarrow> hi \<le> int (length xs) \<Longrightarrow> length (slice lo hi xs) = nat (hi - lo)"
  by (simp add: slice_def)

lemma slice_empty [simp]: "slice lo lo xs = []"
  by (simp add: slice_def)

lemma slice_full_prefix: "0 \<le> d \<Longrightarrow> slice 0 d xs = take (nat d) xs"
  by (simp add: slice_def)

lemma slice_append_right:
  assumes "0 \<le> lo" "lo \<le> mid" "mid \<le> hi" "hi \<le> int (length xs)"
  shows "slice lo hi xs = slice lo mid xs @ slice mid hi xs"
proof -
  have "nat (hi - lo) = nat (mid - lo) + nat (hi - mid)"
    and "drop (nat mid) xs = drop (nat (mid - lo)) (drop (nat lo) xs)"
    using assms by (simp_all add: nat_add_distrib [symmetric] add.commute)
  then show ?thesis
    by (simp only: slice_def take_add)
qed

lemma take_slice:
  assumes "0 \<le> n" "0 \<le> lo" "lo + n \<le> hi"
  shows "take (nat n) (slice lo hi xs) = slice lo (lo + n) xs"
  using assms by (simp add: slice_def min_def nat_le_eq_zle)

lemma drop_slice:
  assumes "0 \<le> n" "0 \<le> lo" "lo + n \<le> hi"
  shows "drop (nat n) (slice lo hi xs) = slice (lo + n) hi xs"
proof -
  have "nat (hi - lo) - nat n = nat (hi - (lo + n))" and "nat n + nat lo = nat (lo + n)"
    using assms by simp_all
  then show ?thesis
    by (simp add: slice_def drop_take)
qed

lemma write_range_eq_Inr [result_simps]:
  "write_range d ys xs = Inr zs \<longleftrightarrow>
     0 \<le> d \<and> d + int (length ys) \<le> int (length xs) \<and>
     zs = take (nat d) xs @ ys @ drop (nat d + length ys) xs"
  by (auto simp: write_range_def)

lemma write_rangeE:
  assumes "write_range d ys xs = Inr zs"
  obtains n where "d = int n" and "n + length ys \<le> length xs"
    and "zs = take n xs @ ys @ drop (n + length ys) xs"
proof -
  from assms have d: "0 \<le> d" "d + int (length ys) \<le> int (length xs)"
    and zs: "zs = take (nat d) xs @ ys @ drop (nat d + length ys) xs"
    by (simp_all only: write_range_eq_Inr)
  obtain n where n: "d = int n" using d(1) by (rule nonneg_int_cases)
  show thesis
  proof (rule that)
    show "d = int n" by (rule n)
    show "n + length ys \<le> length xs" using d(2) by (simp only: n of_nat_add [symmetric] of_nat_le_iff)
    show "zs = take n xs @ ys @ drop (n + length ys) xs" using zs by (simp only: n nat_int)
  qed
qed

lemma write_range_length:
  assumes "write_range d ys xs = Inr zs"
  shows "length zs = length xs"
  using assms by (elim write_rangeE) simp

lemma write_range_ok:
  "0 \<le> d \<Longrightarrow> d + int (length ys) \<le> int (length xs) \<Longrightarrow>
     write_range d ys xs = Inr (take (nat d) xs @ ys @ drop (nat d + length ys) xs)"
  by (simp add: write_range_def)

lemma slice_write_same:
  assumes "write_range d ys xs = Inr zs" and "hi = d + int (length ys)"
  shows "slice d hi zs = ys"
  using assms by (elim write_rangeE) (simp add: slice_def)

lemma slice_write_before:
  assumes "write_range d ys xs = Inr zs" and "0 \<le> lo" "hi \<le> d"
  shows "slice lo hi zs = slice lo hi xs"
proof -
  from assms(1) obtain n where d: "d = int n" and n: "n + length ys \<le> length xs"
    and zs: "zs = take n xs @ ys @ drop (n + length ys) xs"
    by (rule write_rangeE)
  have le: "nat (hi - lo) \<le> n - nat lo" using assms d by linarith
  have "take (nat (hi - lo)) (drop (nat lo) zs) = take (nat (hi - lo)) (drop (nat lo) (take n xs))"
  proof (cases "nat lo \<le> n")
    case True
    then show ?thesis using n le by (simp add: zs)
  next
    case False
    then show ?thesis using le by simp
  qed
  also have "\<dots> = take (nat (hi - lo)) (drop (nat lo) xs)"
    using le by (simp add: drop_take min_def)
  finally show ?thesis by (simp add: slice_def)
qed

section \<open>The C++ vector\<close>

definition vec_resize :: "nat \<Rightarrow> 'a \<Rightarrow> 'a list \<Rightarrow> 'a list" where
  "vec_resize n z xs = take n xs @ replicate (n - length xs) z"

lemma length_vec_resize [simp]: "length (vec_resize n z xs) = n"
  by (simp add: vec_resize_def)

lemma slice_vec_resize:
  assumes "0 \<le> lo" "hi \<le> int (length xs)" "length xs \<le> n"
  shows "slice lo hi (vec_resize n z xs) = slice lo hi xs"
proof (cases "lo \<le> hi")
  case True
  have "nat (hi - lo) \<le> length xs - nat lo" using assms True by linarith
  then show ?thesis using assms True by (simp add: slice_def vec_resize_def)
next
  case False
  then show ?thesis by (simp add: slice_def)
qed

lemmas [cpp_defs] = read_range_def write_range_def assertE_def int_expr_def

end
