(* ===== verification/CppString.thy ===== *)
theory CppString
  imports Prelude
begin

text \<open>
  The part of \<open>std::string\<close> and of the numeric conversions of the standard library that the
  sources use: \<open>find\<close>, \<open>find_last_of\<close>, \<open>substr\<close>, \<open>erase\<close>, \<open>replace\<close>, \<open>std::stoul\<close>,
  \<open>std::stoi\<close> and \<open>std::to_string\<close>. A \<open>std::string\<close> is a list of 8-bit characters, a position
  is a natural number and \<open>std::string::npos\<close> is \<open>None\<close>. The lemmas say how a search behaves
  when the text grows at its end, which is what incremental parsing rests on, and that
  printing a number and reading it back are inverse.
\<close>

section \<open>Searching\<close>

fun str_find :: "string \<Rightarrow> string \<Rightarrow> nat option" where
  "str_find pat [] = (if pat = [] then Some 0 else None)"
| "str_find pat (c # s) =
     (if prefix pat (c # s) then Some 0 else map_option Suc (str_find pat s))"

text \<open>\<open>s.find(pat, pos)\<close>\<close>

definition str_find_from :: "string \<Rightarrow> string \<Rightarrow> nat \<Rightarrow> nat option" where
  "str_find_from pat s pos =
     (if pos \<le> length s then map_option (\<lambda>i. i + pos) (str_find pat (drop pos s)) else None)"

text \<open>\<open>s.find_last_of(c)\<close>\<close>

fun str_find_last :: "char \<Rightarrow> string \<Rightarrow> nat option" where
  "str_find_last c [] = None"
| "str_find_last c (x # s) =
     (case str_find_last c s of
        Some i \<Rightarrow> Some (Suc i)
      | None \<Rightarrow> if x = c then Some 0 else None)"

lemma str_find_Some_bound: "str_find pat s = Some i \<Longrightarrow> i + length pat \<le> length s"
  by (induction s arbitrary: i) (auto split: if_splits dest: prefix_length_le)

lemma str_find_Some_match:
  "str_find pat s = Some i \<Longrightarrow> prefix pat (drop i s)"
  by (induction s arbitrary: i) (auto split: if_splits)

lemma str_find_append:
  "str_find pat s = Some i \<Longrightarrow> str_find pat (s @ t) = Some i"
proof (induction s arbitrary: i)
  case Nil
  then show ?case by (cases t) (auto split: if_splits)
next
  case (Cons c s)
  show ?case
  proof (cases "prefix pat (c # s)")
    case True
    then have "prefix pat ((c # s) @ t)" by (rule prefix_prefix)
    with True Cons.prems show ?thesis by simp
  next
    case False
    with Cons.prems obtain j where j: "str_find pat s = Some j" "i = Suc j" by auto
    with Cons.IH have IH: "str_find pat (s @ t) = Some j" by simp
    have "\<not> prefix pat (c # (s @ t))"
    proof
      assume *: "prefix pat (c # (s @ t))"
      have "length pat \<le> length (c # s)" using str_find_Some_bound [OF j(1)] by simp
      with * have "prefix pat (c # s)"
        by (metis append_Cons prefix_length_prefix prefix_order.refl prefix_prefix)
      with False show False ..
    qed
    with IH j show ?thesis by simp
  qed
qed

lemma str_find_prefix_None: "str_find pat (s @ t) = None \<Longrightarrow> str_find pat s = None"
  using str_find_append by (cases "str_find pat s") fastforce+

lemma str_find_skip:
  assumes "hd pat \<notin> set a" "pat \<noteq> []"
  shows "str_find pat (a @ s) = map_option (\<lambda>i. i + length a) (str_find pat s)"
  using assms
proof (induction a)
  case Nil
  then show ?case by (simp add: option.map_ident)
next
  case (Cons x a)
  from Cons.prems obtain p ps where p: "pat = p # ps" by (cases pat) auto
  with Cons.prems have "\<not> prefix pat ((x # a) @ s)" by simp
  with Cons show ?case by (simp add: option.map_comp comp_def)
qed

lemma str_find_here [simp]: "str_find pat (pat @ s) = Some 0"
proof (cases "pat @ s")
  case (Cons a list)
  have "prefix pat (pat @ s)" by simp
  with Cons show ?thesis by simp
qed simp

lemma str_find_char: "c \<notin> set a \<Longrightarrow> str_find [c] (a @ c # s) = Some (length a)"
  by (simp add: str_find_skip)

lemma str_find_char_None: "str_find [c] s = None \<longleftrightarrow> c \<notin> set s"
  by (induction s) auto

lemma str_find_last_None: "str_find_last c s = None \<longleftrightarrow> c \<notin> set s"
  by (induction s) (auto split: option.splits)

lemma str_find_last_Some:
  "str_find_last c s = Some i \<Longrightarrow> i < length s \<and> s ! i = c \<and> c \<notin> set (drop (Suc i) s)"
proof (induction s arbitrary: i)
  case (Cons x s)
  show ?case
  proof (cases "str_find_last c s")
    case None
    then have "c \<notin> set s" by (simp add: str_find_last_None)
    with None Cons.prems show ?thesis by (auto split: if_splits)
  next
    case (Some j)
    with Cons show ?thesis by auto
  qed
qed simp

section \<open>Parts of a string\<close>

text \<open>\<open>s.substr(pos, n)\<close> throws when \<open>pos\<close> is past the end; \<open>s.substr(pos)\<close> takes the rest.\<close>

definition str_substr :: "string \<Rightarrow> nat \<Rightarrow> nat \<Rightarrow> string result" where
  "str_substr s pos n = (if length s < pos then Inl Out_of_range else Inr (take n (drop pos s)))"

definition str_substr_from :: "string \<Rightarrow> nat \<Rightarrow> string result" where
  "str_substr_from s pos = (if length s < pos then Inl Out_of_range else Inr (drop pos s))"

text \<open>\<open>s.erase(0, n)\<close>: the position 0 is never out of range.\<close>

definition str_erase0 :: "nat \<Rightarrow> string \<Rightarrow> string" where
  "str_erase0 n s = drop n s"

text \<open>\<open>s.replace(pos, n, t)\<close>\<close>

definition str_replace :: "string \<Rightarrow> nat option \<Rightarrow> nat \<Rightarrow> string \<Rightarrow> string result" where
  "str_replace s pos n t =
     (case pos of
        None \<Rightarrow> Inl Out_of_range
      | Some p \<Rightarrow> if length s < p then Inl Out_of_range
                  else Inr (take p s @ t @ drop (p + n) s))"

lemmas [cpp_defs] = str_substr_def str_substr_from_def str_erase0_def str_replace_def

lemma str_substr_prefix: "n = length a \<Longrightarrow> str_substr (a @ b) 0 n = Inr a"
  by (simp add: str_substr_def)

lemma str_substr_from_append: "n = length a \<Longrightarrow> str_substr_from (a @ b) n = Inr b"
  by (simp add: str_substr_from_def)

section \<open>Numbers in text\<close>

definition isspace :: "char \<Rightarrow> bool" where
  "isspace c = (let n = of_char c :: nat in n = 32 \<or> (9 \<le> n \<and> n \<le> 13))"

definition digit_val :: "nat \<Rightarrow> char \<Rightarrow> nat option" where
  "digit_val base c =
     (let n = of_char c :: nat;
          d = (if 48 \<le> n \<and> n \<le> 57 then Some (n - 48)
               else if 97 \<le> n \<and> n \<le> 122 then Some (n - 87)
               else if 65 \<le> n \<and> n \<le> 90 then Some (n - 55)
               else None)
      in case d of Some v \<Rightarrow> if v < base then Some v else None | None \<Rightarrow> None)"

fun digits_prefix :: "nat \<Rightarrow> string \<Rightarrow> nat list" where
  "digits_prefix base [] = []"
| "digits_prefix base (c # s) =
     (case digit_val base c of Some d \<Rightarrow> d # digits_prefix base s | None \<Rightarrow> [])"

definition digits_num :: "nat \<Rightarrow> nat list \<Rightarrow> nat" where
  "digits_num base ds = foldl (\<lambda>a d. a * base + d) 0 ds"

definition strip_sign :: "string \<Rightarrow> bool \<times> string" where
  "strip_sign s =
     (case s of [] \<Rightarrow> (False, [])
      | c # r \<Rightarrow> if c = CHR ''-'' then (True, r)
                 else if c = CHR ''+'' then (False, r) else (False, s))"

definition strip_0x :: "nat \<Rightarrow> string \<Rightarrow> string" where
  "strip_0x base s =
     (case s of
        z # x # d # r \<Rightarrow>
          if base = 16 \<and> z = CHR ''0'' \<and> (x = CHR ''x'' \<or> x = CHR ''X'')
             \<and> digit_val 16 d \<noteq> None
          then d # r else s
      | _ \<Rightarrow> s)"

definition ULONG_MAX :: int where
  "ULONG_MAX = 18446744073709551615"

text \<open>\<open>std::stoul(s, nullptr, base)\<close>: white space, an optional sign, the digits; what follows
  the digits is ignored, and a minus sign negates modulo \<open>2 ^ 64\<close>.\<close>

definition stoul :: "nat \<Rightarrow> string \<Rightarrow> nat result" where
  "stoul base s =
     (let (neg, r) = strip_sign (dropWhile isspace s);
          ds = digits_prefix base (strip_0x base r);
          v = digits_num base ds
      in if ds = [] then Inl Invalid_argument
         else if ULONG_MAX < int v then Inl Out_of_range
         else Inr (if neg then nat ((- int v) mod (ULONG_MAX + 1)) else v))"

text \<open>\<open>std::stoi(s)\<close>\<close>

definition stoi :: "string \<Rightarrow> int result" where
  "stoi s =
     (let (neg, r) = strip_sign (dropWhile isspace s);
          ds = digits_prefix 10 r;
          v = (if neg then - int (digits_num 10 ds) else int (digits_num 10 ds))
      in if ds = [] then Inl Invalid_argument
         else if v < INT_MIN \<or> INT_MAX < v then Inl Out_of_range
         else Inr v)"

definition digit_char :: "nat \<Rightarrow> char" where
  "digit_char d = char_of (if d < 10 then 48 + d else 87 + d)"

function num_str :: "nat \<Rightarrow> nat \<Rightarrow> string" where
  "num_str base n =
     (if n < base \<or> base < 2 then [digit_char n]
      else num_str base (n div base) @ [digit_char (n mod base)])"
  by pat_completeness auto
termination
  by (relation "measure (\<lambda>(base, n). n)") (auto intro!: div_less_dividend)

declare num_str.simps [simp del]

text \<open>\<open>std::to_string\<close> of an unsigned and of a signed number\<close>

definition to_string :: "nat \<Rightarrow> string" where
  "to_string n = num_str 10 n"

definition to_string_int :: "int \<Rightarrow> string" where
  "to_string_int i = (if i < 0 then CHR ''-'' # to_string (nat (- i)) else to_string (nat i))"

section \<open>Printing and reading are inverse\<close>

lemma of_char_digit: "d < 36 \<Longrightarrow> of_char (digit_char d) = (if d < 10 then 48 + d else 87 + d :: nat)"
  by (simp add: digit_char_def)

lemma digit_val_digit_char [simp]: "d < base \<Longrightarrow> base \<le> 36 \<Longrightarrow> digit_val base (digit_char d) = Some d"
  by (auto simp: digit_val_def of_char_digit Let_def)

lemma digit_char_not:
  assumes "d < 36"
  shows "\<not> isspace (digit_char d)" "digit_char d \<noteq> CHR ''-''" "digit_char d \<noteq> CHR ''+''"
    "digit_char d \<noteq> CHR 0x0D" "digit_char d \<noteq> CHR 0x0A" "d < 33 \<Longrightarrow> digit_char d \<noteq> CHR ''x''"
     "digit_char d \<noteq> CHR ''X''"
proof -
  note * = of_char_digit [OF assms]
  show "\<not> isspace (digit_char d)" by (auto simp: isspace_def Let_def *)
  have **: "digit_char d = c \<Longrightarrow> of_char c = (if d < 10 then 48 + d else 87 + d :: nat)" for c
    using * by auto
  show "digit_char d \<noteq> CHR ''-''" "digit_char d \<noteq> CHR ''+''" "digit_char d \<noteq> CHR 0x0D" "digit_char d \<noteq> CHR 0x0A"
     "d < 33 \<Longrightarrow> digit_char d \<noteq> CHR ''x''"  "digit_char d \<noteq> CHR ''X''"
    by (auto dest!: ** split: if_splits)
qed

lemma digits_prefix_append:
  "digits_prefix b (s @ t) = (if \<forall>c \<in> set s. digit_val b c \<noteq> None then digits_prefix b s @ digits_prefix b t else digits_prefix b s)"
  by (induction s) (auto split: option.splits)

lemma digits_num_snoc [simp]: "digits_num b (ds @ [d]) = digits_num b ds * b + d"
  by (simp add: digits_num_def)

lemma num_str_digits:
  assumes "2 \<le> b" "b \<le> 36"
  shows "(\<forall>c \<in> set (num_str b n). \<exists>d < b. c = digit_char d) \<and> digits_num b (digits_prefix b (num_str b n)) = n \<and> num_str b n \<noteq> []"
  using assms
proof (induction b n rule: num_str.induct)
  case (1 b n)
  show ?case
  proof (cases "n < b")
    case True
    with 1 show ?thesis by (auto simp: num_str.simps [of b n] digits_num_def)
  next
    case False
    with 1 have IH: "\<forall>c \<in> set (num_str b (n div b)). \<exists>d < b. c = digit_char d" 
       "digits_num b (digits_prefix b (num_str b (n div b))) = n div b" by auto
    have ok: "\<forall>c \<in> set (num_str b (n div b)). digit_val b c \<noteq> None"
      using IH(1) 1(3) by (metis digit_val_digit_char option.distinct(1))
    have "n mod b < b" using 1(2) by simp
    then have "\<exists>d < b. digit_char (n mod b) = digit_char d" by blast
    with False 1 IH ok show ?thesis 
      by (auto simp: num_str.simps [of b n] digits_prefix_append ball_Un)
  qed
qed

lemma num_str_chars:
  assumes "2 \<le> b" "b \<le> 33" "c \<in> set (num_str b n)"
  shows "\<not> isspace c" "c \<noteq> CHR ''-''" "c \<noteq> CHR ''+''" "c \<noteq> CHR 0x0D" "c \<noteq> CHR 0x0A" "c \<noteq> CHR ''x''" "c \<noteq> CHR ''X''"
proof -
  obtain d where "d < b" "c = digit_char d" using num_str_digits [of b n] assms by auto
  then show "\<not> isspace c" "c \<noteq> CHR ''-''" "c \<noteq> CHR ''+''" "c \<noteq> CHR 0x0D" "c \<noteq> CHR 0x0A" "c \<noteq> CHR ''x''" "c \<noteq> CHR ''X''"
    using digit_char_not [of d] assms by auto
qed

lemma stoul_num_str:
  assumes "2 \<le> b" "b \<le> 33" "int n \<le> ULONG_MAX"
  shows "stoul b (num_str b n) = Inr n"
proof -
  note nd = num_str_digits [of b n]
  obtain c s where s: "num_str b n = c # s" using nd assms by (cases "num_str b n") auto
  note cc = num_str_chars [OF assms(1,2), of _ n]
  have 1: "dropWhile isspace (num_str b n) = num_str b n" using cc by (simp add: s)
  have 2: "strip_sign (num_str b n) = (False, num_str b n)" using cc(2,3)[of c] by (simp add: s strip_sign_def)
  have 3: "strip_0x b (num_str b n) = num_str b n" using cc(6,7) 
    by (auto simp: strip_0x_def split: list.splits)
  have 4: "digits_prefix b (num_str b n) \<noteq> []" using nd assms s by auto
  show ?thesis using nd assms 4 by (simp add: stoul_def 1 2 3 Let_def)
qed
text \<open>The decimal digits of a number below \<open>10 ^ k\<close> are at most \<open>k\<close>.\<close>

lemma num_str_unfold:
  "num_str 10 n = (if n < 10 then [digit_char n] else num_str 10 (n div 10) @ [digit_char (n mod 10)])"
  by (subst num_str.simps) simp

lemma length_num_str: "n < 10 ^ k \<Longrightarrow> 0 < k \<Longrightarrow> length (num_str 10 n) \<le> k"
proof (induction k arbitrary: n)
  case (Suc k)
  show ?case
  proof (cases "n < 10")
    case False
    then have "0 < k" using Suc.prems by (cases k) simp_all
    moreover have "n div 10 < 10 ^ k" using Suc.prems by (simp add: div_less_iff_less_mult mult.commute)
    ultimately show ?thesis using Suc.IH [of "n div 10"] False by (simp add: num_str_unfold [of n])
  qed (simp add: num_str_unfold [of n])
qed simp

end
