(* ===== verification/Buffer.thy ===== *)
theory Buffer
  imports CppString
begin

text \<open>
  The growable network buffer of \<open>utils/Buffer.h\<close> and \<open>utils/Buffer.cpp\<close> (class \<open>Buffer\<close>): a
  character vector cut by two \<open>int\<close> indices into a prependable, a readable and a writable part.
  A \<open>char *\<close> into the vector is the index it points to. Every access outside the vector, every
  signed overflow and every false \<open>assert\<close> is an error value. The theory shows that the
  operations keep the indices in order and implement a queue of bytes, and how large the vector
  can grow.
\<close>

section \<open>The class\<close>

record Buffer =
  buf :: "char list"
  read_index :: int
  write_index :: int

definition kPrePendIndex :: int where
  "kPrePendIndex = 8"

abbreviation NUL :: char where
  "NUL \<equiv> CHR 0x00"

definition Buffer_ctor :: Buffer where
  "Buffer_ctor =
     \<lparr>buf = replicate (nat kPrePendIndex) NUL,
      read_index = kPrePendIndex, write_index = kPrePendIndex\<rparr>"

definition beginread :: "Buffer \<Rightarrow> int" where
  "beginread b = read_index b"

definition beginwrite :: "Buffer \<Rightarrow> int" where
  "beginwrite b = write_index b"

definition readablebytes :: "Buffer \<Rightarrow> int" where
  "readablebytes b = write_index b - read_index b"

definition writablebytes :: "Buffer \<Rightarrow> int" where
  "writablebytes b = to_int32 (int (length (buf b))) - write_index b"

definition prependablebytes :: "Buffer \<Rightarrow> int" where
  "prependablebytes b = read_index b"

definition Buffer_IsEmpty :: "Buffer \<Rightarrow> bool" where
  "Buffer_IsEmpty b = (beginread b = beginwrite b)"

text \<open>
  \<open>std::copy\<close> of the readable part to the front is a read of the whole source range and a write
  of it at the destination (a \<open>memmove\<close>); \<open>resize\<close> with a negative argument throws.
\<close>

definition EnsureWritableBytes :: "int \<Rightarrow> Buffer \<Rightarrow> Buffer result" where
  "EnsureWritableBytes len b =
     (if len \<le> writablebytes b then Inr b
      else bindE (int_expr (writablebytes b + prependablebytes b)) (\<lambda>free.
           bindE (int_expr (kPrePendIndex + len)) (\<lambda>need.
           if need \<le> free then
             bindE (read_range (beginread b) (beginwrite b) (buf b)) (\<lambda>xs.
             bindE (write_range kPrePendIndex xs (buf b)) (\<lambda>bs.
             Inr (b\<lparr>buf := bs,
                    write_index := kPrePendIndex + readablebytes b,
                    read_index := kPrePendIndex\<rparr>)))
           else
             bindE (int_expr (write_index b + len)) (\<lambda>n.
             if n < 0 then Inl Length_error
             else Inr (b\<lparr>buf := vec_resize (nat n) NUL (buf b)\<rparr>)))))"

text \<open>\<open>Append(const char *str, int size)\<close> reads \<open>size\<close> characters at \<open>str\<close>.\<close>

definition Append_n :: "string \<Rightarrow> int \<Rightarrow> Buffer \<Rightarrow> Buffer result" where
  "Append_n str sz b =
     bindE (EnsureWritableBytes sz b) (\<lambda>b1.
     bindE (read_range 0 sz str) (\<lambda>xs.
     bindE (write_range (beginwrite b1) xs (buf b1)) (\<lambda>bs.
     bindE (int_expr (write_index b1 + sz)) (\<lambda>w.
     Inr (b1\<lparr>buf := bs, write_index := w\<rparr>)))))"

definition strlen :: "string \<Rightarrow> nat" where
  "strlen s = length (takeWhile (\<lambda>c. c \<noteq> NUL) s)"

definition Append_cstr :: "string \<Rightarrow> Buffer \<Rightarrow> Buffer result" where
  "Append_cstr str b = Append_n str (to_int32 (int (strlen str))) b"

definition Append_string :: "string \<Rightarrow> Buffer \<Rightarrow> Buffer result" where
  "Append_string str b = Append_n str (to_int32 (int (length str))) b"

text \<open>
  An input stream is what is left to read and whether it is still good; a \<open>read\<close> that gets fewer
  characters than it asked for sets the failure bit.
\<close>

record istream =
  unread :: string
  good :: bool

definition istream_read :: "nat \<Rightarrow> istream \<Rightarrow> string \<times> istream" where
  "istream_read n s =
     (if good s
      then (take n (unread s), \<lparr>unread = drop n (unread s), good = (n \<le> length (unread s))\<rparr>)
      else ([], s))"

definition buffer_size :: nat where
  "buffer_size = 4096"

function Append_istream :: "istream \<Rightarrow> Buffer \<Rightarrow> (istream \<times> Buffer) result" where
  "Append_istream s b =
     (if good s
      then (let (xs, s1) = istream_read buffer_size s
            in bindE (Append_n xs (int (length xs)) b) (\<lambda>b1. Append_istream s1 b1))
      else Inr (s, b))"
  by pat_completeness auto
termination
proof (relation "measure (\<lambda>(s, b). length (unread s) + of_bool (good s))", goal_cases)
  case (2 s b p xs s1 b1)
  then show ?case by (auto simp: istream_read_def buffer_size_def split: if_splits)
qed simp

declare Append_istream.simps [simp del]

function Append_istream_n :: "istream \<Rightarrow> nat \<Rightarrow> Buffer \<Rightarrow> (istream \<times> Buffer) result" where
  "Append_istream_n s sz b =
     (if good s \<and> 0 < sz
      then (let n = min sz buffer_size;
                (xs, s1) = istream_read n s
            in bindE (Append_n xs (int (length xs)) b) (\<lambda>b1. Append_istream_n s1 (sz - n) b1))
      else Inr (s, b))"
  by pat_completeness auto
termination
  by (relation "measure (\<lambda>(s, sz, b). sz)") (auto simp: buffer_size_def)

declare Append_istream_n.simps [simp del]

definition PeekAsString :: "int \<Rightarrow> Buffer \<Rightarrow> string result" where
  "PeekAsString len b = read_range (beginread b) (beginread b + len) (buf b)"

definition PeekAllAsString :: "Buffer \<Rightarrow> string result" where
  "PeekAllAsString b = read_range (beginread b) (beginwrite b) (buf b)"

definition RetrieveAll :: "Buffer \<Rightarrow> Buffer" where
  "RetrieveAll b = b\<lparr>write_index := kPrePendIndex, read_index := kPrePendIndex\<rparr>"

definition Retrieve :: "int \<Rightarrow> Buffer \<Rightarrow> Buffer result" where
  "Retrieve len b =
     bindE (assertE (len \<le> readablebytes b)) (\<lambda>_.
     bindE (int_expr (len + read_index b)) (\<lambda>n.
     if n < write_index b then Inr (b\<lparr>read_index := n\<rparr>) else Inr (RetrieveAll b)))"

definition RetrieveAsString :: "int \<Rightarrow> Buffer \<Rightarrow> (string \<times> Buffer) result" where
  "RetrieveAsString len b =
     bindE (assertE (len \<le> write_index b - read_index b)) (\<lambda>_.
     bindE (PeekAsString len b) (\<lambda>str.
     bindE (Retrieve len b) (\<lambda>b1. Inr (str, b1))))"

definition RetrieveAllAsString :: "Buffer \<Rightarrow> (string \<times> Buffer) result" where
  "RetrieveAllAsString b =
     bindE (assertE (read_index b \<le> write_index b)) (\<lambda>_.
     bindE (PeekAllAsString b) (\<lambda>str. Inr (str, RetrieveAll b)))"

definition RetrieveUtil :: "int \<Rightarrow> Buffer \<Rightarrow> Buffer result" where
  "RetrieveUtil e b =
     bindE (assertE (beginread b \<le> e)) (\<lambda>_.
     bindE (assertE (e \<le> beginwrite b)) (\<lambda>_. Retrieve (e - beginread b) b))"

definition RetrieveUtilAsString :: "int \<Rightarrow> Buffer \<Rightarrow> (string \<times> Buffer) result" where
  "RetrieveUtilAsString e b =
     bindE (assertE (beginread b \<le> e)) (\<lambda>_.
     bindE (assertE (e \<le> beginwrite b)) (\<lambda>_.
     bindE (PeekAsString (e - beginread b) b) (\<lambda>str.
     bindE (Retrieve (e - beginread b) b) (\<lambda>b1. Inr (str, b1)))))"

lemmas buffer_defs = beginread_def beginwrite_def readablebytes_def writablebytes_def
  prependablebytes_def kPrePendIndex_def Buffer_IsEmpty_def

section \<open>Invariant and abstraction\<close>

text \<open>The indices are in order and inside the vector, whose size fits an \<open>int\<close>.\<close>

definition binv :: "Buffer \<Rightarrow> bool" where
  "binv b \<longleftrightarrow> 8 \<le> read_index b \<and> read_index b \<le> write_index b
     \<and> write_index b \<le> int (length (buf b)) \<and> int (length (buf b)) \<le> INT_MAX"

text \<open>The bytes that are still to be read.\<close>

definition contents :: "Buffer \<Rightarrow> string" where
  "contents b = slice (read_index b) (write_index b) (buf b)"

lemma binv_ctor [simp]: "binv Buffer_ctor"
  by (simp add: binv_def Buffer_ctor_def kPrePendIndex_def)

lemma contents_ctor [simp]: "contents Buffer_ctor = []"
  by (simp add: contents_def Buffer_ctor_def)

lemma length_contents: "binv b \<Longrightarrow> int (length (contents b)) = readablebytes b"
  by (simp add: contents_def binv_def readablebytes_def length_slice)

lemma binv_writable: "binv b \<Longrightarrow> writablebytes b = int (length (buf b)) - write_index b"
  by (simp add: binv_def writablebytes_def)

lemma Buffer_IsEmpty_iff: "binv b \<Longrightarrow> Buffer_IsEmpty b \<longleftrightarrow> contents b = []"
  using length_contents [of b] by (auto simp: buffer_defs binv_def)

lemma RetrieveAll_spec [simp]:
  "binv b \<Longrightarrow> binv (RetrieveAll b)" "contents (RetrieveAll b) = []"
  by (simp_all add: binv_def RetrieveAll_def kPrePendIndex_def contents_def)

section \<open>What each operation does\<close>

text \<open>What \<open>EnsureWritableBytes\<close> promises, in one place.\<close>

definition ensured :: "int \<Rightarrow> Buffer \<Rightarrow> Buffer \<Rightarrow> bool" where
  "ensured len b b' \<longleftrightarrow> binv b' \<and> contents b' = contents b
     \<and> write_index b' + len \<le> int (length (buf b'))
     \<and> readablebytes b' = readablebytes b \<and> write_index b' \<le> write_index b
     \<and> int (length (buf b')) \<le> max (int (length (buf b))) (readablebytes b + 8 + 2 * len)"

lemma compaction:
  assumes inv: "binv b" and room: "8 + len \<le> writablebytes b + prependablebytes b" and len: "0 \<le> len"
    and bs: "write_range 8 (slice (read_index b) (write_index b) (buf b)) (buf b) = Inr bs"
  shows "ensured len b (b\<lparr>buf := bs, write_index := 8 + readablebytes b, read_index := 8\<rparr>)"
proof -
  have l: "length bs = length (buf b)" using bs by (rule write_range_length)
  have "int (length (slice (read_index b) (write_index b) (buf b))) = readablebytes b"
    using inv by (simp add: binv_def length_slice readablebytes_def)
  then have "slice 8 (8 + readablebytes b) bs = slice (read_index b) (write_index b) (buf b)"
    using slice_write_same [OF bs] by simp
  moreover have "writablebytes b = int (length (buf b)) - write_index b"
    using inv by (rule binv_writable)
  ultimately show ?thesis
    using inv room len l
    by (simp add: ensured_def binv_def contents_def readablebytes_def prependablebytes_def)
qed

lemma growth:
  assumes inv: "binv b" and len: "writablebytes b < len" "write_index b + len \<le> INT_MAX"
    and no: "writablebytes b + prependablebytes b < 8 + len"
  shows "ensured len b (b\<lparr>buf := vec_resize (nat (write_index b + len)) NUL (buf b)\<rparr>)"
proof -
  have w: "writablebytes b = int (length (buf b)) - write_index b"
    using inv by (rule binv_writable)
  then have "slice (read_index b) (write_index b) (vec_resize (nat (write_index b + len)) NUL (buf b))
     = slice (read_index b) (write_index b) (buf b)"
    using inv len by (intro slice_vec_resize) (auto simp: binv_def)
  with w inv len no show ?thesis
    by (auto simp: ensured_def binv_def contents_def readablebytes_def prependablebytes_def)
qed

lemma EnsureWritableBytes_spec:
  assumes inv: "binv b" and len: "0 \<le> len" "write_index b + len + 8 \<le> INT_MAX"
  shows "\<exists>b'. EnsureWritableBytes len b = Inr b' \<and> ensured len b b'"
proof (cases "len \<le> writablebytes b")
  case True
  then show ?thesis using inv len
    by (auto simp: EnsureWritableBytes_def ensured_def binv_writable)
next
  case no_room: False
  have w: "writablebytes b = int (length (buf b)) - write_index b"
    using inv by (rule binv_writable)
  have ok: "int_expr (writablebytes b + prependablebytes b) = Inr (writablebytes b + prependablebytes b)"
    "int_expr (8 + len) = Inr (8 + len)" "int_expr (write_index b + len) = Inr (write_index b + len)"
    using inv len w by (simp_all add: binv_def prependablebytes_def)
  show ?thesis
  proof (cases "8 + len \<le> writablebytes b + prependablebytes b")
    case True
    let ?xs = "slice (read_index b) (write_index b) (buf b)"
    have "8 + int (length ?xs) \<le> int (length (buf b))"
      using inv by (simp add: binv_def length_slice)
    then obtain bs where bs: "write_range 8 ?xs (buf b) = Inr bs"
      using write_range_ok [of 8 ?xs "buf b"] by auto
    have rd: "read_range (beginread b) (beginwrite b) (buf b) = Inr ?xs"
      using inv by (simp add: binv_def beginread_def beginwrite_def)
    show ?thesis
      using compaction [OF inv True len(1) bs] no_room True ok bs rd
      by (simp add: EnsureWritableBytes_def kPrePendIndex_def)
  next
    case False
    with growth [OF inv, of len] no_room len ok inv show ?thesis
      by (simp add: EnsureWritableBytes_def kPrePendIndex_def binv_def)
  qed
qed

definition appended :: "string \<Rightarrow> Buffer \<Rightarrow> Buffer \<Rightarrow> bool" where
  "appended s b b' \<longleftrightarrow> binv b' \<and> contents b' = contents b @ s
     \<and> write_index b' \<le> write_index b + int (length s)
     \<and> int (length (buf b'))
         \<le> max (int (length (buf b))) (readablebytes b + 8 + 2 * int (length s))"

lemma Append_n_spec:
  assumes inv: "binv b" and room: "write_index b + int (length s) + 8 \<le> INT_MAX"
  shows "\<exists>b'. Append_n s (int (length s)) b = Inr b' \<and> appended s b b'"
proof -
  let ?n = "int (length s)"
  obtain b1 where b1: "EnsureWritableBytes ?n b = Inr b1" and e: "ensured ?n b b1"
    using EnsureWritableBytes_spec [OF inv, of ?n] room by auto
  have rd: "read_range 0 ?n s = Inr s" by (simp add: slice_def)
  have pos: "0 \<le> write_index b1" "write_index b1 + int (length s) \<le> int (length (buf b1))"
    using e by (simp_all add: ensured_def binv_def)
  obtain bs where wr: "write_range (write_index b1) s (buf b1) = Inr bs"
    using write_range_ok [OF pos] ..
  have i: "int_expr (write_index b1 + ?n) = Inr (write_index b1 + ?n)"
    using e room inv by (simp add: ensured_def binv_def)
  have res: "Append_n s ?n b = Inr (b1\<lparr>buf := bs, write_index := write_index b1 + ?n\<rparr>)"
    using b1 rd wr i by (simp add: Append_n_def beginwrite_def)
  have "slice (read_index b1) (write_index b1 + ?n) bs
      = slice (read_index b1) (write_index b1) bs @ slice (write_index b1) (write_index b1 + ?n) bs"
    using e pos write_range_length [OF wr] by (intro slice_append_right) (auto simp: ensured_def binv_def)
  also have "slice (read_index b1) (write_index b1) bs = contents b"
    using slice_write_before [OF wr] e by (simp add: ensured_def binv_def contents_def)
  also have "slice (write_index b1) (write_index b1 + ?n) bs = s"
    using wr by (rule slice_write_same) simp
  finally have "contents (b1\<lparr>buf := bs, write_index := write_index b1 + ?n\<rparr>) = contents b @ s"
    by (simp add: contents_def)
  then show ?thesis
    using res e pos write_range_length [OF wr] by (auto simp: appended_def ensured_def binv_def)
qed

lemma Retrieve_spec:
  assumes inv: "binv b" and n: "0 \<le> n" "n \<le> readablebytes b"
  shows "\<exists>b'. Retrieve n b = Inr b' \<and> binv b' \<and> contents b' = drop (nat n) (contents b)
     \<and> write_index b' \<le> write_index b \<and> buf b' = buf b"
proof -
  have i: "int_expr (n + read_index b) = Inr (n + read_index b)"
    using inv n by (simp add: binv_def readablebytes_def)
  show ?thesis
  proof (cases "n + read_index b < write_index b")
    case True
    then have "drop (nat n) (contents b) = slice (read_index b + n) (write_index b) (buf b)"
      using inv n by (simp add: contents_def drop_slice binv_def)
    with True i inv n show ?thesis
      by (simp add: Retrieve_def binv_def contents_def add.commute)
  next
    case False
    then have "nat n = length (contents b)"
      using n length_contents [OF inv] by (simp add: readablebytes_def)
    with False i inv n show ?thesis
      by (simp add: Retrieve_def) (simp add: RetrieveAll_def kPrePendIndex_def binv_def)
  qed
qed

lemma RetrieveAsString_spec:
  assumes inv: "binv b" and n: "0 \<le> n" "n \<le> readablebytes b"
  shows "\<exists>b'. RetrieveAsString n b = Inr (take (nat n) (contents b), b') \<and> binv b'
     \<and> contents b' = drop (nat n) (contents b) \<and> write_index b' \<le> write_index b"
proof -
  have "take (nat n) (contents b) = slice (read_index b) (read_index b + n) (buf b)"
    using inv n unfolding contents_def by (intro take_slice) (auto simp: binv_def readablebytes_def)
  then have "PeekAsString n b = Inr (take (nat n) (contents b))"
    using inv n by (simp add: PeekAsString_def beginread_def binv_def readablebytes_def)
  then show ?thesis
    using Retrieve_spec [OF inv n] n by (auto simp: RetrieveAsString_def readablebytes_def)
qed

lemma RetrieveAllAsString_spec:
  assumes "binv b"
  shows "RetrieveAllAsString b = Inr (contents b, RetrieveAll b)"
  using assms
  by (simp add: RetrieveAllAsString_def PeekAllAsString_def binv_def contents_def beginread_def beginwrite_def)

lemma Retrieve_too_much:
  "readablebytes b < n \<Longrightarrow> Retrieve n b = Inl Assertion_failed"
  by (simp add: Retrieve_def)

lemma RetrieveUtil_spec:
  assumes inv: "binv b" and e: "beginread b \<le> e" "e \<le> beginwrite b"
  shows "RetrieveUtil e b = Retrieve (e - beginread b) b"
  and "RetrieveUtilAsString e b = RetrieveAsString (e - beginread b) b"
  using assms by (simp_all add: RetrieveUtil_def RetrieveUtilAsString_def RetrieveAsString_def beginread_def beginwrite_def)

lemma Append_string_eq:
  "int (length s) \<le> INT_MAX \<Longrightarrow> Append_string s b = Append_n s (int (length s)) b"
  by (simp add: Append_string_def)

lemma Append_istream_spec:
  assumes "binv b" "good st" and "write_index b + int (length (unread st)) + 8 \<le> INT_MAX"
  shows "\<exists>b'. Append_istream st b = Inr (\<lparr>unread = [], good = False\<rparr>, b') \<and> binv b' \<and> contents b' = contents b @ unread st"
  using assms
proof (induction st b rule: Append_istream.induct)
  case (1 st b)
  let ?xs = "take buffer_size (unread st)" and ?s1 = "\<lparr>unread = drop buffer_size (unread st), good = (buffer_size \<le> length (unread st))\<rparr>"
  have rd: "istream_read buffer_size st = (?xs, ?s1)" using 1 by (simp add: istream_read_def)
  have xs: "write_index b + int (length ?xs) + 8 \<le> INT_MAX" using 1 by simp
  obtain b1 where b1: "Append_n ?xs (int (length ?xs)) b = Inr b1" and a: "appended ?xs b b1" 
    using Append_n_spec [OF 1(2) xs] by blast
  have step: "Append_istream st b = Append_istream ?s1 b1"
    using b1 1(3) by (simp add: Append_istream.simps [of st b] rd)
  show ?case
  proof (cases "buffer_size \<le> length (unread st)")
    case True
    have b1': "binv b1" "write_index b1 \<le> write_index b + int (length ?xs)" "contents b1 = contents b @ ?xs"
      using a by (simp_all add: appended_def)
    have "write_index b1 + int (length (unread ?s1)) + 8 \<le> INT_MAX"
      using b1' 1(4) True by simp 
    from 1(1) [OF 1(3) rd [symmetric] refl b1 b1'(1) _ this] True
    show ?thesis using b1'(3) by (auto simp: step)
  next
    case False
    with a step show ?thesis by (simp add: Append_istream.simps appended_def)
  qed
qed

lemma Append_istream_n_spec:
  assumes "binv b" "good st" and "write_index b + int (length (unread st)) + 8 \<le> INT_MAX"
  shows "\<exists>b' st'. Append_istream_n st sz b = Inr (st', b') \<and> binv b' \<and> contents b' = contents b @ take sz (unread st)"
  using assms
proof (induction st sz b rule: Append_istream_n.induct)
  case (1 st sz b)
  let ?n = "min sz buffer_size"
  let ?xs = "take ?n (unread st)" and ?s1 = "\<lparr>unread = drop ?n (unread st), good = (?n \<le> length (unread st))\<rparr>"
  have rd: "istream_read ?n st = (?xs, ?s1)" using 1 by (simp add: istream_read_def)
  show ?case
  proof (cases "sz = 0")
    case False
    have xs: "write_index b + int (length ?xs) + 8 \<le> INT_MAX" using 1 by simp
    obtain b1 where b1: "Append_n ?xs (int (length ?xs)) b = Inr b1" and a: "appended ?xs b b1" 
      using Append_n_spec [OF 1(2) xs] by blast
    have step: "Append_istream_n st sz b = Append_istream_n ?s1 (sz - ?n) b1"
      using b1 1(3) False by (simp add: Append_istream_n.simps [of st sz b] rd Let_def)
    have b1': "binv b1" "write_index b1 \<le> write_index b + int (length ?xs)" "contents b1 = contents b @ ?xs"
      using a by (simp_all add: appended_def)
    show ?thesis
    proof (cases "?n \<le> length (unread st)")
      case True
      have w: "write_index b1 + int (length (unread ?s1)) + 8 \<le> INT_MAX"
        using b1' 1(4) True by simp 
      have "take ?n (unread st) @ take (sz - ?n) (drop ?n (unread st)) = take sz (unread st)"
        by (simp add: take_add [symmetric])
      moreover have "\<exists>b' st'. Append_istream_n ?s1 (sz - ?n) b1 = Inr (st', b') \<and> binv b' \<and> contents b' = contents b1 @ take (sz - ?n) (unread ?s1)"
        using 1(1) [OF _ refl rd [symmetric] refl b1 b1'(1) _ w] True False 1(3) by simp
      ultimately show ?thesis using b1'(3) by (auto simp: step)
    next
      case False
      then have "length (unread st) < sz" "length (unread st) < buffer_size" by simp_all
      then have "?xs = take sz (unread st)" by simp
      moreover have "Append_istream_n st sz b = Inr (?s1, b1)"
        using False unfolding step by (simp add: Append_istream_n.simps)
      ultimately show ?thesis using b1'(1,3) by simp
    qed
  qed (use 1 in \<open>simp add: Append_istream_n.simps\<close>)
qed

text \<open>A retrieve of a negative length passes the assertion and moves the read index back, so that
  bytes already consumed become readable again.\<close>

lemma Retrieve_negative:
  assumes "binv b" and "0 < k" "k \<le> read_index b"
  shows "\<exists>b'. Retrieve (- k) b = Inr b' \<and> buf b' = buf b \<and> write_index b' = write_index b
     \<and> contents b' = slice (read_index b - k) (read_index b) (buf b) @ contents b"
proof -
  have "slice (read_index b - k) (write_index b) (buf b)
      = slice (read_index b - k) (read_index b) (buf b) @ contents b"
    using assms unfolding contents_def by (intro slice_append_right) (auto simp: binv_def)
  then show ?thesis
    using assms by (simp add: Retrieve_def binv_def readablebytes_def contents_def)
qed

section \<open>The byte queue\<close>

text \<open>
  The contract the connection relies on: a queue of bytes whose \<open>put\<close> succeeds as long as the
  room it may use stays below a limit, and whose \<open>get\<close> returns the oldest bytes.
\<close>

datatype queue_op = Put string | Get nat

fun queue_run ::
  "(string \<Rightarrow> 'q \<Rightarrow> 'q result) \<Rightarrow> (nat \<Rightarrow> 'q \<Rightarrow> (string \<times> 'q) result) \<Rightarrow> ('q \<Rightarrow> nat)
     \<Rightarrow> queue_op list \<Rightarrow> 'q \<Rightarrow> (string \<times> 'q) result" where
  "queue_run put get len [] q = Inr ([], q)"
| "queue_run put get len (Put s # ops) q = bindE (put s q) (queue_run put get len ops)"
| "queue_run put get len (Get n # ops) q =
     bindE (get (min n (len q)) q) (\<lambda>(out, q1).
     bindE (queue_run put get len ops q1) (\<lambda>(rest, q2). Inr (out @ rest, q2)))"

fun puts :: "queue_op list \<Rightarrow> string" where
  "puts [] = []"
| "puts (Put s # ops) = s @ puts ops"
| "puts (Get n # ops) = puts ops"

locale byte_queue =
  fixes inv :: "'q \<Rightarrow> bool"
    and bytes :: "'q \<Rightarrow> string"
    and used :: "'q \<Rightarrow> int"
    and limit :: int
    and put :: "string \<Rightarrow> 'q \<Rightarrow> 'q result"
    and get :: "nat \<Rightarrow> 'q \<Rightarrow> (string \<times> 'q) result"
  assumes put_ok: "inv q \<Longrightarrow> used q + int (length s) \<le> limit \<Longrightarrow>
      \<exists>q'. put s q = Inr q' \<and> inv q' \<and> bytes q' = bytes q @ s \<and> used q' \<le> used q + int (length s)"
    and get_ok: "inv q \<Longrightarrow> n \<le> length (bytes q) \<Longrightarrow>
      \<exists>q'. get n q = Inr (take n (bytes q), q') \<and> inv q' \<and> bytes q' = drop n (bytes q)
        \<and> used q' \<le> used q"
begin

text \<open>Nothing is lost, duplicated or reordered: what came out followed by what is left is what
  was there followed by what was put in.\<close>

lemma run_conserves:
  assumes "inv q" and "used q + int (length (puts ops)) \<le> limit"
  shows "\<exists>out q'. queue_run put get (length \<circ> bytes) ops q = Inr (out, q') \<and> inv q'
     \<and> out @ bytes q' = bytes q @ puts ops"
  using assms
proof (induction ops arbitrary: q rule: puts.induct)
  case 1
  then show ?case by simp
next
  case (2 s ops)
  have "used q + int (length s) \<le> limit" using "2.prems"(2) by simp
  then obtain q1 where q1: "put s q = Inr q1" "inv q1" "bytes q1 = bytes q @ s"
      "used q1 \<le> used q + int (length s)"
    using put_ok [OF "2.prems"(1)] by blast
  with "2.prems" have "used q1 + int (length (puts ops)) \<le> limit" by simp
  from "2.IH" [OF q1(2) this] q1 show ?case by simp
next
  case (3 n ops)
  let ?n = "min n (length (bytes q))"
  obtain q1 where q1: "get ?n q = Inr (take ?n (bytes q), q1)" "inv q1"
      "bytes q1 = drop ?n (bytes q)" "used q1 \<le> used q"
    using get_ok [OF "3.prems"(1), of ?n] by auto
  with "3.prems" have "used q1 + int (length (puts ops)) \<le> limit" by simp
  from "3.IH" [OF q1(2) this] obtain out q' where
    "queue_run put get (length \<circ> bytes) ops q1 = Inr (out, q')" "inv q'"
    "out @ bytes q' = bytes q1 @ puts ops" by blast
  moreover have "queue_run put get (length \<circ> bytes) (Get n # ops) q
      = Inr (take ?n (bytes q) @ out, q')"
    using q1(1) calculation(1) by simp
  moreover have "(take ?n (bytes q) @ out) @ bytes q' = bytes q @ puts (Get n # ops)"
    using calculation(3) q1(3) by (simp only: append_assoc) simp
  ultimately show ?case by blast
qed

end

definition buffer_put :: "string \<Rightarrow> Buffer \<Rightarrow> Buffer result" where
  "buffer_put s b = Append_string s b"

definition buffer_get :: "nat \<Rightarrow> Buffer \<Rightarrow> (string \<times> Buffer) result" where
  "buffer_get n b = RetrieveAsString (int n) b"

interpretation bq: byte_queue binv contents write_index "INT_MAX - 8" buffer_put buffer_get
proof unfold_locales
  fix q and s :: string
  assume "binv q" and "write_index q + int (length s) \<le> INT_MAX - 8"
  moreover from this have "int (length s) \<le> INT_MAX" by (simp add: binv_def)
  ultimately show "\<exists>q'. buffer_put s q = Inr q' \<and> binv q' \<and> contents q' = contents q @ s
      \<and> write_index q' \<le> write_index q + int (length s)"
    using Append_n_spec [of q s] by (auto simp: buffer_put_def Append_string_eq appended_def)
next
  fix q n
  assume "binv q" and "n \<le> length (contents q)"
  then show "\<exists>q'. buffer_get n q = Inr (take n (contents q), q') \<and> binv q'
      \<and> contents q' = drop n (contents q) \<and> write_index q' \<le> write_index q"
    using RetrieveAsString_spec [of q "int n"] length_contents [of q]
    by (auto simp: buffer_get_def)
qed

section \<open>Properties of the buffer\<close>

text \<open>Appending a string to a well-formed buffer never fails, touches nothing outside the vector,
  leaves the unread bytes in front of the new ones and keeps the vector small: it grows only when the
  free bytes before and after the readable part do not suffice, and then to at most twice the new
  bytes beyond what is readable.\<close>

lemma Append_string_keeps_bytes:
  assumes "binv b" and "write_index b + int (length s) + 8 \<le> INT_MAX"
  shows "\<exists>b'. Append_string s b = Inr b' \<and> binv b' \<and> contents b' = contents b @ s
     \<and> int (length (buf b')) \<le> max (int (length (buf b))) (readablebytes b + 8 + 2 * int (length s))"
proof -
  have "int (length s) \<le> INT_MAX" using assms by (simp add: binv_def)
  then show ?thesis
    using Append_n_spec [OF assms] by (auto simp: Append_string_eq appended_def)
qed

lemma Append_string_keeps_bytes_witness:
  "\<exists>b'. Append_string ''abc'' Buffer_ctor = Inr b' \<and> binv b' \<and> contents b' = ''abc''"
  using Append_string_keeps_bytes [of Buffer_ctor "''abc''"]
  by (auto simp: Buffer_ctor_def kPrePendIndex_def contents_def binv_def)

text \<open>C19: The buffer is a first-in first-out queue of bytes: for every sequence of appends and retrieves
  that stays within the range of \<open>int\<close>, every call succeeds, and the bytes retrieved followed by the
  bytes still readable are exactly the bytes appended, in order; none is lost, doubled or moved, however
  the vector is compacted or grown in between.\<close>

theorem buffer_is_fifo:
  assumes "int (length (puts ops)) \<le> INT_MAX - 16"
  shows "\<exists>out b'. queue_run buffer_put buffer_get (length \<circ> contents) ops Buffer_ctor = Inr (out, b')
     \<and> binv b' \<and> out @ contents b' = puts ops"
  using bq.run_conserves [OF binv_ctor, of ops] assms
  by (simp add: Buffer_ctor_def kPrePendIndex_def contents_def)

theorem buffer_is_fifo_witness:
  "\<exists>out b'. queue_run buffer_put buffer_get (length \<circ> contents)
       [Put ''hello'', Get 2, Put '' world'', Get 6] Buffer_ctor = Inr (out, b')
     \<and> binv b' \<and> out @ contents b' = ''hello world''"
  using buffer_is_fifo [of "[Put ''hello'', Get 2, Put '' world'', Get 6]"] by simp

text \<open>A retrieve of a length that is not negative either returns the oldest bytes and leaves the rest,
  or, when more is asked than is there, aborts at the assertion; a retrieve of everything also moves both
  indices back to the front, so the vector is reused.\<close>

lemma RetrieveAsString_on_every_length:
  assumes "binv b" and "0 \<le> n"
  shows "if n \<le> int (length (contents b))
    then \<exists>b'. RetrieveAsString n b = Inr (take (nat n) (contents b), b') \<and> binv b'
           \<and> contents b' = drop (nat n) (contents b) \<and> buf b' = buf b
           \<and> (n = int (length (contents b)) \<longrightarrow> read_index b' = kPrePendIndex \<and> write_index b' = kPrePendIndex)
    else RetrieveAsString n b = Inl Assertion_failed"
proof (cases "n \<le> int (length (contents b))")
  case True
  have r: "n \<le> readablebytes b" using True length_contents [OF assms(1)] by simp
  obtain b' where b': "RetrieveAsString n b = Inr (take (nat n) (contents b), b')" "binv b'"
      "contents b' = drop (nat n) (contents b)"
    using RetrieveAsString_spec [OF assms r] by blast
  then have R: "Retrieve n b = Inr b'"
    by (auto simp: RetrieveAsString_def bindE_def split: sum.splits)
  have i: "int_expr (n + read_index b) = Inr (n + read_index b)"
    using assms r by (simp add: binv_def readablebytes_def)
  have "buf b' = buf b" using R r i by (auto simp: Retrieve_def RetrieveAll_def split: if_splits)
  moreover have "read_index b' = kPrePendIndex \<and> write_index b' = kPrePendIndex"
    if "n = int (length (contents b))"
    using R i r that length_contents [OF assms(1)]
    by (auto simp: Retrieve_def RetrieveAll_def readablebytes_def split: if_splits)
  ultimately show ?thesis
    unfolding if_P [OF True] using b' by blast
next
  case False
  then show ?thesis
    using length_contents [OF assms(1)] by (simp add: RetrieveAsString_def readablebytes_def)
qed

lemma RetrieveAsString_on_every_length_witness:
  "RetrieveAsString 3 Buffer_ctor = Inl Assertion_failed"
  using RetrieveAsString_on_every_length [of Buffer_ctor 3] by simp

text \<open>A retrieve of a negative length passes the assertion and moves the read index back: bytes that
  were already consumed become readable again, in front of the unread ones.\<close>

lemma Retrieve_negative_resurrects:
  assumes "binv b" and "0 < k" and "k \<le> read_index b"
  shows "\<exists>b'. Retrieve (- k) b = Inr b' \<and> write_index b' = write_index b
     \<and> contents b' = slice (read_index b - k) (read_index b) (buf b) @ contents b
     \<and> int (length (contents b')) = int (length (contents b)) + k"
proof -
  obtain b' where b': "Retrieve (- k) b = Inr b'" "write_index b' = write_index b"
      "contents b' = slice (read_index b - k) (read_index b) (buf b) @ contents b"
    using Retrieve_negative [OF assms] by blast
  moreover have "int (length (slice (read_index b - k) (read_index b) (buf b))) = k"
    using assms by (simp add: length_slice binv_def)
  ultimately show ?thesis by simp
qed

lemma Retrieve_negative_resurrects_witness:
  "\<exists>b'. Retrieve (- 1) \<lparr>buf = replicate 8 NUL @ ''ab'', read_index = 9, write_index = 10\<rparr> = Inr b'
     \<and> contents b' = ''ab''"
  using Retrieve_negative_resurrects
      [of "\<lparr>buf = replicate 8 NUL @ ''ab'', read_index = 9, write_index = 10\<rparr>" 1]
  by (auto simp: binv_def contents_def slice_def eval_nat_numeral)

text \<open>Appending an input stream copies it whole, 4096 bytes at a time, and stops: afterwards the
  stream is empty and no longer good, and the buffer holds what it held followed by the stream.\<close>

lemma Append_istream_whole:
  assumes "binv b" and "good st" and "write_index b + int (length (unread st)) + 8 \<le> INT_MAX"
  shows "\<exists>b'. Append_istream st b = Inr (\<lparr>unread = [], good = False\<rparr>, b') \<and> binv b'
     \<and> contents b' = contents b @ unread st"
  using assms by (rule Append_istream_spec)

lemma Append_istream_whole_witness:
  "\<exists>b'. Append_istream \<lparr>unread = ''file text'', good = True\<rparr> Buffer_ctor
        = Inr (\<lparr>unread = [], good = False\<rparr>, b') \<and> binv b' \<and> contents b' = ''file text''"
  using Append_istream_whole [of Buffer_ctor "\<lparr>unread = ''file text'', good = True\<rparr>"]
  by (simp add: Buffer_ctor_def kPrePendIndex_def binv_def contents_def)

text \<open>Appending \<open>size\<close> characters of a stream copies exactly that many, or the whole stream when it
  is shorter.\<close>

lemma Append_istream_prefix:
  assumes "binv b" and "good st" and "write_index b + int (length (unread st)) + 8 \<le> INT_MAX"
  shows "\<exists>b' st'. Append_istream_n st sz b = Inr (st', b') \<and> binv b'
     \<and> contents b' = contents b @ take sz (unread st)"
  using assms by (rule Append_istream_n_spec)

lemma Append_istream_prefix_witness:
  "\<exists>b' st'. Append_istream_n \<lparr>unread = ''file text'', good = True\<rparr> 4 Buffer_ctor = Inr (st', b')
     \<and> binv b' \<and> contents b' = ''file''"
  using Append_istream_prefix [of Buffer_ctor "\<lparr>unread = ''file text'', good = True\<rparr>" 4]
  by (simp add: Buffer_ctor_def kPrePendIndex_def binv_def contents_def)

end
