(* ===== verification/FileHandler.thy ===== *)
theory FileHandler
  imports Buffer
begin

text \<open>
  The file access of \<open>utils/FileHandler.h\<close> and \<open>utils/FileHandler.cpp\<close> (classes \<open>FileHandler\<close> and
  \<open>PathUtils\<close>). The file system is the content of each regular file by its path; which paths can be
  opened for writing, and the text of a system error, are parameters. Directories are left to the theory
  \<open>Directories\<close>, which has a tree that this map abstracts from. Every failure is the exception the code throws. The theory shows what is read back
  after a write, through strings and through buffers.
\<close>

section \<open>Paths\<close>

text \<open>\<open>std::filesystem::path\<close>: the file name is what follows the last slash; the extension starts at
  the last dot of the file name, unless that is its first character or the name is dot or dot-dot.\<close>

definition GetFileName :: "string \<Rightarrow> string" where
  "GetFileName path = (case str_find_last CHR ''/'' path of Some i \<Rightarrow> drop (i + 1) path | None \<Rightarrow> path)"

definition GetExtension :: "string \<Rightarrow> string" where
  "GetExtension path =
     (let name = GetFileName path
      in if name = ''.'' \<or> name = ''..'' then []
         else case str_find_last CHR ''.'' name of
                Some i \<Rightarrow> if i = 0 then [] else drop i name
              | None \<Rightarrow> [])"

text \<open>The parent path: what precedes the last name, without the slashes between them, unless these are the root\<close>

definition GetDirectory :: "string \<Rightarrow> string" where
  "GetDirectory path =
     (case str_find_last CHR ''/'' path of
        None \<Rightarrow> []
      | Some i \<Rightarrow>
          (let dir = rev (dropWhile (\<lambda>c. c = CHR ''/'') (rev (take i path)))
           in if dir = [] then take (i + 1) path else dir))"

definition IsAbsolutePath :: "string \<Rightarrow> bool" where
  "IsAbsolutePath path = (case path of [] \<Rightarrow> False | c # _ \<Rightarrow> c = CHR ''/'')"

definition mime_types :: "(string \<times> string) list" where
  "mime_types =
    [(''.html'', ''text/html''), (''.htm'', ''text/html''), (''.js'', ''text/javascript''),
     (''.css'', ''text/css''), (''.json'', ''application/json''), (''.xml'', ''application/xml''),
     (''.png'', ''image/png''), (''.jpg'', ''image/jpeg''), (''.gif'', ''image/gif''),
     (''.svg'', ''image/svg+xml''), (''.mp4'', ''video/mp4''), (''.avi'', ''video/x-msvideo''),
     (''.mp3'', ''audio/mpeg''), (''.wav'', ''audio/wav''), (''.pdf'', ''application/pdf'')]"

definition getMimeType :: "string \<Rightarrow> string" where
  "getMimeType filepath =
     (let extension = GetExtension filepath
      in case map_of mime_types extension of
           Some t \<Rightarrow> t
         | None \<Rightarrow> ''application/octet-stream'')"

definition tolower :: "char \<Rightarrow> char" where
  "tolower c = (let n = of_char c :: nat in if 65 \<le> n \<and> n \<le> 90 then char_of (n + 32) else c)"

definition IsBinaryFile :: "string \<Rightarrow> bool" where
  "IsBinaryFile filepath =
     (let extension = map tolower (GetExtension filepath)
      in extension = ''.exe'' \<or> extension = ''.dll'' \<or> extension = ''.so'')"

section \<open>Files\<close>

type_synonym file_system = "string \<rightharpoonup> string"

definition Exists :: "file_system \<Rightarrow> string \<Rightarrow> bool" where
  "Exists fs path = (fs path \<noteq> None)"

definition open_failed :: "string \<Rightarrow> exc" where
  "open_failed path = Runtime_error (''Failed to open file: '' @ path)"

definition getFileSize :: "string \<Rightarrow> file_system \<Rightarrow> string \<Rightarrow> nat result" where
  "getFileSize what fs path =
     (case fs path of
        Some s \<Rightarrow> Inr (length s)
      | None \<Rightarrow> Inl (Runtime_error (''Failed to get file size: '' @ what)))"

text \<open>\<open>fs::remove\<close> returns whether there was something to remove.\<close>

definition deleteFile :: "file_system \<Rightarrow> string \<Rightarrow> bool \<times> file_system" where
  "deleteFile fs path = (fs path \<noteq> None, fs(path := None))"

definition moveFile :: "file_system \<Rightarrow> string \<Rightarrow> string \<Rightarrow> (bool \<times> file_system) result" where
  "moveFile fs from to =
     (case fs from of
        Some s \<Rightarrow> Inr (True, (fs(from := None))(to := Some s))
      | None \<Rightarrow> Inl (Runtime_error (''Failed to move file: '' @ from)))"

definition readFileBinary :: "file_system \<Rightarrow> string \<Rightarrow> string result" where
  "readFileBinary fs path =
     (case fs path of Some s \<Rightarrow> Inr s | None \<Rightarrow> Inl (open_failed path))"

text \<open>
  A part of a file: a failed \<open>seekg\<close> makes the read return nothing, a short read leaves the zeros the
  string was filled with, and a negative size is, as a \<open>size_t\<close>, too long for a string.
\<close>

definition readFileBinary_range :: "file_system \<Rightarrow> string \<Rightarrow> int \<Rightarrow> int \<Rightarrow> string result" where
  "readFileBinary_range fs path b e =
     (case fs path of
        None \<Rightarrow> Inl (open_failed path)
      | Some s \<Rightarrow>
          bindE (int_expr (e - b)) (\<lambda>n.
          if n < 0 then Inl Length_error
          else (let got = (if b < 0 then [] else take (nat n) (drop (nat b) s))
                in Inr (got @ replicate (nat n - length got) NUL))))"

definition readFileText :: "file_system \<Rightarrow> string \<Rightarrow> string result" where
  "readFileText fs path =
     (case fs path of Some s \<Rightarrow> Inr s | None \<Rightarrow> Inl (open_failed path))"

definition readFileBinary_Buffer :: "file_system \<Rightarrow> string \<Rightarrow> Buffer \<Rightarrow> Buffer result" where
  "readFileBinary_Buffer fs path out =
     (case fs path of
        None \<Rightarrow> Inl (open_failed path)
      | Some s \<Rightarrow>
          (let sz = length s
           in bindE (EnsureWritableBytes (to_int32 (int sz)) out) (\<lambda>out1.
              bindE (Append_istream_n \<lparr>unread = s, good = True\<rparr> sz out1) (\<lambda>(_, out2). Inr out2))))"

definition readFileText_Buffer :: "file_system \<Rightarrow> string \<Rightarrow> Buffer \<Rightarrow> Buffer result" where
  "readFileText_Buffer fs path out =
     (case fs path of
        None \<Rightarrow> Inl (open_failed path)
      | Some s \<Rightarrow> bindE (Append_istream \<lparr>unread = s, good = True\<rparr> out) (\<lambda>(_, out1). Inr out1))"

text \<open>Opening for writing creates or empties the file.\<close>

definition writeFileBinary :: "(string \<Rightarrow> bool) \<Rightarrow> string \<Rightarrow> string \<Rightarrow> file_system \<Rightarrow> file_system result" where
  "writeFileBinary can_write path s fs =
     (if can_write path then Inr (fs(path \<mapsto> s)) else Inl (open_failed path))"

definition writeFileText :: "(string \<Rightarrow> bool) \<Rightarrow> string \<Rightarrow> string \<Rightarrow> file_system \<Rightarrow> file_system result" where
  "writeFileText can_write path s fs =
     (if can_write path then Inr (fs(path \<mapsto> s)) else Inl (open_failed path))"

definition writeFileBinary_Buffer ::
    "(string \<Rightarrow> bool) \<Rightarrow> string \<Rightarrow> int \<Rightarrow> Buffer \<times> file_system \<Rightarrow> (Buffer \<times> file_system) result" where
  "writeFileBinary_Buffer can_write path sz = (\<lambda>(b, fs).
     if can_write path
     then bindE (RetrieveAsString sz b) (\<lambda>(s, b1). Inr (b1, fs(path \<mapsto> take (nat sz) s)))
     else Inl (open_failed path))"

definition writeFileText_Buffer ::
    "(string \<Rightarrow> bool) \<Rightarrow> string \<Rightarrow> int \<Rightarrow> Buffer \<times> file_system \<Rightarrow> (Buffer \<times> file_system) result" where
  "writeFileText_Buffer can_write path sz = (\<lambda>(b, fs).
     if can_write path
     then bindE (RetrieveAsString sz b) (\<lambda>(s, b1). Inr (b1, fs(path \<mapsto> s)))
     else Inl (open_failed path))"

lemmas file_defs = Exists_def getFileSize_def deleteFile_def readFileBinary_def readFileText_def
  writeFileBinary_def writeFileText_def

section \<open>Lemmas\<close>

lemma GetFileName_no_slash: "CHR ''/'' \<notin> set (GetFileName path)"
  using str_find_last_Some [of "CHR ''/''" path] str_find_last_None [of "CHR ''/''" path]
  by (auto simp: GetFileName_def split: option.splits)

lemma str_find_last_append:
  "str_find_last c (a @ b) = (case str_find_last c b of Some i \<Rightarrow> Some (length a + i) | None \<Rightarrow> str_find_last c a)"
  by (induction a) (auto split: option.splits)

lemma GetFileName_append:
  assumes "CHR ''/'' \<notin> set name"
  shows "GetFileName (dir @ ''/'' @ name) = name"
proof -
  have "str_find_last CHR ''/'' name = None" using assms by (simp add: str_find_last_None)
  then show ?thesis by (simp add: GetFileName_def str_find_last_append)
qed

lemma directory_and_name:
  assumes "CHR ''/'' \<notin> set name"
  shows "GetDirectory name = []" "GetDirectory (''/'' @ name) = ''/''"
    "dir \<noteq> [] \<Longrightarrow> last dir \<noteq> CHR ''/'' \<Longrightarrow> GetDirectory (dir @ ''/'' @ name) = dir"
    "IsAbsolutePath (dir @ ''/'' @ name) \<longleftrightarrow> dir = [] \<or> IsAbsolutePath dir"
proof -
  have n: "str_find_last CHR ''/'' name = None" using assms by (simp add: str_find_last_None)
  show "GetDirectory name = []" using n by (simp add: GetDirectory_def)
  have s: "str_find_last CHR ''/'' (dir @ ''/'' @ name) = Some (length dir)" for dir
    using n by (simp add: str_find_last_append)
  show "GetDirectory (''/'' @ name) = ''/''" using s [of "[]"] by (simp add: GetDirectory_def)
  show "GetDirectory (dir @ ''/'' @ name) = dir" if "dir \<noteq> []" "last dir \<noteq> CHR ''/''"
  proof -
    have "dropWhile (\<lambda>c. c = CHR ''/'') (rev dir) = rev dir"
      using that by (cases dir rule: rev_cases) auto
    then show ?thesis using s [of dir] that(1) by (simp add: GetDirectory_def)
  qed
  show "IsAbsolutePath (dir @ ''/'' @ name) \<longleftrightarrow> dir = [] \<or> IsAbsolutePath dir"
    by (cases dir) (simp_all add: IsAbsolutePath_def)
qed

section \<open>Properties of the file handler\<close>

text \<open>A file written from a buffer and read back into a buffer is the same bytes: the write takes
  exactly the given number of the oldest bytes out of the first buffer, and the read appends exactly
  these to the second, whatever both held.\<close>

lemma file_buffer_roundtrip:
  assumes "binv a" "binv b" and "0 \<le> n" "n \<le> int (length (contents a))" and "can_write path"
    and "write_index b + 2 * n + 8 \<le> INT_MAX"
  shows "\<exists>a' fs' b'. writeFileBinary_Buffer can_write path n (a, fs) = Inr (a', fs')
     \<and> readFileBinary_Buffer fs' path b = Inr b'
     \<and> contents a' = drop (nat n) (contents a)
     \<and> contents b' = contents b @ take (nat n) (contents a)
     \<and> (\<forall>p. p \<noteq> path \<longrightarrow> fs' p = fs p)"
proof -
  define s where "s = take (nat n) (contents a)"
  obtain a' where a': "RetrieveAsString n a = Inr (s, a')" "contents a' = drop (nat n) (contents a)"
    using RetrieveAsString_spec [OF assms(1,3)] assms(4) length_contents [OF assms(1)] by (auto simp: s_def)
  have len: "int (length s) = n" using assms(3,4) by (simp add: s_def)
  have "n \<le> INT_MAX" "write_index b + n + 8 \<le> INT_MAX" using assms(2,3,6) by (auto simp: binv_def)
  then obtain b1 where b1: "EnsureWritableBytes (to_int32 n) b = Inr b1" "ensured n b b1"
    using EnsureWritableBytes_spec [OF assms(2,3)] assms(3) by auto
  then have "binv b1" "contents b1 = contents b" "write_index b1 + int (length s) + 8 \<le> INT_MAX"
    using assms(3,6) len by (simp_all add: ensured_def)
  then obtain b' st where b': "Append_istream_n \<lparr>unread = s, good = True\<rparr> (length s) b1 = Inr (st, b')"
      "contents b' = contents b @ s"
    using Append_istream_n_spec [of b1 "\<lparr>unread = s, good = True\<rparr>" "length s"] by auto
  then have "readFileBinary_Buffer (fs(path \<mapsto> s)) path b = Inr b'"
    using b1(1) len unfolding readFileBinary_Buffer_def by simp
  moreover have "writeFileBinary_Buffer can_write path n (a, fs) = Inr (a', fs(path \<mapsto> s))"
    using a'(1) assms(5) len by (auto simp: writeFileBinary_Buffer_def)
  ultimately show ?thesis
    unfolding s_def [symmetric] using a'(2) b'(2)
    by (intro exI [of _ a'] exI [of _ "fs(path \<mapsto> s)"] exI [of _ b']) simp
qed

lemma file_buffer_roundtrip_witness:
  "\<exists>a' fs' b'. writeFileBinary_Buffer (\<lambda>_. True) ''f'' 1
       (\<lparr>buf = replicate 8 NUL @ ''ab'', read_index = 8, write_index = 10\<rparr>, Map.empty) = Inr (a', fs')
     \<and> readFileBinary_Buffer fs' ''f'' Buffer_ctor = Inr b' \<and> contents b' = ''a''"
proof -
  let ?a = "\<lparr>buf = replicate 8 NUL @ ''ab'', read_index = 8, write_index = 10\<rparr>"
  have c: "contents ?a = ''ab''" by (simp add: contents_def slice_def eval_nat_numeral)
  have "binv ?a" by (simp add: binv_def)
  from file_buffer_roundtrip [OF this binv_ctor, of 1 "\<lambda>_. True" "''f''" Map.empty] c show ?thesis
    by (auto simp: Buffer_ctor_def kPrePendIndex_def contents_def)
qed

end
