(* ===== verification/HttpRequest.thy ===== *)
theory HttpRequest
  imports CppString
begin

text \<open>
  \<open>http/HttpRequest.h\<close> and \<open>http/HttpRequest.cpp\<close>: the parsed request and its accessors. The two
  enumerations are integers, because the source gives two enumerators of each the value 0:
  \<open>kINVALID_METHOD\<close> is \<open>kGET\<close> and \<open>kINVALID_VERSION\<close> is \<open>kHTTP_1_0\<close>. A \<open>std::map\<close> that is only
  looked up and assigned to is a partial function.
\<close>

definition kGET :: int where "kGET = 0"
definition kPOST :: int where "kPOST = 1"
definition kHEAD :: int where "kHEAD = 2"
definition kPUT :: int where "kPUT = 3"
definition kDELETE :: int where "kDELETE = 4"
definition kINVALID_METHOD :: int where "kINVALID_METHOD = 0"

definition kHTTP_1_0 :: int where "kHTTP_1_0 = 0"
definition kHTTP_1_1 :: int where "kHTTP_1_1 = 1"
definition kINVALID_VERSION :: int where "kINVALID_VERSION = 0"

lemmas method_enum = kGET_def kPOST_def kHEAD_def kPUT_def kDELETE_def kINVALID_METHOD_def
lemmas version_enum = kHTTP_1_0_def kHTTP_1_1_def kINVALID_VERSION_def

record HttpRequest =
  rq_method :: int
  rq_version :: int
  rq_params :: "string \<rightharpoonup> string"
  rq_url :: string
  rq_protocol :: string
  rq_headers :: "string \<rightharpoonup> string"
  rq_body :: string

definition HttpRequest_ctor :: HttpRequest where
  "HttpRequest_ctor =
     \<lparr>rq_method = kINVALID_METHOD, rq_version = kINVALID_VERSION, rq_params = Map.empty,
      rq_url = [], rq_protocol = [], rq_headers = Map.empty, rq_body = []\<rparr>"

definition SetMethod :: "string \<Rightarrow> HttpRequest \<Rightarrow> HttpRequest" where
  "SetMethod m r =
     r\<lparr>rq_method :=
         (if m = ''GET'' then kGET
          else if m = ''POST'' then kPOST
          else if m = ''HEAD'' then kHEAD
          else if m = ''PUT'' then kPUT
          else if m = ''DELETE'' then kDELETE
          else kINVALID_METHOD)\<rparr>"

definition GetMethodString :: "HttpRequest \<Rightarrow> string" where
  "GetMethodString r =
     (if rq_method r = kGET then ''GET''
      else if rq_method r = kPOST then ''POST''
      else if rq_method r = kHEAD then ''HEAD''
      else if rq_method r = kPUT then ''PUT''
      else if rq_method r = kDELETE then ''DELETE''
      else ''INVALID_METHOD'')"

definition SetVersion :: "string \<Rightarrow> HttpRequest \<Rightarrow> HttpRequest" where
  "SetVersion v r =
     r\<lparr>rq_version :=
         (if v = ''HTTP/1.0'' then kHTTP_1_0
          else if v = ''HTTP/1.1'' then kHTTP_1_1
          else kINVALID_VERSION)\<rparr>"

definition GetVersionString :: "HttpRequest \<Rightarrow> string" where
  "GetVersionString r =
     (if rq_version r = kHTTP_1_0 then ''http1.0''
      else if rq_version r = kHTTP_1_1 then ''http1.1''
      else ''INVALID_VERSION'')"

definition SetUrl :: "string \<Rightarrow> HttpRequest \<Rightarrow> HttpRequest" where
  "SetUrl u r = r\<lparr>rq_url := u\<rparr>"

definition SetRequestParams :: "string \<Rightarrow> string \<Rightarrow> HttpRequest \<Rightarrow> HttpRequest" where
  "SetRequestParams k v r = r\<lparr>rq_params := (rq_params r)(k \<mapsto> v)\<rparr>"

definition GetRequestParamsString :: "HttpRequest \<Rightarrow> string \<Rightarrow> string" where
  "GetRequestParamsString r k = (case rq_params r k of None \<Rightarrow> [] | Some v \<Rightarrow> v)"

definition SetProtocol :: "string \<Rightarrow> HttpRequest \<Rightarrow> HttpRequest" where
  "SetProtocol p r = r\<lparr>rq_protocol := p\<rparr>"

definition SetHeader :: "string \<Rightarrow> string \<Rightarrow> HttpRequest \<Rightarrow> HttpRequest" where
  "SetHeader k v r = r\<lparr>rq_headers := (rq_headers r)(k \<mapsto> v)\<rparr>"

definition GetHeaderString :: "HttpRequest \<Rightarrow> string \<Rightarrow> string" where
  "GetHeaderString r k = (case rq_headers r k of None \<Rightarrow> [] | Some v \<Rightarrow> v)"

text \<open>\<open>GetHeaders().count(key)\<close>, used as a truth value\<close>

definition HasHeader :: "HttpRequest \<Rightarrow> string \<Rightarrow> bool" where
  "HasHeader r k = (rq_headers r k \<noteq> None)"

definition SetBody :: "string \<Rightarrow> HttpRequest \<Rightarrow> HttpRequest" where
  "SetBody s r = r\<lparr>rq_body := s\<rparr>"

definition AddBody :: "string \<Rightarrow> HttpRequest \<Rightarrow> HttpRequest" where
  "AddBody s r = r\<lparr>rq_body := rq_body r @ s\<rparr>"

lemmas request_defs = SetMethod_def SetVersion_def SetUrl_def SetRequestParams_def
  SetProtocol_def SetHeader_def SetBody_def AddBody_def

lemma GetMethodString_nonempty [simp]: "GetMethodString r \<noteq> []"
  by (simp add: GetMethodString_def)

lemma GetVersionString_nonempty [simp]: "GetVersionString r \<noteq> []"
  by (simp add: GetVersionString_def)

text \<open>What no setter but its own writes\<close>

lemma request_frame [simp]:
  "rq_url (SetMethod m r) = rq_url r" "rq_version (SetMethod m r) = rq_version r"
  "rq_headers (SetMethod m r) = rq_headers r" "rq_body (SetMethod m r) = rq_body r"
  "rq_method (SetUrl u r) = rq_method r" "rq_version (SetUrl u r) = rq_version r"
  "rq_headers (SetUrl u r) = rq_headers r" "rq_body (SetUrl u r) = rq_body r" "rq_url (SetUrl u r) = u"
  "rq_method (SetVersion v r) = rq_method r" "rq_url (SetVersion v r) = rq_url r"
  "rq_headers (SetVersion v r) = rq_headers r" "rq_body (SetVersion v r) = rq_body r"
  "rq_method (SetHeader k x r) = rq_method r" "rq_url (SetHeader k x r) = rq_url r"
  "rq_version (SetHeader k x r) = rq_version r" "rq_body (SetHeader k x r) = rq_body r"
  "rq_headers (SetHeader k x r) = (rq_headers r)(k \<mapsto> x)"
  "rq_method (SetBody s r) = rq_method r" "rq_url (SetBody s r) = rq_url r"
  "rq_version (SetBody s r) = rq_version r" "rq_headers (SetBody s r) = rq_headers r"
  "rq_body (SetBody s r) = s"
  "rq_method (AddBody s r) = rq_method r" "rq_url (AddBody s r) = rq_url r"
  "rq_version (AddBody s r) = rq_version r" "rq_headers (AddBody s r) = rq_headers r"
  "rq_body (AddBody s r) = rq_body r @ s"
  by (simp_all add: request_defs)

lemma AddBody_AddBody: "AddBody t (AddBody s r) = AddBody (s @ t) r"
  by (simp add: AddBody_def)

lemma method_string_roundtrip:
  "m \<in> {''GET'', ''POST'', ''HEAD'', ''PUT'', ''DELETE''} \<Longrightarrow> GetMethodString (SetMethod m r) = m"
  by (auto simp: GetMethodString_def SetMethod_def method_enum)

lemma unknown_method_is_GET:
  "m \<notin> {''POST'', ''HEAD'', ''PUT'', ''DELETE''} \<Longrightarrow> rq_method (SetMethod m r) = kGET"
  by (simp add: SetMethod_def method_enum)

lemma unknown_version_is_1_0:
  "v \<noteq> ''HTTP/1.1'' \<Longrightarrow> rq_version (SetVersion v r) = kHTTP_1_0"
  by (simp add: SetVersion_def version_enum)

lemma version_1_1: "rq_version (SetVersion ''HTTP/1.1'' r) = kHTTP_1_1"
  by (simp add: SetVersion_def)

end
