(* ===== verification/HttpContext.thy ===== *)
theory HttpContext
  imports HttpRequest
begin

text \<open>
  \<open>http/HttpContext.h\<close> and \<open>http/HttpContext.cpp\<close>: the incremental request parser. Each call of
  \<open>ParseRequest\<close> appends what arrived to the parser's buffer and goes as far as the buffered text
  allows. \<open>size_t\<close> positions are natural numbers; the one sum that the peer can make wrap (the
  announced chunk size) is taken modulo \<open>2 ^ 64\<close>. A returned \<open>False\<close> is a malformed request; an
  error value is an exception that nothing in the server catches.
\<close>

section \<open>The parser\<close>

record HttpContext =
  ctx_request :: HttpRequest
  content_length :: nat
  complete_headers :: bool
  complete_request :: bool
  ctx_buffer :: string

definition crlf :: string where
  "crlf = [CHR 0x0D, CHR 0x0A]"

text \<open>The constructor leaves \<open>complete_headers_\<close> uninitialised: its value is an argument.\<close>

definition HttpContext_ctor :: "bool \<Rightarrow> HttpContext" where
  "HttpContext_ctor indeterminate =
     \<lparr>ctx_request = HttpRequest_ctor, content_length = 0, complete_headers = indeterminate,
      complete_request = False, ctx_buffer = []\<rparr>"

definition Reset :: "HttpContext \<Rightarrow> HttpContext" where
  "Reset c = c\<lparr>ctx_request := HttpRequest_ctor, content_length := 0,
               complete_request := False, complete_headers := False\<rparr>"

definition ClearBuffer :: "HttpContext \<Rightarrow> HttpContext" where
  "ClearBuffer c = c\<lparr>ctx_buffer := []\<rparr>"

definition IsComplete :: "HttpContext \<Rightarrow> bool" where
  "IsComplete c = complete_request c"

text \<open>\<open>size_t\<close> values wrap modulo \<open>2 ^ 64\<close>.\<close>

definition size_t :: "int \<Rightarrow> nat" where
  "size_t x = nat (x mod 18446744073709551616)"

definition ParseRequestLine :: "string \<Rightarrow> HttpRequest \<Rightarrow> (HttpRequest \<times> bool) result" where
  "ParseRequestLine line r =
     (case str_find [CHR '' ''] line of
        None \<Rightarrow> Inr (r, False)
      | Some pos1 \<Rightarrow>
          (case str_find_from [CHR '' ''] line (pos1 + 1) of
             None \<Rightarrow> Inr (r, False)
           | Some pos2 \<Rightarrow>
               bindE (str_substr line 0 pos1) (\<lambda>m.
               bindE (str_substr line (pos1 + 1) (pos2 - pos1 - 1)) (\<lambda>u.
               bindE (str_substr_from line (pos2 + 1)) (\<lambda>v.
               let r1 = SetVersion v (SetUrl u (SetMethod m r))
               in Inr (r1, \<not> (GetMethodString r1 = [] \<or> rq_url r1 = []
                              \<or> GetVersionString r1 = [])))))))"

lemma str_find_from_bounds:
  "str_find_from pat s pos = Some e \<Longrightarrow> pos \<le> e \<and> e + length pat \<le> length s"
  by (auto simp: str_find_from_def split: if_splits dest: str_find_Some_bound)

text \<open>The loop of \<open>ParseRequestHeaders\<close> from position \<open>pos\<close>; the value starts two characters
  after the colon.\<close>

function ParseRequestHeaders_loop ::
    "string \<Rightarrow> nat \<Rightarrow> HttpRequest \<Rightarrow> (HttpRequest \<times> bool) result" where
  "ParseRequestHeaders_loop header_data pos r =
     (case str_find_from crlf header_data pos of
        None \<Rightarrow> Inr (r, True)
      | Some e \<Rightarrow>
          bindE (str_substr header_data pos (e - pos)) (\<lambda>line.
          case str_find [CHR '':''] line of
            None \<Rightarrow> Inr (r, False)
          | Some colon \<Rightarrow>
              bindE (str_substr line 0 colon) (\<lambda>key.
              bindE (str_substr_from line (colon + 2)) (\<lambda>v.
              ParseRequestHeaders_loop header_data (e + 2) (SetHeader key v r)))))"
  by pat_completeness auto
termination
  by (relation "measure (\<lambda>(h, pos, r). length h - pos)")
     (auto dest!: str_find_from_bounds simp: crlf_def)

declare ParseRequestHeaders_loop.simps [simp del]

definition ParseRequestHeaders :: "string \<Rightarrow> HttpRequest \<Rightarrow> (HttpRequest \<times> bool) result" where
  "ParseRequestHeaders header_data r = ParseRequestHeaders_loop header_data 0 r"

function ParseChunkedBody :: "HttpContext \<Rightarrow> (HttpContext \<times> bool) result" where
  "ParseChunkedBody c =
     (case str_find crlf (ctx_buffer c) of
        None \<Rightarrow> Inr (c, True)
      | Some e \<Rightarrow>
          bindE (bindE (str_substr (ctx_buffer c) 0 e) (stoul 16)) (\<lambda>chunk_size.
          if length (ctx_buffer c) < size_t (int e + 2 + int chunk_size + 2) then Inr (c, True)
          else
            let c1 = c\<lparr>ctx_buffer := str_erase0 (e + 2) (ctx_buffer c)\<rparr>
            in if chunk_size = 0
               then Inr (c1\<lparr>complete_request := True,
                            ctx_buffer := str_erase0 2 (ctx_buffer c1)\<rparr>, True)
               else bindE (str_substr (ctx_buffer c1) 0 chunk_size) (\<lambda>chunk.
                    ParseChunkedBody
                      (c1\<lparr>ctx_request := AddBody chunk (ctx_request c1),
                          ctx_buffer := str_erase0 (size_t (int chunk_size + 2))
                                          (ctx_buffer c1)\<rparr>))))"
  by pat_completeness auto
termination
  by (relation "measure (\<lambda>c. length (ctx_buffer c))")
     (auto dest!: str_find_Some_bound simp: crlf_def str_erase0_def)

declare ParseChunkedBody.simps [simp del]

text \<open>The second half of \<open>ParseRequest\<close>, after the headers are known\<close>

definition TakeBody :: "HttpContext \<Rightarrow> (HttpContext \<times> bool) result" where
  "TakeBody c =
     (let c1 = (if 0 < content_length c
                then c\<lparr>ctx_request := SetBody (take (content_length c) (ctx_buffer c)) (ctx_request c),
                       ctx_buffer := str_erase0 (content_length c) (ctx_buffer c)\<rparr>
                else c)
      in Inr (c1\<lparr>complete_request := True\<rparr>, True))"

definition ParseBody :: "HttpContext \<Rightarrow> (HttpContext \<times> bool) result" where
  "ParseBody c =
     (if HasHeader (ctx_request c) ''Transfer-Encoding''
         \<and> GetHeaderString (ctx_request c) ''Transfer-Encoding'' = ''chunked''
      then ParseChunkedBody c
      else if (HasHeader (ctx_request c) ''Connection''
               \<and> GetHeaderString (ctx_request c) ''Connection'' = ''close'')
              \<or> rq_version (ctx_request c) = kHTTP_1_0
      then TakeBody (c\<lparr>content_length := length (ctx_buffer c)\<rparr>)
      else if HasHeader (ctx_request c) ''Content-Length''
      then (case stoul 10 (GetHeaderString (ctx_request c) ''Content-Length'') of
              Inl _ \<Rightarrow> Inr (c, False)
            | Inr n \<Rightarrow>
                let c1 = c\<lparr>content_length := n\<rparr>
                in if length (ctx_buffer c1) < n then Inr (c1, True) else TakeBody c1)
      else TakeBody c)"

text \<open>The first half of \<open>ParseRequest\<close>: the request line and the headers up to the empty line.
  The buffer is cut before anything is parsed.\<close>

definition ParseHead :: "HttpContext \<Rightarrow> nat \<Rightarrow> (HttpContext \<times> bool) result" where
  "ParseHead c header_end =
     bindE (str_substr (ctx_buffer c) 0 (header_end + 2)) (\<lambda>header.
     let c1 = c\<lparr>ctx_buffer := str_erase0 (header_end + 4) (ctx_buffer c)\<rparr>
     in case str_find crlf header of
          None \<Rightarrow> Inr (c1, False)
        | Some pos \<Rightarrow>
            if pos = 0 then Inr (c1, False)
            else
              bindE (str_substr header 0 pos) (\<lambda>request_line.
              bindE (ParseRequestLine request_line (ctx_request c1)) (\<lambda>(r1, ok1).
              if \<not> ok1 then Inr (c1\<lparr>ctx_request := r1\<rparr>, False)
              else
                bindE (bindE (str_substr_from header (pos + 2)) (\<lambda>h. ParseRequestHeaders h r1))
                  (\<lambda>(r2, ok2).
                  if \<not> ok2 then Inr (c1\<lparr>ctx_request := r2\<rparr>, False)
                  else Inr (c1\<lparr>ctx_request := r2, complete_headers := True\<rparr>, True)))))"

definition ParseRequest :: "string \<Rightarrow> HttpContext \<Rightarrow> (HttpContext \<times> bool) result" where
  "ParseRequest str c =
     (let c0 = c\<lparr>ctx_buffer := ctx_buffer c @ str\<rparr>
      in if \<not> complete_headers c0 then
           (case str_find (crlf @ crlf) (ctx_buffer c0) of
              None \<Rightarrow> Inr (c0, True)
            | Some header_end \<Rightarrow>
                bindE (ParseHead c0 header_end) (\<lambda>(c1, ok).
                if \<not> ok then Inr (c1, False) else ParseBody c1))
         else ParseBody c0)"

section \<open>Parsing does not depend on how the message was cut\<close>

lemma length_crlf [simp]: "length crlf = 2"
  by (simp add: crlf_def)

lemma crlf_neq_Nil [simp]: "crlf \<noteq> []"
  by (simp add: crlf_def)

lemma hd_crlf [simp]: "hd crlf = CHR 0x0D"
  by (simp add: crlf_def)

lemma size_t_id [simp]: "0 \<le> x \<Longrightarrow> x < 18446744073709551616 \<Longrightarrow> size_t x = nat x"
  by (simp add: size_t_def)

text \<open>No chunk size met while reading the body \<open>s\<close> makes the completeness test wrap.\<close>

function chunks_fit :: "string \<Rightarrow> bool" where
  "chunks_fit s =
     (case str_find crlf s of
        None \<Rightarrow> True
      | Some e \<Rightarrow>
          (case stoul 16 (take e s) of
             Inl _ \<Rightarrow> True
           | Inr n \<Rightarrow> int e + 4 + int n < 18446744073709551616
                       \<and> (n \<noteq> 0 \<and> e + 4 + n \<le> length s \<longrightarrow> chunks_fit (drop (e + 4 + n) s))))"
  by pat_completeness auto
termination
  by (relation "measure length") (auto dest!: str_find_Some_bound)

declare chunks_fit.simps [simp del]

abbreviation with_more :: "string \<Rightarrow> HttpContext \<Rightarrow> HttpContext" where
  "with_more t c \<equiv> c\<lparr>ctx_buffer := ctx_buffer c @ t\<rparr>"

lemma chunks_fit_append: "chunks_fit (s @ t) \<Longrightarrow> chunks_fit s"
proof (induction s rule: chunks_fit.induct)
  case (1 s)
  show ?case
  proof (cases "str_find crlf s")
    case None
    then show ?thesis by (simp add: chunks_fit.simps [of s])
  next
    case (Some e)
    then have e: "str_find crlf (s @ t) = Some e" "e \<le> length s"
      using str_find_Some_bound [OF Some] by (simp_all add: str_find_append)
    show ?thesis
    proof (cases "stoul 16 (take e s)")
      case (Inr n)
      with 1 Some e show ?thesis
        by (auto simp: chunks_fit.simps [of s] chunks_fit.simps [of "s @ t"])
    qed (simp add: chunks_fit.simps [of s] Some)
  qed
qed

lemma Suc4: "Suc (Suc (Suc (Suc m))) = m + 4"
  by simp

text \<open>One chunk that is there in full\<close>

lemma ParseChunkedBody_step:
  assumes "str_find crlf (ctx_buffer c) = Some e" and "stoul 16 (take e (ctx_buffer c)) = Inr n"
    and "int e + 4 + int n < 18446744073709551616" and "e + 4 + n \<le> length (ctx_buffer c)"
  shows "ParseChunkedBody c =
     (if n = 0 then Inr (c\<lparr>complete_request := True, ctx_buffer := drop (e + 4) (ctx_buffer c)\<rparr>, True)
      else ParseChunkedBody
             (c\<lparr>ctx_request := AddBody (take n (drop (e + 2) (ctx_buffer c))) (ctx_request c),
                ctx_buffer := drop (e + 4 + n) (ctx_buffer c)\<rparr>))"
proof -
  have "size_t (int e + 2 + int n + 2) = e + 4 + n" "size_t (int n + 2) = n + 2"
    using assms(3) by (auto simp: nat_eq_iff)
  then show ?thesis
    using assms str_find_Some_bound [OF assms(1)]
    by (simp add: ParseChunkedBody.simps [of c] str_substr_def str_erase0_def Let_def add_ac Suc4)
qed

lemma ParseChunkedBody_wait:
  assumes "str_find crlf (ctx_buffer c) = Some e" and "stoul 16 (take e (ctx_buffer c)) = Inr n"
    and "int e + 4 + int n < 18446744073709551616" and "\<not> e + 4 + n \<le> length (ctx_buffer c)"
  shows "ParseChunkedBody c = Inr (c, True)"
proof -
  have "size_t (int e + 2 + int n + 2) = e + 4 + n"
    using assms(3) by (auto simp: nat_eq_iff)
  then show ?thesis
    using assms str_find_Some_bound [OF assms(1)]
    by (simp add: ParseChunkedBody.simps [of c] str_substr_def)
qed

lemma ParseChunkedBody_bad:
  assumes "str_find crlf (ctx_buffer c) = Some e" and "stoul 16 (take e (ctx_buffer c)) = Inl x"
  shows "ParseChunkedBody c = Inl x"
  using assms str_find_Some_bound [OF assms(1)]
  by (simp add: ParseChunkedBody.simps [of c] str_substr_def)

lemma ParseChunkedBody_returns_True:
  "ParseChunkedBody c = Inr (c1, ok) \<Longrightarrow> ok"
proof (induction c rule: ParseChunkedBody.induct)
  case (1 c)
  show ?case
  proof (cases "str_find crlf (ctx_buffer c)")
    case None
    with 1 show ?thesis by (simp add: ParseChunkedBody.simps [of c])
  next
    case (Some e)
    with 1(2) obtain n where n: "bindE (str_substr (ctx_buffer c) 0 e) (stoul 16) = Inr n"
      by (subst (asm) ParseChunkedBody.simps) (auto simp: result_simps)
    show ?thesis
    proof (cases "length (ctx_buffer c) < size_t (int e + 2 + int n + 2) \<or> n = 0")
      case True
      with 1(2) Some n show ?thesis
        by (auto simp: ParseChunkedBody.simps [of c] Let_def split: if_splits)
    next
      case False
      then have F: "\<not> length (ctx_buffer c) < size_t (int e + 2 + int n + 2)" "n \<noteq> 0" by auto
      show ?thesis
        using 1(1) [OF Some n F(1) refl F(2), of "take n (drop (e + 2) (ctx_buffer c))"] 1(2) Some n F
        by (simp add: ParseChunkedBody.simps [of c] Let_def str_substr_def str_erase0_def split: if_splits)
    qed
  qed
qed

lemma ParseChunkedBody_split:
  assumes "ParseChunkedBody c = Inr (c1, True)" "\<not> complete_request c1" "chunks_fit (ctx_buffer c)"
  shows "ParseChunkedBody (with_more t c) = ParseChunkedBody (with_more t c1)
     \<and> complete_headers c1 = complete_headers c
     \<and> rq_headers (ctx_request c1) = rq_headers (ctx_request c)
     \<and> (chunks_fit (ctx_buffer c @ t) \<longrightarrow> chunks_fit (ctx_buffer c1 @ t))"
  using assms
proof (induction c rule: ParseChunkedBody.induct)
  case (1 c)
  show ?case
  proof (cases "str_find crlf (ctx_buffer c)")
    case None
    with 1 show ?thesis by (simp add: ParseChunkedBody.simps [of c])
  next
    case (Some e)
    note le = str_find_Some_bound [OF Some]
    have Some': "str_find crlf (ctx_buffer (with_more t c)) = Some e"
      using Some by (simp add: str_find_append)
    have tk: "take e (ctx_buffer (with_more t c)) = take e (ctx_buffer c)" using le by simp
    obtain n where n: "stoul 16 (take e (ctx_buffer c)) = Inr n"
      using 1(2) ParseChunkedBody_bad [OF Some] by (cases "stoul 16 (take e (ctx_buffer c))") auto
    have fit: "int e + 4 + int n < 18446744073709551616"
      using 1(4) Some n by (simp add: chunks_fit.simps [of "ctx_buffer c"])
    show ?thesis
    proof (cases "e + 4 + n \<le> length (ctx_buffer c)")
      case False
      with 1 ParseChunkedBody_wait [OF Some n fit] show ?thesis by simp
    next
      case True
      note st = ParseChunkedBody_step [OF Some n fit True]
      have True': "e + 4 + n \<le> length (ctx_buffer (with_more t c))" using True by simp
      note st' = ParseChunkedBody_step [OF Some' _ fit True', unfolded tk, OF n]
      show ?thesis
      proof (cases "n = 0")
        case True
        with 1 st show ?thesis by auto
      next
        case False
        let ?c = "c\<lparr>ctx_request := AddBody (take n (drop (e + 2) (ctx_buffer c))) (ctx_request c),
                ctx_buffer := drop (e + 4 + n) (ctx_buffer c)\<rparr>"
        have sz: "size_t (int e + 2 + int n + 2) = e + 4 + n" "size_t (int n + 2) = n + 2"
          using fit by (auto simp: nat_eq_iff)
        have ih: "ParseChunkedBody ?c = Inr (c1, True) \<Longrightarrow> \<not> complete_request c1 \<Longrightarrow> chunks_fit (ctx_buffer ?c) \<Longrightarrow>
            ParseChunkedBody (with_more t ?c) = ParseChunkedBody (with_more t c1) \<and> complete_headers c1 = complete_headers ?c
             \<and> rq_headers (ctx_request c1) = rq_headers (ctx_request ?c)
             \<and> (chunks_fit (ctx_buffer ?c @ t) \<longrightarrow> chunks_fit (ctx_buffer c1 @ t))"
          using 1(1) [OF Some, of n "c\<lparr>ctx_buffer := str_erase0 (e + 2) (ctx_buffer c)\<rparr>" "take n (drop (e + 2) (ctx_buffer c))"] n sz True False le
          by (simp add: str_substr_def str_erase0_def add_ac Suc4)
        have "chunks_fit (ctx_buffer ?c)"
          using 1(4) Some n True False by (simp add: chunks_fit.simps [of "ctx_buffer c"])
        moreover have "ParseChunkedBody (with_more t c) = ParseChunkedBody (with_more t ?c)"
          using st' False True le by simp
        moreover have "chunks_fit (ctx_buffer c @ t) \<longrightarrow> chunks_fit (ctx_buffer ?c @ t)"
          using Some' n tk True True' False by (simp add: chunks_fit.simps [of "ctx_buffer c @ t"])
        ultimately show ?thesis using ih 1(2,3) st False by simp
      qed
    qed
  qed
qed

lemma TakeBody_complete: "TakeBody c = Inr (c1, ok) \<Longrightarrow> ok \<and> complete_request c1"
  by (auto simp: TakeBody_def Let_def)

text \<open>The conditions \<open>ParseBody\<close> tests, named\<close>

definition is_chunked :: "HttpRequest \<Rightarrow> bool" where
  "is_chunked r \<longleftrightarrow> HasHeader r ''Transfer-Encoding''
     \<and> GetHeaderString r ''Transfer-Encoding'' = ''chunked''"

definition until_close :: "HttpRequest \<Rightarrow> bool" where
  "until_close r \<longleftrightarrow> (HasHeader r ''Connection'' \<and> GetHeaderString r ''Connection'' = ''close'')
     \<or> rq_version r = kHTTP_1_0"

lemma ParseBody_cases:
  "is_chunked (ctx_request c) \<Longrightarrow> ParseBody c = ParseChunkedBody c"
  "\<not> is_chunked (ctx_request c) \<Longrightarrow> until_close (ctx_request c) \<Longrightarrow>
     ParseBody c = TakeBody (c\<lparr>content_length := length (ctx_buffer c)\<rparr>)"
  "\<not> is_chunked (ctx_request c) \<Longrightarrow> \<not> until_close (ctx_request c) \<Longrightarrow>
     HasHeader (ctx_request c) ''Content-Length'' \<Longrightarrow>
     stoul 10 (GetHeaderString (ctx_request c) ''Content-Length'') = Inl x \<Longrightarrow>
     ParseBody c = Inr (c, False)"
  "\<not> is_chunked (ctx_request c) \<Longrightarrow> \<not> until_close (ctx_request c) \<Longrightarrow>
     HasHeader (ctx_request c) ''Content-Length'' \<Longrightarrow>
     stoul 10 (GetHeaderString (ctx_request c) ''Content-Length'') = Inr n \<Longrightarrow>
     ParseBody c = (if length (ctx_buffer c) < n then Inr (c\<lparr>content_length := n\<rparr>, True)
                    else TakeBody (c\<lparr>content_length := n\<rparr>))"
  "\<not> is_chunked (ctx_request c) \<Longrightarrow> \<not> until_close (ctx_request c) \<Longrightarrow>
     \<not> HasHeader (ctx_request c) ''Content-Length'' \<Longrightarrow> ParseBody c = TakeBody c"
  unfolding ParseBody_def is_chunked_def until_close_def by (simp_all only: if_True if_False simp_thms sum.case Let_def) simp

definition body_fits :: "HttpContext \<Rightarrow> bool" where
  "body_fits c \<longleftrightarrow> (is_chunked (ctx_request c) \<longrightarrow> chunks_fit (ctx_buffer c))"

lemma body_fits_more: "body_fits (with_more t c) \<Longrightarrow> body_fits c"
  by (auto simp: body_fits_def dest: chunks_fit_append)

lemma ParseBody_split:
  assumes "ParseBody c = Inr (c1, True)" "\<not> complete_request c1" "body_fits c"
  shows "ParseBody (with_more t c) = ParseBody (with_more t c1)
     \<and> complete_headers c1 = complete_headers c
     \<and> (body_fits (with_more t c) \<longrightarrow> body_fits (with_more t c1))"
proof (cases "is_chunked (ctx_request c)")
  case True
  then have b: "ParseBody c = ParseChunkedBody c" "ParseBody (with_more t c) = ParseChunkedBody (with_more t c)"
    by (simp_all add: ParseBody_cases)
  have "chunks_fit (ctx_buffer c)" using assms(3) True by (simp add: body_fits_def)
  note sp = ParseChunkedBody_split [OF assms(1) [unfolded b] assms(2) this, of t]
  then have "is_chunked (ctx_request (with_more t c1))"
    using True by (simp add: is_chunked_def HasHeader_def GetHeaderString_def)
  with b sp True show ?thesis by (simp add: ParseBody_cases body_fits_def)
next
  case nc: False
  have tb: "ParseBody c \<noteq> TakeBody x" for x
    using assms(1,2) TakeBody_complete [of x c1 True] by auto
  have uc: "\<not> until_close (ctx_request c)" and hl: "HasHeader (ctx_request c) ''Content-Length''"
    using tb nc ParseBody_cases(2,5) [of c] by blast+
  from ParseBody_cases(3) [OF nc uc hl] assms(1)
  obtain n where n: "stoul 10 (GetHeaderString (ctx_request c) ''Content-Length'') = Inr n"
    by (cases "stoul 10 (GetHeaderString (ctx_request c) ''Content-Length'')") auto
  note eq = ParseBody_cases(4) [OF nc uc hl n]
  from eq tb assms(1) have c1: "c1 = c\<lparr>content_length := n\<rparr>"
    by (auto split: if_splits)
  have "ParseBody (c\<lparr>ctx_buffer := ctx_buffer c @ t\<rparr>) = ParseBody (c\<lparr>content_length := n, ctx_buffer := ctx_buffer c @ t\<rparr>)"
    using nc uc hl n by (simp add: ParseBody_cases(4))
  then show ?thesis by (simp add: c1 body_fits_def)
qed

lemma ParseHead_more:
  assumes "he + 4 \<le> length (ctx_buffer c)"
  shows "ParseHead (with_more t c) he = map_sum id (\<lambda>(x, ok). (with_more t x, ok)) (ParseHead c he)"
proof -
  have h: "str_substr (ctx_buffer (with_more t c)) 0 (he + 2) = str_substr (ctx_buffer c) 0 (he + 2)"
    using assms by (simp add: str_substr_def)
  have b: "str_erase0 (he + 4) (ctx_buffer (with_more t c)) = str_erase0 (he + 4) (ctx_buffer c) @ t"
    using assms by (simp add: str_erase0_def)
  show ?thesis
    unfolding ParseHead_def h b Let_def
    by (simp add: bindE_def split: sum.splits option.splits if_splits prod.splits)
qed

text \<open>No chunk size that \<open>c\<close> meets in a chunked body once \<open>s\<close> has arrived is so large that the
  completeness test wraps.\<close>

definition request_fits :: "HttpContext \<Rightarrow> string \<Rightarrow> bool" where
  "request_fits c s =
     (if complete_headers c then body_fits (with_more s c)
      else (case str_find (crlf @ crlf) (ctx_buffer c @ s) of
              None \<Rightarrow> True
            | Some e \<Rightarrow> (case ParseHead (with_more s c) e of
                           Inl _ \<Rightarrow> True
                         | Inr (h, ok) \<Rightarrow> ok \<longrightarrow> body_fits h)))"

lemma ParseHead_buffer:
  "ParseHead c he = Inr (c1, ok) \<Longrightarrow>
     ctx_buffer c1 = drop (he + 4) (ctx_buffer c) \<and> complete_request c1 = complete_request c
     \<and> (ok \<longrightarrow> complete_headers c1)"
  unfolding ParseHead_def
  by (auto simp: result_simps Let_def str_erase0_def split: option.splits if_splits prod.splits)

lemma ParseRequest_split:
  assumes "ParseRequest a c = Inr (c1, True)" and "\<not> complete_request c1"
    and fit: "request_fits c a"
  shows "ParseRequest (a @ b) c = ParseRequest b c1
     \<and> (request_fits c (a @ b) \<longrightarrow> request_fits c1 b)"
proof (cases "complete_headers c")
  case True
  then have p: "ParseRequest s c = ParseBody (with_more s c)" for s
    by (simp add: ParseRequest_def)
  have "ParseBody (with_more b (with_more a c)) = ParseBody (with_more b c1)" "complete_headers c1"
       "request_fits c (a @ b) \<longrightarrow> request_fits c1 b"
    using ParseBody_split [OF assms(1) [unfolded p] assms(2), of b] fit True
    by (simp_all add: request_fits_def)
  then show ?thesis by (simp add: p) (simp add: ParseRequest_def)
next
  case False
  show ?thesis
  proof (cases "str_find (crlf @ crlf) (ctx_buffer c @ a)")
    case None
    with False assms(1) have "c1 = with_more a c" by (simp add: ParseRequest_def)
    then show ?thesis
      using False by (simp add: ParseRequest_def request_fits_def split: option.split)
  next
    case (Some he)
    have le: "he + 4 \<le> length (ctx_buffer (with_more a c))"
      using str_find_Some_bound [OF Some] by simp
    have p: "ParseRequest (a @ s) c = bindE (ParseHead (with_more s (with_more a c)) he)
        (\<lambda>(c1, ok). if \<not> ok then Inr (c1, False) else ParseBody c1)" for s
      using False str_find_append [OF Some, of s] by (simp add: ParseRequest_def)
    obtain x where x: "ParseHead (with_more a c) he = Inr x"
      using assms(1) p [of "[]"] by (cases "ParseHead (with_more a c) he") auto
    obtain h okh where "x = (h, okh)" by (cases x)
    with x assms(1) p [of "[]"] have h: "ParseHead (with_more a c) he = Inr (h, True)"
      and b: "ParseBody h = Inr (c1, True)"
      by (auto split: if_splits)
    have hb: "ctx_buffer h = drop (he + 4) (ctx_buffer c @ a)" "complete_headers h"
      using ParseHead_buffer [OF h] by simp_all
    have hm: "ParseHead (with_more b (with_more a c)) he = Inr (with_more b h, True)"
      using ParseHead_more [OF le] h by simp
    then have "ParseRequest (a @ b) c = ParseBody (with_more b h)"
      using p [of b] by simp
    moreover have "body_fits h"
      using fit False Some h by (simp add: request_fits_def)
    note sp = ParseBody_split [OF b assms(2) this, of b]
    moreover have "request_fits c (a @ b) = body_fits (with_more b h)"
      using False hm str_find_append [OF Some, of b] by (simp add: request_fits_def)
    ultimately show ?thesis
      using hb by (simp add: ParseRequest_def request_fits_def)
  qed
qed

text \<open>
  \<open>feed frags c\<close> hands the pieces of a message to the parser one by one, as the connection does
  when they arrive in separate reads, until the parser reports a complete or a malformed request.
  It returns the parser, its verdict and the pieces it did not need.
\<close>

fun feed :: "string list \<Rightarrow> HttpContext \<Rightarrow> (HttpContext \<times> bool \<times> string list) result" where
  "feed [] c = Inr (c, True, [])"
| "feed (f # fs) c =
     bindE (ParseRequest f c) (\<lambda>(c1, ok).
     if ok \<and> \<not> IsComplete c1 then (if fs = [] then Inr (c1, True, []) else feed fs c1)
     else Inr (c1, ok, fs))"

lemma request_fits_append:
  assumes "request_fits c (s @ t)"
  shows "request_fits c s"
proof (cases "complete_headers c")
  case True
  then show ?thesis
    using assms body_fits_more [of "with_more s c" t] by (simp add: request_fits_def)
next
  case False
  show ?thesis
  proof (cases "str_find (crlf @ crlf) (ctx_buffer c @ s)")
    case None
    with False show ?thesis by (simp add: request_fits_def)
  next
    case (Some e)
    have "e + 4 \<le> length (ctx_buffer (with_more s c))"
      using str_find_Some_bound [OF Some] by simp
    then show ?thesis
      using False assms Some str_find_append [OF Some, of t] ParseHead_more [of e "with_more s c" t]
      by (cases "ParseHead (with_more s c) e") (auto simp: request_fits_def dest: body_fits_more)
  qed
qed

lemma feed_concat:
  assumes "feed frags c = Inr (c', ok, [])" and "frags \<noteq> []"
    and "request_fits c (concat frags)"
  shows "ParseRequest (concat frags) c = Inr (c', ok)"
  using assms
proof (induction frags arbitrary: c)
  case (Cons f fs)
  obtain c1 ok1 where p: "ParseRequest f c = Inr (c1, ok1)"
    using Cons.prems(1) by (auto simp: result_simps)
  show ?case
  proof (cases "ok1 \<and> \<not> IsComplete c1 \<and> fs \<noteq> []")
    case False
    then show ?thesis using p Cons.prems(1) by (auto split: if_splits)
  next
    case True
    then have "feed fs c1 = Inr (c', ok, [])" using p Cons.prems(1) by simp
    moreover have "request_fits c f"
      using Cons.prems(3) request_fits_append [of c f "concat fs"] by simp
    note sp = ParseRequest_split [OF _ _ this, of c1 "concat fs"]
    ultimately show ?thesis
      using Cons.IH [of c1] sp p True Cons.prems(3) by (simp add: IsComplete_def)
  qed
qed simp

section \<open>Parsing inverts printing\<close>

subsection \<open>Message syntax\<close>

definition header_line :: "string \<times> string \<Rightarrow> string" where
  "header_line kv = fst kv @ '': '' @ snd kv"

fun lines_text :: "string list \<Rightarrow> string" where
  "lines_text [] = []"
| "lines_text (l # ls) = l @ crlf @ lines_text ls"

definition request_head :: "string \<Rightarrow> string \<Rightarrow> string \<Rightarrow> (string \<times> string) list \<Rightarrow> string" where
  "request_head m u v hs =
     (m @ '' '' @ u @ '' '' @ v) @ crlf @ lines_text (map header_line hs) @ crlf"

definition plain_text :: "string \<Rightarrow> bool" where
  "plain_text s \<longleftrightarrow> CHR 0x0D \<notin> set s"

definition head_ok :: "string \<Rightarrow> string \<Rightarrow> string \<Rightarrow> (string \<times> string) list \<Rightarrow> bool" where
  "head_ok m u v hs \<longleftrightarrow>
     plain_text m \<and> plain_text u \<and> plain_text v
     \<and> CHR '' '' \<notin> set m \<and> CHR '' '' \<notin> set u \<and> u \<noteq> []
     \<and> (\<forall>(k, x) \<in> set hs. plain_text k \<and> plain_text x \<and> CHR '':'' \<notin> set k)"

definition parsed_head :: "string \<Rightarrow> string \<Rightarrow> string \<Rightarrow> (string \<times> string) list \<Rightarrow> HttpRequest \<Rightarrow> HttpRequest" where
  "parsed_head m u v hs r = fold (\<lambda>(k, x). SetHeader k x) hs (SetVersion v (SetUrl u (SetMethod m r)))"

lemma find_crlf: "plain_text l \<Longrightarrow> str_find crlf (l @ crlf @ t) = Some (length l)"
  using str_find_skip [of crlf l "crlf @ t"] by (simp add: plain_text_def)

lemma find_crlf_crlf:
  assumes "\<forall>l \<in> set ls. plain_text l \<and> l \<noteq> []"
  shows "str_find (crlf @ crlf) (lines_text ls @ crlf @ t) =
     (if ls = [] then str_find (crlf @ crlf) (crlf @ t) else Some (length (lines_text ls) - 2))"
  using assms
proof (induction ls)
  case (Cons l ls)
  have skip: "str_find (crlf @ crlf) (l @ s) = map_option (\<lambda>i. i + length l) (str_find (crlf @ crlf) s)" for s
    using Cons.prems by (intro str_find_skip) (auto simp: plain_text_def crlf_def)
  show ?case
  proof (cases ls)
    case Nil
    then show ?thesis using skip [of "crlf @ crlf @ t"] str_find_here [of "crlf @ crlf" t] by simp
  next
    case (Cons l2 ls2)
    then obtain x l3 where l2: "l2 = x # l3" "x \<noteq> CHR 0x0D" using Cons.prems by (cases l2) (auto simp: plain_text_def)
    have "str_find (crlf @ crlf) (crlf @ lines_text ls @ crlf @ t) 
       = map_option (\<lambda>i. i + 2) (str_find (crlf @ crlf) (lines_text ls @ crlf @ t))"
      using l2 by (simp add: crlf_def Cons option.map_comp comp_def)
    moreover have "2 \<le> length (lines_text ls)" using Cons by simp
    ultimately show ?thesis
      using skip [of "crlf @ lines_text ls @ crlf @ t"] Cons.IH Cons.prems Cons by simp
  qed
qed simp

lemma ParseRequestLine_ok:
  assumes "CHR '' '' \<notin> set m" "CHR '' '' \<notin> set u" "u \<noteq> []"
  shows "ParseRequestLine (m @ '' '' @ u @ '' '' @ v) r = Inr (SetVersion v (SetUrl u (SetMethod m r)), True)"
proof -
  have 1: "str_find [CHR '' ''] (m @ '' '' @ u @ '' '' @ v) = Some (length m)"
    using str_find_char [OF assms(1), of "u @ '' '' @ v"] by simp
  have 2: "str_find_from [CHR '' ''] (m @ '' '' @ u @ '' '' @ v) (length m + 1) = Some (length m + 1 + length u)"
    using str_find_char [OF assms(2), of v] by (simp add: str_find_from_def)
  show ?thesis
    unfolding ParseRequestLine_def 1 2 option.case
    using assms(3) by (simp add: str_substr_def str_substr_from_def)
qed

lemma ParseRequestHeaders_loop_step:
  assumes "plain_text k" "plain_text x" "CHR '':'' \<notin> set k" "pos = length pre"
  shows "ParseRequestHeaders_loop (pre @ header_line (k, x) @ crlf @ t) pos r
       = ParseRequestHeaders_loop (pre @ header_line (k, x) @ crlf @ t) (pos + length (header_line (k, x)) + 2) (SetHeader k x r)"
proof -
  let ?l = "header_line (k, x)"
  have pl: "plain_text ?l" using assms by (auto simp: plain_text_def header_line_def)
  have 1: "str_find_from crlf (pre @ ?l @ crlf @ t) pos = Some (pos + length ?l)"
    using find_crlf [OF pl, of t] assms(4) by (simp add: str_find_from_def)
  have 2: "str_find [CHR '':''] ?l = Some (length k)"
    using str_find_char [OF assms(3), of "'' '' @ x"] by (simp add: header_line_def)
  have 3: "str_substr (pre @ ?l @ crlf @ t) pos (pos + length ?l - pos) = Inr ?l"
    "str_substr ?l 0 (length k) = Inr k" "str_substr_from ?l (length k + 2) = Inr x"
    by (simp_all add: str_substr_def str_substr_from_def assms(4)) (simp_all add: header_line_def)
  show ?thesis
    unfolding ParseRequestHeaders_loop.simps [of "pre @ ?l @ crlf @ t" pos r] 1 option.case 3 bindE_Inr 2 ..
qed

lemma ParseRequestHeaders_loop_ok:
  assumes "\<forall>(k, x) \<in> set hs. plain_text k \<and> plain_text x \<and> CHR '':'' \<notin> set k" "pos = length pre"
  shows "ParseRequestHeaders_loop (pre @ lines_text (map header_line hs)) pos r
       = Inr (fold (\<lambda>(k, x). SetHeader k x) hs r, True)"
  using assms
proof (induction hs arbitrary: pre pos r)
  case Nil
  then show ?case by (simp add: ParseRequestHeaders_loop.simps str_find_from_def)
next
  case (Cons h hs)
  obtain k x where h: "h = (k, x)" by (cases h)
  have "ParseRequestHeaders_loop (pre @ lines_text (map header_line (h # hs))) pos r
      = ParseRequestHeaders_loop ((pre @ header_line (k, x) @ crlf) @ lines_text (map header_line hs)) (pos + length (header_line (k, x)) + 2) (SetHeader k x r)"
    using ParseRequestHeaders_loop_step [of k x pos pre "lines_text (map header_line hs)" r] Cons.prems by (simp add: h)
  also have "\<dots> = Inr (fold (\<lambda>(k, x). SetHeader k x) hs (SetHeader k x r), True)"
    using Cons.prems by (intro Cons.IH) auto
  finally show ?case by (simp add: h)
qed

lemma substr_after_crlf: "str_substr_from (l @ crlf @ t) (length l + 2) = Inr t"
  by (simp add: str_substr_from_def)

lemma ParseHead_ok:
  assumes ok: "head_ok m u v hs" and b: "ctx_buffer c = request_head m u v hs @ rest"
    and he: "he + 4 = length (request_head m u v hs)"
  shows "ParseHead c he = Inr (c\<lparr>ctx_buffer := rest, ctx_request := parsed_head m u v hs (ctx_request c), complete_headers := True\<rparr>, True)"
proof -
  let ?l = "m @ '' '' @ u @ '' '' @ v"
  let ?header = "?l @ crlf @ lines_text (map header_line hs)"
  have pl: "plain_text ?l" using ok by (auto simp: head_ok_def plain_text_def)
  have hd: "str_substr (ctx_buffer c) 0 (he + 2) = Inr ?header"
  proof -
    have "he + 2 = length ?header" using he by (simp add: request_head_def)
    moreover have "ctx_buffer c = ?header @ crlf @ rest" by (simp add: b request_head_def)
    ultimately show ?thesis
      using str_substr_prefix [of "he + 2" ?header "crlf @ rest"] by (simp only: append_assoc)
  qed
  have cut: "str_erase0 (he + 4) (ctx_buffer c) = rest"
    unfolding he str_erase0_def b by simp
  have pos: "str_find crlf ?header = Some (length ?l)" "length ?l \<noteq> 0"
    using find_crlf [OF pl, of "lines_text (map header_line hs)"] by simp_all
  have sub: "str_substr ?header 0 (length ?l) = Inr ?l"
    "str_substr_from ?header (length ?l + 2) = Inr (lines_text (map header_line hs))"
    by (rule str_substr_prefix, rule refl) (rule substr_after_crlf)
  have pl: "ParseRequestLine ?l (ctx_request c) = Inr (SetVersion v (SetUrl u (SetMethod m (ctx_request c))), True)"
    using ok by (intro ParseRequestLine_ok) (auto simp: head_ok_def)
  have ph: "ParseRequestHeaders (lines_text (map header_line hs)) r = Inr (fold (\<lambda>(k, x). SetHeader k x) hs r, True)" for r
    using ParseRequestHeaders_loop_ok [of hs 0 "[]" r] ok by (simp add: ParseRequestHeaders_def head_ok_def)
  show ?thesis
    unfolding ParseHead_def hd bindE_Inr Let_def cut pos(1) option.case if_not_P [OF pos(2)] sub
    using pl by (simp add: ph parsed_head_def)
qed

lemma find_head_end:
  assumes "head_ok m u v hs"
  shows "str_find (crlf @ crlf) (request_head m u v hs @ rest) = Some (length (request_head m u v hs) - 4)"
proof -
  let ?ls = "(m @ '' '' @ u @ '' '' @ v) # map header_line hs"
  have e: "request_head m u v hs @ rest = lines_text ?ls @ crlf @ rest" by (simp add: request_head_def)
  have "\<forall>l \<in> set ?ls. plain_text l \<and> l \<noteq> []"
    using assms by (auto simp: head_ok_def plain_text_def header_line_def)
  from find_crlf_crlf [OF this, of rest] show ?thesis
    unfolding e by (simp add: request_head_def)
qed

lemma ParseRequest_head:
  assumes ok: "head_ok m u v hs" and c: "\<not> complete_headers c" "ctx_buffer c = []"
  shows "ParseRequest (request_head m u v hs @ rest) c
     = ParseBody (c\<lparr>ctx_buffer := rest, ctx_request := parsed_head m u v hs (ctx_request c), complete_headers := True\<rparr>)"
proof -
  let ?c = "c\<lparr>ctx_buffer := request_head m u v hs @ rest\<rparr>"
  have "4 \<le> length (request_head m u v hs)" by (simp add: request_head_def)
  then have "ParseHead ?c (length (request_head m u v hs) - 4) = Inr (c\<lparr>ctx_buffer := rest, ctx_request := parsed_head m u v hs (ctx_request c), complete_headers := True\<rparr>, True)"
    using ParseHead_ok [OF ok, of ?c rest] by simp
  then show ?thesis
    using c find_head_end [OF ok, of rest] by (simp add: ParseRequest_def)
qed

subsection \<open>Bodies\<close>

lemma fold_SetHeader:
  "rq_headers (fold (\<lambda>(k, x). SetHeader k x) hs r) = rq_headers r ++ map_of (rev hs)"
  "rq_method (fold (\<lambda>(k, x). SetHeader k x) hs r) = rq_method r"
  "rq_version (fold (\<lambda>(k, x). SetHeader k x) hs r) = rq_version r"
  "rq_url (fold (\<lambda>(k, x). SetHeader k x) hs r) = rq_url r"
  "rq_body (fold (\<lambda>(k, x). SetHeader k x) hs r) = rq_body r"
  by (induction hs arbitrary: r) (auto simp: map_add_def fun_eq_iff split: option.splits)

lemma parsed_head_fields:
  "rq_headers (parsed_head m u v hs r) = rq_headers r ++ map_of (rev hs)"
  "rq_url (parsed_head m u v hs r) = u"
  "rq_method (parsed_head m u v hs r) = rq_method (SetMethod m r)"
  "rq_version (parsed_head m u v hs r) = rq_version (SetVersion v r)"
  "rq_body (parsed_head m u v hs r) = rq_body r"
  by (simp_all add: parsed_head_def fold_SetHeader) (simp add: SetVersion_def)

lemma ParseBody_content_length:
  assumes "\<not> is_chunked (ctx_request c)" "\<not> until_close (ctx_request c)"
    and "rq_headers (ctx_request c) ''Content-Length'' = Some (to_string (length b))"
    and "int (length b) \<le> ULONG_MAX" and "ctx_buffer c = b @ rest"
    and "rq_body (ctx_request c) = []"
  shows "ParseBody c = Inr (c\<lparr>content_length := length b, ctx_request := SetBody b (ctx_request c),
       ctx_buffer := rest, complete_request := True\<rparr>, True)"
proof -
  have n: "stoul 10 (GetHeaderString (ctx_request c) ''Content-Length'') = Inr (length b)"
    using assms(3,4) stoul_num_str [of 10 "length b"] by (simp add: GetHeaderString_def to_string_def)
  have "b = [] \<Longrightarrow> SetBody b (ctx_request c) = ctx_request c"
    using assms(6) by (simp add: SetBody_def)
  then show ?thesis
    using ParseBody_cases(4) [OF assms(1,2) _ n] assms
    by (cases "b = []") (auto simp: HasHeader_def TakeBody_def str_erase0_def)
qed

definition chunk_text :: "string \<Rightarrow> string" where
  "chunk_text d = num_str 16 (length d) @ crlf @ d @ crlf"

definition chunked_text :: "string list \<Rightarrow> string" where
  "chunked_text ds = concat (map chunk_text ds) @ ''0'' @ crlf @ crlf"

lemma plain_num_str: "plain_text (num_str 16 n)"
  using num_str_chars(4) [of 16 _ n] by (auto simp: plain_text_def)

lemma ParseChunkedBody_chunk:
  assumes "ctx_buffer c = chunk_text d @ rest" "d \<noteq> []"
    and small: "int (length (chunk_text d)) < 18446744073709551616"
  shows "ParseChunkedBody c = ParseChunkedBody (c\<lparr>ctx_request := AddBody d (ctx_request c), ctx_buffer := rest\<rparr>)"
proof -
  let ?s = "num_str 16 (length d)"
  have b: "ctx_buffer c = ?s @ crlf @ d @ crlf @ rest" using assms(1) by (simp add: chunk_text_def)
  have 1: "str_find crlf (ctx_buffer c) = Some (length ?s)"
    unfolding b by (rule find_crlf [OF plain_num_str])
  have 2: "stoul 16 (take (length ?s) (ctx_buffer c)) = Inr (length d)"
    using small by (simp add: b stoul_num_str chunk_text_def ULONG_MAX_def)
  have 3: "int (length ?s) + 4 + int (length d) < 18446744073709551616"
    using small by (simp add: chunk_text_def)
  have 4: "length ?s + 4 + length d \<le> length (ctx_buffer c)" by (simp add: b)
  have t: "take (length d) (drop (length ?s + 2) (ctx_buffer c)) = d" "drop (length ?s + 4 + length d) (ctx_buffer c) = rest"
    by (simp_all add: b drop_Cons')
  show ?thesis using ParseChunkedBody_step [OF 1 2 3 4] assms(2) by (simp only: t) simp
qed

lemma ParseChunkedBody_last:
  assumes "ctx_buffer c = ''0'' @ crlf @ crlf @ rest"
  shows "ParseChunkedBody c = Inr (c\<lparr>complete_request := True, ctx_buffer := rest\<rparr>, True)"
proof -
  have 1: "str_find crlf (ctx_buffer c) = Some 1"
    using find_crlf [of "''0''" "crlf @ rest"] by (simp add: assms plain_text_def)
  have "digit_char 0 = CHR ''0''" by code_simp
  then have "num_str 16 0 = ''0''" by (simp add: num_str.simps)
  then have 2: "stoul 16 (take 1 (ctx_buffer c)) = Inr 0"
    using stoul_num_str [of 16 0] by (simp add: assms ULONG_MAX_def)
  show ?thesis using ParseChunkedBody_step [OF 1 2] by (simp add: assms crlf_def)
qed

lemma AddBody_Nil [simp]: "AddBody [] r = r"
  by (simp add: AddBody_def)

lemma ParseChunkedBody_all:
  assumes "ctx_buffer c = chunked_text ds @ rest"
    and "\<forall>d \<in> set ds. d \<noteq> [] \<and> int (length (chunk_text d)) < 18446744073709551616"
  shows "ParseChunkedBody c
     = Inr (c\<lparr>ctx_request := AddBody (concat ds) (ctx_request c), complete_request := True, ctx_buffer := rest\<rparr>, True)"
  using assms
proof (induction ds arbitrary: c)
  case Nil
  then show ?case using ParseChunkedBody_last [of c rest] by (simp add: chunked_text_def)
next
  case (Cons d ds)
  let ?c = "c\<lparr>ctx_request := AddBody d (ctx_request c), ctx_buffer := chunked_text ds @ rest\<rparr>"
  have "ParseChunkedBody c = ParseChunkedBody ?c"
    using Cons.prems by (intro ParseChunkedBody_chunk) (auto simp: chunked_text_def)
  with Cons.IH [of ?c] Cons.prems(2) show ?case by (simp add: AddBody_AddBody)
qed

section \<open>A verdict is final\<close>

text \<open>Once the parser has a verdict (a complete request, a malformed one, or an exception), text
  that arrives later only stays in its buffer; the exception is a body that extends to the end of
  the connection.\<close>

definition decided :: "(HttpContext \<times> bool) result \<Rightarrow> bool" where
  "decided res = (case res of Inl e \<Rightarrow> True | Inr (c, ok) \<Rightarrow> ok \<longrightarrow> complete_request c)"

definition later :: "string \<Rightarrow> (HttpContext \<times> bool) result \<Rightarrow> (HttpContext \<times> bool) result" where
  "later t = map_sum id (\<lambda>(c, ok). (with_more t c, ok))"

lemma later_simps [simp]:
  "later t (Inl e) = Inl e" "later t (Inr (c, ok)) = Inr (with_more t c, ok)"
  by (simp_all add: later_def)

lemma decided_simps [simp]:
  "decided (Inl e)" "decided (Inr (c, ok)) \<longleftrightarrow> (ok \<longrightarrow> complete_request c)"
  by (simp_all add: decided_def)

lemma ParseChunkedBody_later:
  assumes "decided (ParseChunkedBody c)" "\<not> complete_request c" "chunks_fit (ctx_buffer c)"
  shows "ParseChunkedBody (with_more t c) = later t (ParseChunkedBody c)"
  using assms
proof (induction c rule: ParseChunkedBody.induct)
  case (1 c)
  show ?case
  proof (cases "str_find crlf (ctx_buffer c)")
    case None
    with 1 show ?thesis by (simp add: ParseChunkedBody.simps [of c])
  next
    case (Some e)
    note le = str_find_Some_bound [OF Some]
    have Some': "str_find crlf (ctx_buffer (with_more t c)) = Some e"
      using Some by (simp add: str_find_append)
    have tk: "take e (ctx_buffer (with_more t c)) = take e (ctx_buffer c)" using le by simp
    show ?thesis
    proof (cases "stoul 16 (take e (ctx_buffer c))")
      case (Inl x)
      then show ?thesis
        using ParseChunkedBody_bad [OF Some Inl] ParseChunkedBody_bad [OF Some', unfolded tk, OF Inl] by simp
    next
      case (Inr n)
      have fit: "int e + 4 + int n < 18446744073709551616"
        using 1(4) Some Inr by (simp add: chunks_fit.simps [of "ctx_buffer c"])
      show ?thesis
      proof (cases "e + 4 + n \<le> length (ctx_buffer c)")
        case False
        with 1 ParseChunkedBody_wait [OF Some Inr fit] show ?thesis by simp
      next
        case True
        note st = ParseChunkedBody_step [OF Some Inr fit True]
        have True': "e + 4 + n \<le> length (ctx_buffer (with_more t c))" using True by simp
        note st' = ParseChunkedBody_step [OF Some' _ fit True', unfolded tk, OF Inr]
        show ?thesis
        proof (cases "n = 0")
          case True
          with st st' le \<open>e + 4 + n \<le> length (ctx_buffer c)\<close> show ?thesis by simp
        next
          case False
          let ?c = "c\<lparr>ctx_request := AddBody (take n (drop (e + 2) (ctx_buffer c))) (ctx_request c),
                  ctx_buffer := drop (e + 4 + n) (ctx_buffer c)\<rparr>"
          have sz: "size_t (int e + 2 + int n + 2) = e + 4 + n" "size_t (int n + 2) = n + 2"
            using fit by (auto simp: nat_eq_iff)
          have ih: "decided (ParseChunkedBody ?c) \<Longrightarrow> \<not> complete_request ?c \<Longrightarrow> chunks_fit (ctx_buffer ?c) \<Longrightarrow>
              ParseChunkedBody (with_more t ?c) = later t (ParseChunkedBody ?c)"
            using 1(1) [OF Some, of n "c\<lparr>ctx_buffer := str_erase0 (e + 2) (ctx_buffer c)\<rparr>" "take n (drop (e + 2) (ctx_buffer c))"] Inr sz True False le
            by (simp add: str_substr_def str_erase0_def add_ac Suc4)
          have "chunks_fit (ctx_buffer ?c)"
            using 1(4) Some Inr True False by (simp add: chunks_fit.simps [of "ctx_buffer c"])
          moreover have "ParseChunkedBody (with_more t c) = ParseChunkedBody (with_more t ?c)"
            using st' False True le by simp
          ultimately show ?thesis using ih 1(2,3) st False by simp
        qed
      qed
    qed
  qed
qed

text \<open>Between two calls the parser holds a declared length only for a message that has one.\<close>

definition ctx_inv :: "HttpContext \<Rightarrow> bool" where
  "ctx_inv c \<longleftrightarrow> \<not> complete_request c
     \<and> (content_length c = 0
        \<or> complete_headers c \<and> HasHeader (ctx_request c) ''Content-Length'')"

lemma ctx_inv_Reset [simp]: "ctx_inv (Reset c)"
  by (simp add: ctx_inv_def Reset_def)

lemma ctx_inv_ctor [simp]: "ctx_inv (HttpContext_ctor h)"
  by (simp add: ctx_inv_def HttpContext_ctor_def)

lemma ParseBody_later:
  assumes "decided (ParseBody c)" "\<not> complete_request c" "body_fits c"
    and "\<not> until_close (ctx_request c)"
    and "HasHeader (ctx_request c) ''Content-Length'' \<or> content_length c = 0"
  shows "ParseBody (with_more t c) = later t (ParseBody c)"
proof (cases "is_chunked (ctx_request c)")
  case True
  then show ?thesis
    using ParseChunkedBody_later [of c t] assms by (simp add: ParseBody_cases body_fits_def)
next
  case nc: False
  note uc = assms(4)
  show ?thesis
  proof (cases "HasHeader (ctx_request c) ''Content-Length''")
    case False
    with nc uc assms(5) show ?thesis
      by (simp add: ParseBody_cases(5) TakeBody_def)
  next
    case hl: True
    show ?thesis
    proof (cases "stoul 10 (GetHeaderString (ctx_request c) ''Content-Length'')")
      case (Inl x)
      with nc uc hl show ?thesis by (simp add: ParseBody_cases(3))
    next
      case (Inr n)
      note eq = ParseBody_cases(4) [of c, OF nc uc hl Inr]
      have "\<not> length (ctx_buffer c) < n" using eq assms(1,2) by (auto split: if_splits)
      with eq nc uc hl Inr show ?thesis by (simp add: ParseBody_cases(4) TakeBody_def str_erase0_def)
    qed
  qed
qed

lemma ParseHead_content_length:
  "ParseHead c he = Inr (c1, ok) \<Longrightarrow> content_length c1 = content_length c"
  unfolding ParseHead_def
  by (auto simp: result_simps Let_def split: option.splits if_splits prod.splits)

lemma ParseChunkedBody_frame:
  "ParseChunkedBody c = Inr (c1, ok) \<Longrightarrow>
     content_length c1 = content_length c \<and> complete_headers c1 = complete_headers c
     \<and> rq_headers (ctx_request c1) = rq_headers (ctx_request c)
     \<and> rq_version (ctx_request c1) = rq_version (ctx_request c)"
proof (induction c rule: ParseChunkedBody.induct)
  case (1 c)
  show ?case
  proof (cases "str_find crlf (ctx_buffer c)")
    case None
    with 1 show ?thesis by (simp add: ParseChunkedBody.simps [of c])
  next
    case (Some e)
    with 1(2) obtain n where n: "bindE (str_substr (ctx_buffer c) 0 e) (stoul 16) = Inr n"
      by (subst (asm) ParseChunkedBody.simps) (auto simp: result_simps)
    show ?thesis
    proof (cases "length (ctx_buffer c) < size_t (int e + 2 + int n + 2) \<or> n = 0")
      case True
      with 1(2) Some n show ?thesis
        by (auto simp: ParseChunkedBody.simps [of c] Let_def split: if_splits)
    next
      case False
      then have F: "\<not> length (ctx_buffer c) < size_t (int e + 2 + int n + 2)" "n \<noteq> 0" by auto
      show ?thesis
        using 1(1) [OF Some n F(1) refl F(2), of "take n (drop (e + 2) (ctx_buffer c))"] 1(2) Some n F
        by (simp add: ParseChunkedBody.simps [of c] Let_def str_substr_def str_erase0_def split: if_splits)
    qed
  qed
qed

lemma ParseBody_frame:
  assumes "ParseBody c = Inr (c1, ok)"
  shows "complete_headers c1 = complete_headers c
     \<and> rq_headers (ctx_request c1) = rq_headers (ctx_request c)
     \<and> rq_version (ctx_request c1) = rq_version (ctx_request c)
     \<and> (content_length c1 = content_length c \<or> HasHeader (ctx_request c) ''Content-Length'' \<or> complete_request c1)"
proof (cases "is_chunked (ctx_request c)")
  case True
  with assms show ?thesis using ParseChunkedBody_frame [of c c1 ok] by (simp add: ParseBody_cases)
next
  case False
  have tb: "TakeBody x = Inr (c1, ok) \<Longrightarrow> complete_request c1 \<and> complete_headers c1 = complete_headers x
     \<and> rq_headers (ctx_request c1) = rq_headers (ctx_request x)
     \<and> rq_version (ctx_request c1) = rq_version (ctx_request x)" for x
    by (auto simp: TakeBody_def Let_def split: if_splits)
  show ?thesis
  proof (cases "until_close (ctx_request c)")
    case True
    with False assms show ?thesis by (auto simp: ParseBody_cases dest: tb)
  next
    case uc: False
    show ?thesis
    proof (cases "HasHeader (ctx_request c) ''Content-Length''")
      case True
      with False uc assms show ?thesis
        by (cases "stoul 10 (GetHeaderString (ctx_request c) ''Content-Length'')")
           (auto simp: ParseBody_cases split: if_splits dest: tb)
    next
      case no: False
      from assms tb [of c] show ?thesis by (simp add: ParseBody_cases(5) [OF False uc no])
    qed
  qed
qed

lemma until_close_cong:
  "rq_headers r = rq_headers q \<Longrightarrow> rq_version r = rq_version q \<Longrightarrow> until_close r = until_close q"
  by (simp add: until_close_def HasHeader_def GetHeaderString_def)

lemma ParseRequest_inv:
  assumes "ctx_inv c" "ParseRequest a c = Inr (c1, True)" "\<not> complete_request c1"
  shows "ctx_inv c1"
proof (cases "complete_headers c")
  case True
  then have b: "ParseBody (with_more a c) = Inr (c1, True)"
    using assms(2) by (simp add: ParseRequest_def)
  show ?thesis
    using ParseBody_frame [OF b] assms(1,3) True by (auto simp: ctx_inv_def HasHeader_def)
next
  case False
  then have c0: "content_length c = 0" using assms(1) by (simp add: ctx_inv_def)
  show ?thesis
  proof (cases "str_find (crlf @ crlf) (ctx_buffer c @ a)")
    case None
    with False assms show ?thesis by (auto simp: ParseRequest_def ctx_inv_def)
  next
    case (Some he)
    then obtain h okh where h: "ParseHead (with_more a c) he = Inr (h, okh)"
      using assms(2) False by (cases "ParseHead (with_more a c) he") (auto simp: ParseRequest_def)
    with Some False assms(2) have b: "okh" "ParseBody h = Inr (c1, True)"
      by (auto simp: ParseRequest_def split: if_splits)
    show ?thesis
      using ParseBody_frame [OF b(2)] ParseHead_buffer [OF h] ParseHead_content_length [OF h] c0 b(1) assms(3)
      by (auto simp: ctx_inv_def HasHeader_def)
  qed
qed

lemma ParseRequest_later:
  assumes inv: "ctx_inv c" and d: "decided (ParseRequest a c)" and fit: "request_fits c a"
    and nu: "\<And>c2. ParseRequest a c = Inr (c2, True) \<Longrightarrow> \<not> until_close (ctx_request c2)"
  shows "ParseRequest (a @ t) c = later t (ParseRequest a c)"
proof (cases "complete_headers c")
  case True
  then have p: "ParseRequest s c = ParseBody (with_more s c)" for s
    by (simp add: ParseRequest_def)
  have "ParseBody (with_more t (with_more a c)) = later t (ParseBody (with_more a c))"
  proof (cases "until_close (ctx_request c) \<and> \<not> is_chunked (ctx_request c)")
    case True
    then have "\<exists>c2. ParseBody (with_more a c) = Inr (c2, True) \<and> until_close (ctx_request c2)"
      by (auto simp: ParseBody_cases TakeBody_def Let_def until_close_def HasHeader_def GetHeaderString_def)
    with nu p show ?thesis by auto
  next
    case False
    then show ?thesis
      using ParseBody_later [of "with_more a c" t] ParseChunkedBody_later [of "with_more a c" t] inv d fit True p
      by (cases "is_chunked (ctx_request c)") (auto simp: ctx_inv_def request_fits_def body_fits_def ParseBody_cases)
  qed
  then show ?thesis by (simp add: p)
next
  case False
  then have c0: "content_length c = 0" using inv by (simp add: ctx_inv_def)
  show ?thesis
  proof (cases "str_find (crlf @ crlf) (ctx_buffer c @ a)")
    case None
    with False d inv show ?thesis by (simp add: ParseRequest_def ctx_inv_def)
  next
    case (Some he)
    have le: "he + 4 \<le> length (ctx_buffer (with_more a c))"
      using str_find_Some_bound [OF Some] by simp
    have p: "ParseRequest (a @ s) c = bindE (ParseHead (with_more s (with_more a c)) he)
        (\<lambda>(c1, ok). if \<not> ok then Inr (c1, False) else ParseBody c1)" for s
      using False str_find_append [OF Some, of s] by (simp add: ParseRequest_def)
    show ?thesis
    proof (cases "ParseHead (with_more a c) he")
      case (Inl e)
      then show ?thesis using p [of t] p [of "[]"] ParseHead_more [OF le, of t] by simp
    next
      case (Inr hk)
      obtain h okh where hk: "hk = (h, okh)" by (cases hk)
      note h = Inr [unfolded hk]
      have p0: "ParseRequest a c = (if okh then ParseBody h else Inr (h, False))"
        using p [of "[]"] h by simp
      have pt: "ParseRequest (a @ t) c = (if okh then ParseBody (with_more t h) else Inr (with_more t h, False))"
        using p [of t] ParseHead_more [OF le, of t] h by simp
      show ?thesis
      proof (cases okh)
        case True
        note hb = ParseHead_buffer [OF h]
        have fit': "body_fits h"
          using fit False Some h \<open>okh\<close> by (simp add: request_fits_def)
        have nc: "\<not> complete_request h" using hb inv by (simp add: ctx_inv_def)
        have "ParseBody (with_more t h) = later t (ParseBody h)"
        proof (cases "until_close (ctx_request h) \<and> \<not> is_chunked (ctx_request h)")
          case True
          then have "\<exists>c2. ParseBody h = Inr (c2, True) \<and> until_close (ctx_request c2)"
            by (auto simp: ParseBody_cases TakeBody_def Let_def until_close_def HasHeader_def GetHeaderString_def)
          with nu p0 \<open>okh\<close> show ?thesis by auto
        next
          case F: False
          then show ?thesis
            using ParseBody_later [of h t] ParseChunkedBody_later [of h t] nc d fit' p0 \<open>okh\<close>
              ParseHead_content_length [OF h] c0
            by (cases "is_chunked (ctx_request h)") (auto simp: ParseBody_cases body_fits_def)
        qed
        with True p0 pt show ?thesis by simp
      next
        case False
        with p0 pt show ?thesis by simp
      qed
    qed
  qed
qed

lemma ParseRequest_same_close:
  assumes inv: "ctx_inv c" and a: "ParseRequest a c = Inr (c2, True)" "complete_request c2"
    and at: "ParseRequest (a @ t) c = Inr (c3, True)"
  shows "until_close (ctx_request c3) = until_close (ctx_request c2)"
proof (cases "complete_headers c")
  case True
  then have "ParseBody (with_more a c) = Inr (c2, True)" "ParseBody (with_more (a @ t) c) = Inr (c3, True)"
    using a at by (simp_all add: ParseRequest_def)
  then show ?thesis
    using ParseBody_frame [of "with_more a c" c2] ParseBody_frame [of "with_more (a @ t) c" c3]
    by (intro until_close_cong) simp_all
next
  case False
  obtain he where Some: "str_find (crlf @ crlf) (ctx_buffer c @ a) = Some he"
    using False a inv by (cases "str_find (crlf @ crlf) (ctx_buffer c @ a)") (auto simp: ParseRequest_def ctx_inv_def)
  have le: "he + 4 \<le> length (ctx_buffer (with_more a c))"
    using str_find_Some_bound [OF Some] by simp
  have p: "ParseRequest (a @ s) c = bindE (ParseHead (with_more s (with_more a c)) he)
      (\<lambda>(c1, ok). if \<not> ok then Inr (c1, False) else ParseBody c1)" for s
    using False str_find_append [OF Some, of s] by (simp add: ParseRequest_def)
  obtain h okh where h: "ParseHead (with_more a c) he = Inr (h, okh)"
    using p [of "[]"] a by (cases "ParseHead (with_more a c) he") auto
  have "ParseBody h = Inr (c2, True)" using p [of "[]"] a h by (simp split: if_splits)
  moreover have "ParseBody (with_more t h) = Inr (c3, True)"
    using p [of t] ParseHead_more [OF le, of t] at h by (simp split: if_splits)
  ultimately show ?thesis
    using ParseBody_frame [of h c2] ParseBody_frame [of "with_more t h" c3]
    by (intro until_close_cong) simp_all
qed

lemma feed_complete:
  assumes "ctx_inv c" and "frags \<noteq> []" "[] \<notin> set frags"
    and "ParseRequest (concat frags) c = Inr (c', True)" "complete_request c'" "ctx_buffer c' = []"
    and "\<not> until_close (ctx_request c')" "request_fits c (concat frags)"
  shows "feed frags c = Inr (c', True, [])"
  using assms
proof (induction frags arbitrary: c)
  case (Cons f fs)
  show ?case
  proof (cases "fs = []")
    case True
    with Cons.prems show ?thesis by (simp add: IsComplete_def)
  next
    case fs: False
    let ?t = "concat fs"
    have t: "?t \<noteq> []" using fs Cons.prems(3) by (cases fs) auto
    have full: "ParseRequest (f @ ?t) c = Inr (c', True)" using Cons.prems(4) by simp
    have fit: "request_fits c f"
      using Cons.prems(8) request_fits_append [of c f ?t] by simp
    have und: "\<not> decided (ParseRequest f c)"
    proof
      assume d: "decided (ParseRequest f c)"
      have "ParseRequest (f @ ?t) c = later ?t (ParseRequest f c)"
        using d fit by (rule ParseRequest_later [OF Cons.prems(1)])
           (use d ParseRequest_same_close [OF Cons.prems(1) _ _ full] Cons.prems(7) in auto)
      with full obtain c2 where "c' = with_more ?t c2"
        by (cases "ParseRequest f c") (auto simp: later_def)
      with Cons.prems(6) t show False by simp
    qed
    then obtain c1 where c1: "ParseRequest f c = Inr (c1, True)" "\<not> complete_request c1"
      by (auto simp: decided_def split: sum.splits)
    note sp = ParseRequest_split [OF c1 fit, of ?t]
    have "feed fs c1 = Inr (c', True, [])"
      using sp full Cons.prems(3,5-8) fs ParseRequest_inv [OF Cons.prems(1) c1] by (intro Cons.IH) auto
    with c1 fs show ?thesis by (simp add: IsComplete_def)
  qed
qed simp

section \<open>Properties\<close>

lemma Reset_is_fresh: "ctx_buffer c = [] \<Longrightarrow> Reset c = HttpContext_ctor False"
  by (simp add: Reset_def HttpContext_ctor_def)

lemma is_chunked_parsed_head:
  "is_chunked (parsed_head m u v hs HttpRequest_ctor) \<longleftrightarrow> map_of (rev hs) ''Transfer-Encoding'' = Some ''chunked''"
  by (auto simp: is_chunked_def HasHeader_def GetHeaderString_def parsed_head_fields HttpRequest_ctor_def split: option.splits)

lemma until_close_parsed_head:
  "until_close (parsed_head m u ''HTTP/1.1'' hs HttpRequest_ctor) \<longleftrightarrow> map_of (rev hs) ''Connection'' = Some ''close''"
  by (auto simp: until_close_def HasHeader_def GetHeaderString_def parsed_head_fields HttpRequest_ctor_def version_1_1 version_enum split: option.splits)

lemma request_fits_head:
  assumes "head_ok m u v hs"
  shows "request_fits (HttpContext_ctor False) (request_head m u v hs @ t)
     \<longleftrightarrow> (map_of (rev hs) ''Transfer-Encoding'' = Some ''chunked'' \<longrightarrow> chunks_fit t)"
proof -
  let ?c = "HttpContext_ctor False" and ?h = "request_head m u v hs"
  have "4 \<le> length ?h" by (simp add: request_head_def)
  then have "ParseHead (with_more (?h @ t) ?c) (length ?h - 4)
     = Inr (with_more (?h @ t) ?c\<lparr>ctx_buffer := t, ctx_request := parsed_head m u v hs HttpRequest_ctor, complete_headers := True\<rparr>, True)"
    using ParseHead_ok [OF assms, of "with_more (?h @ t) ?c" t "length ?h - 4"] by (simp add: HttpContext_ctor_def)
  then show ?thesis
    using find_head_end [OF assms, of t]
    by (simp add: request_fits_def HttpContext_ctor_def body_fits_def is_chunked_parsed_head)
qed

lemma parse_content_length_whole:
  assumes "head_ok m u ''HTTP/1.1'' hs" and "map_of (rev hs) ''Content-Length'' = Some (to_string (length b))"
    and "map_of (rev hs) ''Transfer-Encoding'' \<noteq> Some ''chunked''" and "map_of (rev hs) ''Connection'' \<noteq> Some ''close''"
    and "int (length b) \<le> ULONG_MAX"
  shows "ParseRequest (request_head m u ''HTTP/1.1'' hs @ b) (HttpContext_ctor False)
     = Inr (\<lparr>ctx_request = SetBody b (parsed_head m u ''HTTP/1.1'' hs HttpRequest_ctor), content_length = length b,
             complete_headers = True, complete_request = True, ctx_buffer = []\<rparr>, True)"
proof -
  let ?r = "parsed_head m u ''HTTP/1.1'' hs HttpRequest_ctor"
  let ?c = "\<lparr>ctx_request = ?r, content_length = 0, complete_headers = True, complete_request = False, ctx_buffer = b\<rparr>"
  have "ParseRequest (request_head m u ''HTTP/1.1'' hs @ b) (HttpContext_ctor False) = ParseBody ?c"
    using ParseRequest_head [OF assms(1), of "HttpContext_ctor False" b] by (simp add: HttpContext_ctor_def)
  also have "\<dots> = Inr (?c\<lparr>content_length := length b, ctx_request := SetBody b ?r, ctx_buffer := [], complete_request := True\<rparr>, True)"
    using ParseBody_content_length [of ?c b "[]"] assms
    by (simp add: is_chunked_parsed_head until_close_parsed_head parsed_head_fields) (simp add: HttpRequest_ctor_def)
  finally show ?thesis by simp
qed

lemma chunks_fit_chunked_text:
  assumes "\<forall>d \<in> set ds. d \<noteq> [] \<and> int (length (chunk_text d)) < 18446744073709551616"
  shows "chunks_fit (chunked_text ds)"
  using assms
proof (induction ds)
  case Nil
  have "str_find crlf (chunked_text []) = Some 1"
    using find_crlf [of "''0''" crlf] by (simp add: chunked_text_def plain_text_def)
  moreover have "stoul 16 (take 1 (chunked_text [])) = Inr 0"
    by (simp add: chunked_text_def) code_simp
  ultimately show ?case by (simp add: chunks_fit.simps [of "chunked_text []"])
next
  case (Cons d ds)
  let ?s = "num_str 16 (length d)"
  have b: "chunked_text (d # ds) = ?s @ crlf @ d @ crlf @ chunked_text ds" by (simp add: chunk_text_def chunked_text_def)
  have small: "int (length (chunk_text d)) < 18446744073709551616" using Cons.prems by simp
  have 1: "str_find crlf (chunked_text (d # ds)) = Some (length ?s)"
    unfolding b by (rule find_crlf [OF plain_num_str])
  have 2: "stoul 16 (take (length ?s) (chunked_text (d # ds))) = Inr (length d)"
    using small by (simp add: b stoul_num_str chunk_text_def ULONG_MAX_def)
  have 3: "int (length ?s) + 4 + int (length d) < 18446744073709551616"
    using small by (simp add: chunk_text_def)
  have 4: "drop (length ?s + 4 + length d) (chunked_text (d # ds)) = chunked_text ds"
    by (simp add: b drop_Cons')
  show ?case
    using Cons 3 by (simp add: chunks_fit.simps [of "chunked_text (d # ds)"] 1 2 4)
qed

lemma parse_chunked_whole:
  assumes "head_ok m u ''HTTP/1.1'' hs" 
    and "map_of (rev hs) ''Transfer-Encoding'' = Some ''chunked''"
    and "\<forall>d \<in> set ds. d \<noteq> [] \<and> int (length (chunk_text d)) < 18446744073709551616"
  shows "ParseRequest (request_head m u ''HTTP/1.1'' hs @ chunked_text ds) (HttpContext_ctor False)
     = Inr (\<lparr>ctx_request = SetBody (concat ds) (parsed_head m u ''HTTP/1.1'' hs HttpRequest_ctor), content_length = 0,
             complete_headers = True, complete_request = True, ctx_buffer = []\<rparr>, True)"
proof -
  let ?r = "parsed_head m u ''HTTP/1.1'' hs HttpRequest_ctor"
  let ?c = "\<lparr>ctx_request = ?r, content_length = 0, complete_headers = True, complete_request = False, ctx_buffer = chunked_text ds\<rparr>"
  have "ParseRequest (request_head m u ''HTTP/1.1'' hs @ chunked_text ds) (HttpContext_ctor False) = ParseBody ?c"
    using ParseRequest_head [OF assms(1), of "HttpContext_ctor False"] by (simp add: HttpContext_ctor_def)
  also have "\<dots> = ParseChunkedBody ?c"
    using assms(2) by (simp add: ParseBody_cases(1) is_chunked_parsed_head)
  also have "\<dots> = Inr (?c\<lparr>ctx_request := AddBody (concat ds) ?r, complete_request := True, ctx_buffer := []\<rparr>, True)"
    using ParseChunkedBody_all [of ?c ds "[]"] assms(3) by simp
  also have "AddBody (concat ds) ?r = SetBody (concat ds) ?r"
    using parsed_head_fields(5) [of m u "''HTTP/1.1''" hs HttpRequest_ctor]
    by (simp add: AddBody_def SetBody_def HttpRequest_ctor_def)
  finally show ?thesis by simp
qed

lemma cut_nonempty: "concat frags = s \<Longrightarrow> s \<noteq> [] \<Longrightarrow> frags \<noteq> []"
  by auto

lemma request_head_nonempty [simp]: "request_head m u v hs \<noteq> []"
  by (simp add: request_head_def)

text \<open>The parser after a request with a Content-Length body, fed in pieces\<close>

definition parsed_request :: "string \<Rightarrow> string \<Rightarrow> (string \<times> string) list \<Rightarrow> string \<Rightarrow> HttpContext" where
  "parsed_request m u hs b =
     \<lparr>ctx_request = SetBody b (parsed_head m u ''HTTP/1.1'' hs HttpRequest_ctor), content_length = length b,
      complete_headers = True, complete_request = True, ctx_buffer = []\<rparr>"

lemma parsed_request_fields:
  "IsComplete (parsed_request m u hs b)" "ctx_buffer (parsed_request m u hs b) = []"
  "rq_url (ctx_request (parsed_request m u hs b)) = u"
  "rq_method (ctx_request (parsed_request m u hs b)) = rq_method (SetMethod m HttpRequest_ctor)"
  "rq_version (ctx_request (parsed_request m u hs b)) = kHTTP_1_1"
  "rq_headers (ctx_request (parsed_request m u hs b)) = map_of (rev hs)"
  "rq_body (ctx_request (parsed_request m u hs b)) = b"
  by (simp_all add: parsed_request_def IsComplete_def parsed_head_fields version_1_1)
     (simp_all add: HttpRequest_ctor_def)

lemma feed_content_length:
  assumes "head_ok m u ''HTTP/1.1'' hs"
    and "map_of (rev hs) ''Content-Length'' = Some (to_string (length b))"
    and "map_of (rev hs) ''Transfer-Encoding'' \<noteq> Some ''chunked''"
    and "map_of (rev hs) ''Connection'' \<noteq> Some ''close''"
    and "int (length b) \<le> ULONG_MAX"
    and "concat frags = request_head m u ''HTTP/1.1'' hs @ b" and "[] \<notin> set frags"
  shows "feed frags (HttpContext_ctor False) = Inr (parsed_request m u hs b, True, [])"
proof -
  have "until_close (ctx_request (parsed_request m u hs b))
      = until_close (parsed_head m u ''HTTP/1.1'' hs HttpRequest_ctor)"
    by (rule until_close_cong) (simp_all add: parsed_request_def)
  then show ?thesis
    using parse_content_length_whole [OF assms(1-5)] request_fits_head [OF assms(1), of b] assms cut_nonempty [OF assms(6)]
    by (intro feed_complete) (simp_all add: until_close_parsed_head parsed_request_def)
qed

text \<open>C15: A request with a Content-Length body reaches the application intact however TCP cuts it:
  for every division of its text into non-empty pieces, feeding the pieces one by one to a fresh
  parser reports "incomplete" on each proper beginning and, on the last piece, a complete request
  with the method, URL, version, headers (the last of equal names wins) and body that were
  written, and nothing left in the parser's buffer.\<close>

theorem parse_content_length_any_cut:
  assumes "head_ok m u ''HTTP/1.1'' hs"
    and "map_of (rev hs) ''Content-Length'' = Some (to_string (length b))"
    and "map_of (rev hs) ''Transfer-Encoding'' \<noteq> Some ''chunked''"
    and "map_of (rev hs) ''Connection'' \<noteq> Some ''close''"
    and "int (length b) \<le> ULONG_MAX"
    and "concat frags = request_head m u ''HTTP/1.1'' hs @ b" and "[] \<notin> set frags"
  shows "\<exists>c. feed frags (HttpContext_ctor False) = Inr (c, True, []) \<and> IsComplete c
     \<and> ctx_buffer c = [] \<and> rq_url (ctx_request c) = u
     \<and> rq_method (ctx_request c) = rq_method (SetMethod m HttpRequest_ctor)
     \<and> rq_version (ctx_request c) = kHTTP_1_1
     \<and> rq_headers (ctx_request c) = map_of (rev hs) \<and> rq_body (ctx_request c) = b"
  using feed_content_length [OF assms] parsed_request_fields [of m u hs b] by blast

theorem parse_content_length_any_cut_witness:
  "\<exists>c. feed [''POST /t HTTP/1.1'' @ [CHR 0x0D], [CHR 0x0A] @ ''Content-Length: 5'' @ crlf @ crlf @ ''He'', ''llo'']
       (HttpContext_ctor False) = Inr (c, True, []) \<and> IsComplete c \<and> rq_body (ctx_request c) = ''Hello''"
proof -
  have 1: "head_ok ''POST'' ''/t'' ''HTTP/1.1'' [(''Content-Length'', ''5'')]" by code_simp
  have 2: "map_of (rev [(''Content-Length'', ''5'')]) ''Content-Length'' = Some (to_string (length ''Hello''))" by code_simp
  have 3: "concat [''POST /t HTTP/1.1'' @ [CHR 0x0D], [CHR 0x0A] @ ''Content-Length: 5'' @ crlf @ crlf @ ''He'', ''llo'']
     = request_head ''POST'' ''/t'' ''HTTP/1.1'' [(''Content-Length'', ''5'')] @ ''Hello''" by code_simp
  show ?thesis
    using parse_content_length_any_cut [OF 1 2 _ _ _ 3] by (auto simp: ULONG_MAX_def)
qed

text \<open>C16: A request whose body is sent in chunks is decoded to the concatenation of its chunks, again
  whatever the division of its text into pieces: the parser waits on every proper beginning and is
  complete exactly on the last piece, with an empty buffer.\<close>

theorem parse_chunked_any_cut:
  assumes "head_ok m u ''HTTP/1.1'' hs"
    and "map_of (rev hs) ''Transfer-Encoding'' = Some ''chunked''"
    and "map_of (rev hs) ''Connection'' \<noteq> Some ''close''"
    and "\<forall>d \<in> set ds. d \<noteq> [] \<and> int (length (chunk_text d)) < 18446744073709551616"
    and "concat frags = request_head m u ''HTTP/1.1'' hs @ chunked_text ds" and "[] \<notin> set frags"
  shows "\<exists>c. feed frags (HttpContext_ctor False) = Inr (c, True, []) \<and> IsComplete c
     \<and> ctx_buffer c = [] \<and> rq_url (ctx_request c) = u
     \<and> rq_method (ctx_request c) = rq_method (SetMethod m HttpRequest_ctor)
     \<and> rq_headers (ctx_request c) = map_of (rev hs) \<and> rq_body (ctx_request c) = concat ds"
proof -
  let ?c = "\<lparr>ctx_request = SetBody (concat ds) (parsed_head m u ''HTTP/1.1'' hs HttpRequest_ctor), content_length = 0,
             complete_headers = True, complete_request = True, ctx_buffer = []\<rparr>"
  have "until_close (ctx_request ?c) = until_close (parsed_head m u ''HTTP/1.1'' hs HttpRequest_ctor)"
    by (rule until_close_cong) simp_all
  then have "feed frags (HttpContext_ctor False) = Inr (?c, True, [])"
    using parse_chunked_whole [OF assms(1,2,4)] request_fits_head [OF assms(1), of "chunked_text ds"] 
       chunks_fit_chunked_text [OF assms(4)] assms cut_nonempty [OF assms(5)]
    by (intro feed_complete) (simp_all add: until_close_parsed_head)
  then show ?thesis
    by (simp add: IsComplete_def parsed_head_fields version_1_1) (simp add: HttpRequest_ctor_def)
qed

theorem parse_chunked_any_cut_witness:
  "\<exists>c. feed [''POST /t HTTP/1.1'' @ [CHR 0x0D], [CHR 0x0A] @ ''Transfer-Encoding: chunked'' @ crlf @ crlf @ ''3'' @ crlf @ ''He'', ''l'' @ crlf @ ''2'' @ crlf @ ''lo'' @ crlf @ ''0'' @ crlf @ crlf]
       (HttpContext_ctor False) = Inr (c, True, []) \<and> IsComplete c \<and> rq_body (ctx_request c) = ''Hello''"
proof -
  have 1: "head_ok ''POST'' ''/t'' ''HTTP/1.1'' [(''Transfer-Encoding'', ''chunked'')]" by code_simp
  have 2: "\<forall>d \<in> set [''Hel'', ''lo'']. d \<noteq> [] \<and> int (length (chunk_text d)) < 18446744073709551616" by code_simp
  have 3: "concat [''POST /t HTTP/1.1'' @ [CHR 0x0D], [CHR 0x0A] @ ''Transfer-Encoding: chunked'' @ crlf @ crlf @ ''3'' @ crlf @ ''He'', ''l'' @ crlf @ ''2'' @ crlf @ ''lo'' @ crlf @ ''0'' @ crlf @ crlf]
     = request_head ''POST'' ''/t'' ''HTTP/1.1'' [(''Transfer-Encoding'', ''chunked'')] @ chunked_text [''Hel'', ''lo'']" by code_simp
  show ?thesis
    using parse_chunked_any_cut [OF 1 _ _ 2 3] by auto
qed

lemma ParseRequestLine_total: "ParseRequestLine line r \<noteq> Inl e"
proof (cases "str_find [CHR '' ''] line")
  case None
  then show ?thesis by (simp add: ParseRequestLine_def)
next
  case (Some p)
  show ?thesis
  proof (cases "str_find_from [CHR '' ''] line (p + 1)")
    case None
    with Some show ?thesis by (simp add: ParseRequestLine_def)
  next
    case (Some q)
    then show ?thesis
      using \<open>str_find [CHR '' ''] line = Some p\<close> str_find_from_bounds [OF Some]
      by (simp add: ParseRequestLine_def str_substr_def str_substr_from_def Let_def)
  qed
qed

lemma stoul_error: "stoul b s = Inl e \<Longrightarrow> e \<in> {Invalid_argument, Out_of_range}"
  by (auto simp: stoul_def Let_def split: if_splits prod.splits)

lemma ParseRequestHeaders_loop_error:
  "ParseRequestHeaders_loop h pos r = Inl e \<Longrightarrow> e = Out_of_range"
proof (induction h pos r rule: ParseRequestHeaders_loop.induct)
  case (1 h pos r)
  show ?case
  proof (cases "str_find_from crlf h pos")
    case None
    with 1 show ?thesis by (simp add: ParseRequestHeaders_loop.simps [of h pos r])
  next
    case (Some q)
    show ?thesis
    proof (rule ccontr)
      assume ne: "e \<noteq> Out_of_range"
      with 1(2) Some obtain line where line: "str_substr h pos (q - pos) = Inr line"
        by (auto simp: ParseRequestHeaders_loop.simps [of h pos r] str_substr_def split: if_splits)
      with 1(2) Some obtain k where k: "str_find [CHR '':''] line = Some k"
        by (auto simp: ParseRequestHeaders_loop.simps [of h pos r] split: option.splits)
      with line Some 1(2) ne obtain x y where xy: "str_substr line 0 k = Inr x" "str_substr_from line (k + 2) = Inr y"
        by (auto simp: ParseRequestHeaders_loop.simps [of h pos r] str_substr_def str_substr_from_def split: if_splits)
      show False
        using 1(1) [OF Some line k xy] 1(2) Some line k xy ne by (simp add: ParseRequestHeaders_loop.simps [of h pos r])
    qed
  qed
qed

lemma ParseChunkedBody_error:
  "ParseChunkedBody c = Inl e \<Longrightarrow> e \<in> {Invalid_argument, Out_of_range}"
proof (induction c rule: ParseChunkedBody.induct)
  case (1 c)
  show ?case
  proof (cases "str_find crlf (ctx_buffer c)")
    case None
    with 1 show ?thesis by (simp add: ParseChunkedBody.simps [of c])
  next
    case (Some q)
    show ?thesis
    proof (cases "bindE (str_substr (ctx_buffer c) 0 q) (stoul 16)")
      case (Inl x)
      then have "x \<in> {Invalid_argument, Out_of_range}"
        using stoul_error [of 16] by (auto simp: result_simps str_substr_def split: if_splits)
      moreover have "x = e" using 1(2) Some Inl by (simp add: ParseChunkedBody.simps [of c])
      ultimately show ?thesis by simp
    next
      case (Inr n)
      show ?thesis
      proof (cases "length (ctx_buffer c) < size_t (int q + 2 + int n + 2) \<or> n = 0")
        case True
        with 1(2) Some Inr show ?thesis
          by (auto simp: ParseChunkedBody.simps [of c] Let_def split: if_splits)
      next
        case False
        then have F: "\<not> length (ctx_buffer c) < size_t (int q + 2 + int n + 2)" "n \<noteq> 0" by auto
        show ?thesis
          using 1(1) [OF Some Inr F(1) refl F(2), of "take n (drop (q + 2) (ctx_buffer c))"] 1(2) Some Inr F
          by (simp add: ParseChunkedBody.simps [of c] Let_def str_substr_def str_erase0_def split: if_splits)
      qed
    qed
  qed
qed

lemma ParseBody_error:
  assumes "ParseBody c = Inl e"
  shows "is_chunked (ctx_request c) \<and> e \<in> {Invalid_argument, Out_of_range}"
proof (rule ccontr)
  assume no: "\<not> ?thesis"
  then have nc: "\<not> is_chunked (ctx_request c)"
    using assms ParseChunkedBody_error [of c e] by (auto simp: ParseBody_cases)
  have tb: "TakeBody x \<noteq> Inl e" for x by (simp add: TakeBody_def Let_def)
  have uc: "\<not> until_close (ctx_request c)"
    using tb [of "c\<lparr>content_length := length (ctx_buffer c)\<rparr>"] assms ParseBody_cases(2) [OF nc] by fastforce
  have hl: "HasHeader (ctx_request c) ''Content-Length''"
    using tb [of c] assms ParseBody_cases(5) [OF nc uc] by fastforce
  show False
    using assms tb ParseBody_cases(3,4) [OF nc uc hl]
    by (cases "stoul 10 (GetHeaderString (ctx_request c) ''Content-Length'')") (auto split: if_splits)
qed

lemma ParseHead_error:
  assumes "he + 4 \<le> length (ctx_buffer c)" "ParseHead c he = Inl e"
  shows "e = Out_of_range"
proof (rule ccontr)
  assume ne: "e \<noteq> Out_of_range"
  define header where "header = take (he + 2) (ctx_buffer c)"
  have hd: "str_substr (ctx_buffer c) 0 (he + 2) = Inr header"
    by (simp add: str_substr_def header_def)
  obtain pos where pos: "str_find crlf header = Some pos" "pos \<noteq> 0"
    using assms(2) [unfolded ParseHead_def hd bindE_Inr Let_def]
    by (cases "str_find crlf header") (auto split: if_splits)
  have ple: "pos + 2 \<le> length header" using str_find_Some_bound [OF pos(1)] by simp
  have sub: "str_substr header 0 pos = Inr (take pos header)" 
    "str_substr_from header (pos + 2) = Inr (drop (pos + 2) header)"
    using ple by (simp_all add: str_substr_def str_substr_from_def)
  obtain r1 ok1 where l: "ParseRequestLine (take pos header) (ctx_request c) = Inr (r1, ok1)"
    using ParseRequestLine_total [of "take pos header" "ctx_request c"]
    by (cases "ParseRequestLine (take pos header) (ctx_request c)") auto
  have "ParseRequestHeaders (drop (pos + 2) header) r1 = Inl e"
    using assms(2) l unfolding ParseHead_def hd bindE_Inr Let_def pos(1) option.case if_not_P [OF pos(2)] sub
    by (cases "ParseRequestHeaders (drop (pos + 2) header) r1") (auto split: if_splits prod.splits)
  then show False using ne ParseRequestHeaders_loop_error by (simp add: ParseRequestHeaders_def)
qed

lemma ParseRequest_error:
  assumes "ParseRequest s c = Inl e"
  shows "e = Out_of_range \<or> e = Invalid_argument"
proof (cases "complete_headers c")
  case True
  then show ?thesis
    using assms ParseBody_error [of "with_more s c" e] by (simp add: ParseRequest_def) blast
next
  case False
  then obtain he where he: "str_find (crlf @ crlf) (ctx_buffer c @ s) = Some he"
    using assms by (cases "str_find (crlf @ crlf) (ctx_buffer c @ s)") (auto simp: ParseRequest_def)
  show ?thesis
  proof (cases "ParseHead (with_more s c) he")
    case (Inl x)
    then show ?thesis
      using False he assms str_find_Some_bound [OF he] ParseHead_error [of he "with_more s c" x]
      by (simp add: ParseRequest_def)
  next
    case (Inr hk)
    then show ?thesis
      using False he assms ParseBody_error [of "fst hk" e] by (cases hk) (auto simp: ParseRequest_def split: if_splits)
  qed
qed



lemma Reset_eq: "Reset c = HttpContext_ctor False\<lparr>ctx_buffer := ctx_buffer c\<rparr>"
  by (cases c) (simp add: Reset_def HttpContext_ctor_def)

lemma ParseRequest_kept:
  "ParseRequest s (HttpContext_ctor False\<lparr>ctx_buffer := u\<rparr>) = ParseRequest (u @ s) (HttpContext_ctor False)"
  by (simp add: ParseRequest_def HttpContext_ctor_def)

text \<open>C17: Requests sent back to back are not mixed up: if the parser completes a request on the text
  \<open>a\<close>, then on \<open>a\<close> followed by \<open>t\<close> it completes the same request and keeps exactly what it
  kept before followed by \<open>t\<close>; after \<open>Reset\<close> the kept text is parsed as the beginning of the next
  request. (The exception is a body that runs to the end of the connection.)\<close>

theorem parse_pipelined:
  assumes "ctx_inv c" and "ParseRequest a c = Inr (c1, True)" and "IsComplete c1"
    and "\<not> until_close (ctx_request c1)" and "request_fits c a"
  shows "ParseRequest (a @ t) c = Inr (c1\<lparr>ctx_buffer := ctx_buffer c1 @ t\<rparr>, True)
     \<and> ParseRequest s (Reset (c1\<lparr>ctx_buffer := ctx_buffer c1 @ t\<rparr>))
         = ParseRequest (ctx_buffer c1 @ t @ s) (HttpContext_ctor False)"
  using ParseRequest_later [OF assms(1), of a t] assms
  by (auto simp: IsComplete_def Reset_eq ParseRequest_kept)

theorem parse_pipelined_witness:
  "\<exists>c1. ParseRequest ((''GET /a HTTP/1.1'' @ crlf @ crlf) @ ''GET /b HTTP/1.1'' @ crlf @ crlf) (HttpContext_ctor False)
      = Inr (c1\<lparr>ctx_buffer := ctx_buffer c1 @ ''GET /b HTTP/1.1'' @ crlf @ crlf\<rparr>, True) \<and> IsComplete c1"
proof -
  let ?a = "''GET /a HTTP/1.1'' @ crlf @ crlf"
  have "case ParseRequest ?a (HttpContext_ctor False) of Inl _ \<Rightarrow> False
      | Inr (c, ok) \<Rightarrow> ok \<and> IsComplete c \<and> \<not> until_close (ctx_request c)" by code_simp
  then obtain c1 where c1: "ParseRequest ?a (HttpContext_ctor False) = Inr (c1, True)" "IsComplete c1" "\<not> until_close (ctx_request c1)"
    by (auto split: sum.splits)
  have "request_fits (HttpContext_ctor False) ?a" by code_simp
  from parse_pipelined [OF ctx_inv_ctor c1 this] c1(2) show ?thesis by blast
qed


text \<open>C18: Incremental parsing agrees with parsing at once. Whatever state the parser is in, if the pieces
  of a text are fed one by one and all of them are consumed, the parser ends in the state, and with
  the verdict (incomplete, complete or malformed), that one call on the whole text gives, as long as
  no announced chunk size is so large that the completeness test wraps.\<close>

theorem parse_pieces_as_whole:
  assumes "feed frags c = Inr (c', ok, [])" and "frags \<noteq> []" and "request_fits c (concat frags)"
  shows "ParseRequest (concat frags) c = Inr (c', ok)"
  using assms by (rule feed_concat)

theorem parse_pieces_as_whole_witness:
  "\<exists>c'. ParseRequest (concat [''GET /x HTTP/1.1'' @ crlf, ''A: b'' @ crlf @ crlf]) (HttpContext_ctor False)
        = Inr (c', True) \<and> IsComplete c' \<and> rq_url (ctx_request c') = ''/x''"
proof -
  let ?fs = "[''GET /x HTTP/1.1'' @ crlf, ''A: b'' @ crlf @ crlf]"
  have "case feed ?fs (HttpContext_ctor False) of Inl _ \<Rightarrow> False
      | Inr (c, ok, fs) \<Rightarrow> ok \<and> fs = [] \<and> IsComplete c \<and> rq_url (ctx_request c) = ''/x''" by code_simp
  then obtain c where c: "feed ?fs (HttpContext_ctor False) = Inr (c, True, [])"
    "IsComplete c" "rq_url (ctx_request c) = ''/x''"
    by (auto split: sum.splits)
  have "request_fits (HttpContext_ctor False) (concat ?fs)" by code_simp
  with parse_pieces_as_whole [OF c(1)] c(2,3) show ?thesis by auto
qed

text \<open>The lines \<open>ls\<close> of the header block in front of a bad one are read as headers.\<close>

lemma ParseRequestHeaders_loop_bad:
  assumes "\<forall>(k, x) \<in> set hs. plain_text k \<and> plain_text x \<and> CHR '':'' \<notin> set k" "pos = length pre"
  shows "ParseRequestHeaders_loop (pre @ lines_text (map header_line hs) @ t) pos r
       = ParseRequestHeaders_loop (pre @ lines_text (map header_line hs) @ t)
           (pos + length (lines_text (map header_line hs))) (fold (\<lambda>(k, x). SetHeader k x) hs r)"
  using assms
proof (induction hs arbitrary: pre pos r)
  case (Cons h hs)
  obtain k x where h: "h = (k, x)" by (cases h)
  let ?l = "header_line (k, x)"
  have "ParseRequestHeaders_loop (pre @ lines_text (map header_line (h # hs)) @ t) pos r
      = ParseRequestHeaders_loop ((pre @ ?l @ crlf) @ lines_text (map header_line hs) @ t) (pos + length ?l + 2) (SetHeader k x r)"
    using ParseRequestHeaders_loop_step [of k x pos pre "lines_text (map header_line hs) @ t" r] Cons.prems by (simp add: h)
  also have "\<dots> = ParseRequestHeaders_loop ((pre @ ?l @ crlf) @ lines_text (map header_line hs) @ t)
      (pos + length ?l + 2 + length (lines_text (map header_line hs))) (fold (\<lambda>(k, x). SetHeader k x) hs (SetHeader k x r))"
    using Cons.prems by (intro Cons.IH) auto
  finally show ?case by (simp add: h add_ac)
qed simp

lemma ParseRequestHeaders_line:
  assumes "\<forall>(k, x) \<in> set hs. plain_text k \<and> plain_text x \<and> CHR '':'' \<notin> set k" "plain_text l"
  shows "ParseRequestHeaders (lines_text (map header_line hs) @ l @ crlf @ t) r =
     (let r1 = fold (\<lambda>(k, x). SetHeader k x) hs r in
      case str_find [CHR '':''] l of
            None \<Rightarrow> Inr (r1, False)
          | Some colon \<Rightarrow>
              bindE (str_substr l 0 colon) (\<lambda>key.
              bindE (str_substr_from l (colon + 2)) (\<lambda>v.
              ParseRequestHeaders_loop (lines_text (map header_line hs) @ l @ crlf @ t)
                (length (lines_text (map header_line hs)) + length l + 2) (SetHeader key v r1))))"
proof -
  let ?p = "lines_text (map header_line hs)"
  have 1: "str_find_from crlf (?p @ l @ crlf @ t) (length ?p) = Some (length ?p + length l)"
    using find_crlf [OF assms(2), of t] by (simp add: str_find_from_def)
  have 2: "str_substr (?p @ l @ crlf @ t) (length ?p) (length ?p + length l - length ?p) = Inr l"
    by (simp add: str_substr_def)
  have "ParseRequestHeaders (?p @ l @ crlf @ t) r = ParseRequestHeaders_loop (?p @ l @ crlf @ t) (length ?p)
      (fold (\<lambda>(k, x). SetHeader k x) hs r)"
    using ParseRequestHeaders_loop_bad [of hs 0 "[]" "l @ crlf @ t" r] assms by (simp add: ParseRequestHeaders_def)
  also note ParseRequestHeaders_loop.simps [of "?p @ l @ crlf @ t" "length ?p"]
  finally show ?thesis by (simp only: 1 2 option.case bindE_Inr Let_def)
qed

lemma ParseRequest_lines:
  assumes c: "\<not> complete_headers c" "ctx_buffer c = []"
    and rl: "plain_text rl" "rl \<noteq> []" and ls: "\<forall>l \<in> set ls. plain_text l \<and> l \<noteq> []"
  shows "ParseRequest (rl @ crlf @ lines_text ls @ crlf @ t) c =
     bindE (ParseRequestLine rl (ctx_request c)) (\<lambda>(r1, ok1).
       if \<not> ok1 then Inr (c\<lparr>ctx_buffer := t, ctx_request := r1\<rparr>, False)
       else bindE (ParseRequestHeaders (lines_text ls) r1) (\<lambda>(r2, ok2).
         if \<not> ok2 then Inr (c\<lparr>ctx_buffer := t, ctx_request := r2\<rparr>, False)
         else ParseBody (c\<lparr>ctx_buffer := t, ctx_request := r2, complete_headers := True\<rparr>)))"
proof -
  let ?text = "rl @ crlf @ lines_text ls @ crlf @ t"
  let ?he = "length (lines_text (rl # ls)) - 2"
  let ?header = "rl @ crlf @ lines_text ls"
  have find: "str_find (crlf @ crlf) ?text = Some ?he"
    using find_crlf_crlf [of "rl # ls" t] rl ls by simp
  define d where "d = c\<lparr>ctx_buffer := ?text\<rparr>"
  have hd: "str_substr (ctx_buffer d) 0 (?he + 2) = Inr ?header"
    using str_substr_prefix [of "?he + 2" ?header "crlf @ t"] by (simp add: d_def)
  have cut: "str_erase0 (?he + 4) (ctx_buffer d) = t"
    by (simp add: str_erase0_def d_def)
  have dt: "d\<lparr>ctx_buffer := t\<rparr> = c\<lparr>ctx_buffer := t\<rparr>" by (simp add: d_def)
  have dr: "ctx_request d = ctx_request c" "ctx_request (c\<lparr>ctx_buffer := t\<rparr>) = ctx_request c"
    by (simp_all add: d_def)
  have pos: "str_find crlf ?header = Some (length rl)" "length rl \<noteq> 0"
    using find_crlf [OF rl(1), of "lines_text ls"] rl(2) by simp_all
  have sub: "str_substr ?header 0 (length rl) = Inr rl"
    "str_substr_from ?header (length rl + 2) = Inr (lines_text ls)"
    by (rule str_substr_prefix, rule refl) (rule substr_after_crlf)
  have "ParseHead d ?he =
     bindE (ParseRequestLine rl (ctx_request c)) (\<lambda>(r1, ok1).
       if \<not> ok1 then Inr (c\<lparr>ctx_buffer := t, ctx_request := r1\<rparr>, False)
       else bindE (ParseRequestHeaders (lines_text ls) r1) (\<lambda>(r2, ok2).
         if \<not> ok2 then Inr (c\<lparr>ctx_buffer := t, ctx_request := r2\<rparr>, False)
         else Inr (c\<lparr>ctx_buffer := t, ctx_request := r2, complete_headers := True\<rparr>, True)))"
    unfolding ParseHead_def hd bindE_Inr Let_def cut dt dr pos(1) option.case if_not_P [OF pos(2)] sub
    by simp
  then show ?thesis
    using c find unfolding ParseRequest_def d_def
    by (simp add: bindE_def split: sum.split prod.split)
qed

text \<open>C28: A header line that ends at its colon kills the server: whatever well-formed headers come before
  it and whatever lines follow, the parser throws \<open>std::out_of_range\<close>, because the value is taken
  from two characters past the colon, and nothing in the server catches the exception.\<close>

theorem empty_header_value_throws:
  assumes "head_ok m u v hs" and "plain_text k" and "CHR '':'' \<notin> set k"
    and "\<forall>l \<in> set ls. plain_text l \<and> l \<noteq> []"
  shows "ParseRequest ((m @ '' '' @ u @ '' '' @ v) @ crlf
           @ lines_text (map header_line hs @ (k @ '':'') # ls) @ crlf @ t) (HttpContext_ctor False)
       = Inl Out_of_range"
proof -
  let ?rl = "m @ '' '' @ u @ '' '' @ v"
  let ?ls = "map header_line hs @ (k @ '':'') # ls"
  have rl: "plain_text ?rl" "?rl \<noteq> []" using assms(1) by (auto simp: head_ok_def plain_text_def)
  have ls: "\<forall>l \<in> set ?ls. plain_text l \<and> l \<noteq> []"
    using assms by (auto simp: head_ok_def plain_text_def header_line_def)
  have line: "ParseRequestLine ?rl HttpRequest_ctor
      = Inr (SetVersion v (SetUrl u (SetMethod m HttpRequest_ctor)), True)"
    using assms(1) by (intro ParseRequestLine_ok) (auto simp: head_ok_def)
  have colon: "str_find [CHR '':''] (k @ '':'') = Some (length k)"
    using str_find_char [OF assms(3), of "[]"] .
  have "ParseRequestHeaders (lines_text ?ls) r = Inl Out_of_range" for r
  proof -
    have app: "lines_text (xs @ y # ys) = lines_text xs @ y @ crlf @ lines_text ys" for xs y ys
      by (induction xs) simp_all
    show ?thesis
      using ParseRequestHeaders_line [of hs "k @ '':''" "lines_text ls" r] assms(1,2)
      by (simp add: app colon head_ok_def plain_text_def)
         (simp add: str_substr_def str_substr_from_def)
  qed
  then show ?thesis
    using ParseRequest_lines [OF _ _ rl ls, of "HttpContext_ctor False" t] line
    by (simp add: HttpContext_ctor_def)
qed

theorem empty_header_value_throws_witness:
  "ParseRequest ((''GET'' @ '' '' @ ''/'' @ '' '' @ ''HTTP/1.1'') @ crlf
     @ lines_text (map header_line [(''Host'', ''x'')] @ (''Accept'' @ '':'') # []) @ crlf @ [])
     (HttpContext_ctor False) = Inl Out_of_range"
  by (rule empty_header_value_throws) code_simp+

text \<open>A header line without a colon is answered with a bad request: the parser returns the verdict
  "malformed" (and not an exception), with the text after the empty line left in its buffer.\<close>

lemma header_without_colon_malformed:
  assumes "head_ok m u v hs" and "plain_text k" "k \<noteq> []" and "CHR '':'' \<notin> set k"
    and "\<forall>l \<in> set ls. plain_text l \<and> l \<noteq> []"
  shows "\<exists>c. ParseRequest ((m @ '' '' @ u @ '' '' @ v) @ crlf
           @ lines_text (map header_line hs @ k # ls) @ crlf @ t) (HttpContext_ctor False)
       = Inr (c, False) \<and> ctx_buffer c = t \<and> \<not> IsComplete c \<and> \<not> complete_headers c"
proof -
  let ?rl = "m @ '' '' @ u @ '' '' @ v"
  let ?ls = "map header_line hs @ k # ls"
  have rl: "plain_text ?rl" "?rl \<noteq> []" using assms(1) by (auto simp: head_ok_def plain_text_def)
  have ls: "\<forall>l \<in> set ?ls. plain_text l \<and> l \<noteq> []"
    using assms by (auto simp: head_ok_def plain_text_def header_line_def)
  have line: "ParseRequestLine ?rl HttpRequest_ctor
      = Inr (SetVersion v (SetUrl u (SetMethod m HttpRequest_ctor)), True)"
    using assms(1) by (intro ParseRequestLine_ok) (auto simp: head_ok_def)
  have "\<exists>r'. ParseRequestHeaders (lines_text ?ls) r = Inr (r', False)" for r
  proof -
    have app: "lines_text (xs @ y # ys) = lines_text xs @ y @ crlf @ lines_text ys" for xs y ys
      by (induction xs) simp_all
    show ?thesis
      using ParseRequestHeaders_line [of hs k "lines_text ls" r] assms(1,2,4)
      by (simp add: app str_find_char_None [THEN iffD2] head_ok_def Let_def)
  qed
  then obtain r' where "ParseRequestHeaders (lines_text ?ls) (SetVersion v (SetUrl u (SetMethod m HttpRequest_ctor))) = Inr (r', False)"
    by blast
  then show ?thesis
    using ParseRequest_lines [OF _ _ rl ls, of "HttpContext_ctor False" t] line
    by (simp add: HttpContext_ctor_def IsComplete_def)
qed

lemma header_without_colon_malformed_witness:
  "\<exists>c. ParseRequest ((''GET'' @ '' '' @ ''/'' @ '' '' @ ''HTTP/1.1'') @ crlf
     @ lines_text (map header_line [(''Host'', ''x'')] @ ''junk'' # []) @ crlf @ ''rest'')
     (HttpContext_ctor False) = Inr (c, False) \<and> ctx_buffer c = ''rest'' \<and> \<not> IsComplete c \<and> \<not> complete_headers c"
  by (rule header_without_colon_malformed) code_simp+

text \<open>A request line with an unknown method or version is not refused: the enumerators for "invalid"
  are the numbers of \<open>kGET\<close> and \<open>kHTTP_1_0\<close>, so the request is served as a GET of HTTP/1.0 (whose
  body is whatever is in the buffer) and the parser reports it complete.\<close>

lemma unknown_method_served_as_get:
  assumes "head_ok m u v hs" and "m \<notin> {''POST'', ''HEAD'', ''PUT'', ''DELETE''}" and "v \<noteq> ''HTTP/1.1''"
    and "map_of (rev hs) ''Transfer-Encoding'' \<noteq> Some ''chunked''"
  shows "\<exists>c. ParseRequest (request_head m u v hs @ b) (HttpContext_ctor False) = Inr (c, True)
     \<and> IsComplete c \<and> rq_method (ctx_request c) = kGET \<and> GetMethodString (ctx_request c) = ''GET''
     \<and> rq_version (ctx_request c) = kHTTP_1_0 \<and> rq_body (ctx_request c) = b \<and> ctx_buffer c = []"
proof -
  let ?r = "parsed_head m u v hs HttpRequest_ctor"
  let ?c = "\<lparr>ctx_request = ?r, content_length = 0, complete_headers = True, complete_request = False, ctx_buffer = b\<rparr>"
  have v: "rq_version ?r = kHTTP_1_0" and m: "rq_method ?r = kGET"
    using assms(2,3) by (simp_all add: parsed_head_fields unknown_version_is_1_0 unknown_method_is_GET)
  have "ParseRequest (request_head m u v hs @ b) (HttpContext_ctor False) = ParseBody ?c"
    using ParseRequest_head [OF assms(1), of "HttpContext_ctor False" b] by (simp add: HttpContext_ctor_def)
  also have "\<dots> = TakeBody (?c\<lparr>content_length := length b\<rparr>)"
    using assms(4) v by (subst ParseBody_cases(2)) (simp_all add: is_chunked_parsed_head until_close_def)
  finally show ?thesis
    using v m by (simp add: TakeBody_def IsComplete_def GetMethodString_def str_erase0_def parsed_head_fields)
       (simp add: HttpRequest_ctor_def)
qed

lemma unknown_method_served_as_get_witness:
  "\<exists>c. ParseRequest (request_head ''BREW'' ''/pot'' ''HTCPCP/1.0'' [] @ ''x'') (HttpContext_ctor False) = Inr (c, True)
     \<and> IsComplete c \<and> rq_method (ctx_request c) = kGET"
proof -
  have "head_ok ''BREW'' ''/pot'' ''HTCPCP/1.0'' []" by code_simp
  from unknown_method_served_as_get [OF this, of "''x''"] show ?thesis by auto
qed

text \<open>C29: An absurd chunk size passes the completeness test: \<open>chunk_size_end + 2 + chunk_size + 2\<close> is
  computed modulo \<open>2 ^ 64\<close>, so a chunk announced as \<open>ffffffffffffffff\<close> is taken as present; everything
  buffered is added to the body and all of it but one byte stays in the buffer, to be read again as
  the next chunk size.\<close>

theorem chunk_size_wraps:
  assumes "ctx_buffer c = ''ffffffffffffffff'' @ crlf @ d" and "d \<noteq> []" and "str_find crlf (tl d) = None"
    and "int (length d) \<le> ULONG_MAX"
  shows "ParseChunkedBody c
      = Inr (c\<lparr>ctx_request := AddBody d (ctx_request c), ctx_buffer := tl d\<rparr>, True)"
proof -
  let ?F = "''ffffffffffffffff''"
  have len: "length d \<le> nat ULONG_MAX" using assms(4) by simp
  have find: "str_find crlf (ctx_buffer c) = Some 16"
    using find_crlf [of ?F d] assms(1) by (simp add: plain_text_def)
  have tk: "take 16 (ctx_buffer c) = ?F" by (simp add: assms(1))
  have num: "stoul 16 ?F = Inr (nat ULONG_MAX)" 
    by (simp add: stoul_def strip_sign_def isspace_def strip_0x_def digit_val_def digits_num_def ULONG_MAX_def Let_def)
  have sz: "size_t (int 16 + 2 + int (nat ULONG_MAX) + 2) = 19"
    "size_t (int (nat ULONG_MAX) + 2) = 1" by (simp_all add: size_t_def ULONG_MAX_def)
  have nz: "nat ULONG_MAX \<noteq> 0" "\<not> ULONG_MAX \<le> 0" by (simp_all add: ULONG_MAX_def)
  have sub: "str_substr (ctx_buffer c) 0 16 = Inr ?F" "str_erase0 (16 + 2) (ctx_buffer c) = d"
    "str_substr d 0 (nat ULONG_MAX) = Inr d" "str_erase0 (Suc 0) d = tl d"
    using len by (simp_all add: str_substr_def str_erase0_def assms(1) drop_Suc)
  have "\<not> length (ctx_buffer c) < 19" using assms(1,2) by (cases d) simp_all
  then show ?thesis
    using assms(3)
    unfolding ParseChunkedBody.simps [of c] find option.case sub num bindE_Inr sz if_False Let_def
    by (simp add: nz sub sz ParseChunkedBody.simps)
qed

theorem chunk_size_wraps_witness:
  "ParseChunkedBody ((HttpContext_ctor False)\<lparr>ctx_buffer := ''ffffffffffffffff'' @ crlf @ ''xyz''\<rparr>)
   = Inr ((HttpContext_ctor False)\<lparr>ctx_request := AddBody ''xyz'' HttpRequest_ctor, ctx_buffer := ''yz''\<rparr>, True)"
proof -
  have "str_find crlf (tl ''xyz'') = None" by code_simp
  then show ?thesis
    using chunk_size_wraps [of "(HttpContext_ctor False)\<lparr>ctx_buffer := ''ffffffffffffffff'' @ crlf @ ''xyz''\<rparr>" "''xyz''"]
    by (simp add: HttpContext_ctor_def ULONG_MAX_def)
qed

end
