(* ===== verification/HttpResponse.thy ===== *)
theory HttpResponse
  imports HttpContext "HOL-Library.Char_ord" "HOL-Library.List_Lexorder"
begin

text \<open>
  The response of \<open>http/HttpResponse.h\<close> and \<open>http/HttpResponse.cpp\<close> (class \<open>HttpResponse\<close>): its
  fields, setters and the text it is sent as. The headers are an \<open>unordered_map\<close>: the order in
  which it is iterated is a parameter, constrained only to list each entry once. The theory shows
  that the text reads back as the status, headers and body that were set, whatever the order.
\<close>

section \<open>The class\<close>

definition kUnknown :: int where "kUnknown = 1"
definition k100Continue :: int where "k100Continue = 100"
definition k200OK :: int where "k200OK = 200"
definition k201Created :: int where "k201Created = 201"
definition k206PartialContent :: int where "k206PartialContent = 206"
definition k301MovedPermanently :: int where "k301MovedPermanently = 301"
definition k302MovedTemporarily :: int where "k302MovedTemporarily = 302"
definition k400BadRequest :: int where "k400BadRequest = 400"
definition k403Forbidden :: int where "k403Forbidden = 403"
definition k404NotFound :: int where "k404NotFound = 404"
definition k409Conflict :: int where "k409Conflict = 409"
definition k500InternalServerError :: int where "k500InternalServerError = 500"

lemmas status_enum = kUnknown_def k100Continue_def k200OK_def k201Created_def k206PartialContent_def
  k301MovedPermanently_def k302MovedTemporarily_def k400BadRequest_def k403Forbidden_def
  k404NotFound_def k409Conflict_def k500InternalServerError_def

datatype HttpBodyType = HTML_TYPE | TEXT_TYPE | FILE_TYPE

record HttpResponse =
  close_connection :: bool
  rs_headers :: "string \<rightharpoonup> string"
  status_message :: string
  rs_body :: string
  status_code :: int
  rs_content_length :: int
  body_type :: HttpBodyType
  file_fd :: int

definition HttpResponse_ctor :: "bool \<Rightarrow> HttpResponse" where
  "HttpResponse_ctor on =
     \<lparr>close_connection = on, rs_headers = Map.empty, status_message = [], rs_body = [],
      status_code = kUnknown, rs_content_length = 0, body_type = HTML_TYPE, file_fd = - 1\<rparr>"

definition SetStatusCode :: "int \<Rightarrow> HttpResponse \<Rightarrow> HttpResponse" where
  "SetStatusCode code r = r\<lparr>status_code := code\<rparr>"

definition SetStatusMessage :: "string \<Rightarrow> HttpResponse \<Rightarrow> HttpResponse" where
  "SetStatusMessage m r = r\<lparr>status_message := m\<rparr>"

definition SetCloseConnection :: "bool \<Rightarrow> HttpResponse \<Rightarrow> HttpResponse" where
  "SetCloseConnection on r = r\<lparr>close_connection := on\<rparr>"

definition AddHeader :: "string \<Rightarrow> string \<Rightarrow> HttpResponse \<Rightarrow> HttpResponse" where
  "AddHeader k v r = r\<lparr>rs_headers := (rs_headers r)(k \<mapsto> v)\<rparr>"

definition SetContentType :: "string \<Rightarrow> HttpResponse \<Rightarrow> HttpResponse" where
  "SetContentType t r = AddHeader ''Content-Type'' t r"

text \<open>The argument is a \<open>size_t\<close>, the field an \<open>int\<close>.\<close>

definition SetContentLength :: "int \<Rightarrow> HttpResponse \<Rightarrow> HttpResponse" where
  "SetContentLength len r =
     (let n = size_t len
      in (AddHeader ''Content-Length'' (to_string n) r)\<lparr>rs_content_length := to_int32 (int n)\<rparr>)"

definition SetResponseBody :: "string \<Rightarrow> HttpResponse \<Rightarrow> HttpResponse" where
  "SetResponseBody b r = r\<lparr>rs_body := b\<rparr>"

definition SetFileFd :: "int \<Rightarrow> HttpResponse \<Rightarrow> HttpResponse" where
  "SetFileFd fd r = r\<lparr>file_fd := fd\<rparr>"

definition SetBodyType :: "HttpBodyType \<Rightarrow> HttpResponse \<Rightarrow> HttpResponse" where
  "SetBodyType t r = r\<lparr>body_type := t\<rparr>"

type_synonym iteration = "(string \<rightharpoonup> string) \<Rightarrow> (string \<times> string) list"

definition ResponseHeaderString :: "iteration \<Rightarrow> HttpResponse \<Rightarrow> string" where
  "ResponseHeaderString iter r =
     ''HTTP/1.1 '' @ to_string_int (status_code r) @ '' '' @ status_message r @ crlf
       @ (if close_connection r then ''Connection: close'' @ crlf else ''Connection: Keep-Alive'' @ crlf)
       @ concat (map (\<lambda>(k, v). k @ '': '' @ v @ crlf) (iter (rs_headers r)))
       @ ''Cache-Control: no-cache, no-store, must-revalidate'' @ crlf @ crlf"

definition message :: "iteration \<Rightarrow> HttpResponse \<Rightarrow> string" where
  "message iter r = ResponseHeaderString iter r @ rs_body r"

lemmas response_defs = SetStatusCode_def SetStatusMessage_def SetCloseConnection_def AddHeader_def
  SetContentType_def SetContentLength_def SetResponseBody_def SetFileFd_def SetBodyType_def

section \<open>Reading a response\<close>

text \<open>What iteration over the map does: it lists every entry once.\<close>

definition iterates :: "iteration \<Rightarrow> bool" where
  "iterates iter \<longleftrightarrow> (\<forall>m. finite (dom m) \<longrightarrow> distinct (map fst (iter m)) \<and> map_of (iter m) = m)"

text \<open>Status message and headers that are single lines\<close>

definition response_ok :: "HttpResponse \<Rightarrow> bool" where
  "response_ok r \<longleftrightarrow> plain_text (status_message r) \<and> finite (dom (rs_headers r))
     \<and> (\<forall>k v. rs_headers r k = Some v \<longrightarrow> plain_text k \<and> plain_text v \<and> CHR '':'' \<notin> set k)"

definition status_line :: "HttpResponse \<Rightarrow> string" where
  "status_line r = ''HTTP/1.1 '' @ to_string_int (status_code r) @ '' '' @ status_message r"

definition sent_headers :: "iteration \<Rightarrow> HttpResponse \<Rightarrow> (string \<times> string) list" where
  "sent_headers iter r =
     (''Connection'', if close_connection r then ''close'' else ''Keep-Alive'') # iter (rs_headers r)
       @ [(''Cache-Control'', ''no-cache, no-store, must-revalidate'')]"

text \<open>A client: it splits at the first empty line, takes the first line as the status and the others
  as headers.\<close>

definition client_read :: "string \<Rightarrow> (string \<times> (string \<rightharpoonup> string) \<times> string) option" where
  "client_read text =
     (case str_find (crlf @ crlf) text of
        None \<Rightarrow> None
      | Some e \<Rightarrow>
          (let head = take (e + 2) text in
           case str_find crlf head of
             None \<Rightarrow> None
           | Some p \<Rightarrow>
               (case ParseRequestHeaders (drop (p + 2) head) HttpRequest_ctor of
                  Inr (r, True) \<Rightarrow> Some (take p head, rq_headers r, drop (e + 4) text)
                | _ \<Rightarrow> None)))"

lemma concat_headers:
  "concat (map (\<lambda>(k, v). k @ '': '' @ v @ crlf) hs) = lines_text (map header_line hs)"
  by (induction hs) (auto simp: header_line_def)

lemma lines_text_append: "lines_text (ls @ ls') = lines_text ls @ lines_text ls'"
  by (induction ls) simp_all

lemma message_lines:
  "message iter r = lines_text (status_line r # map header_line (sent_headers iter r)) @ crlf @ rs_body r"
  unfolding message_def ResponseHeaderString_def concat_headers
  by (simp add: status_line_def sent_headers_def lines_text_append) (simp add: header_line_def)

lemma plain_to_string: "plain_text (to_string n)"
  using num_str_chars(4) [of 10 _ n] by (auto simp: plain_text_def to_string_def)

lemma plain_append [simp]: "plain_text (a @ b) \<longleftrightarrow> plain_text a \<and> plain_text b"
  by (auto simp: plain_text_def)

lemma plain_to_string_int: "plain_text (to_string_int i)"
  using plain_to_string by (auto simp: to_string_int_def plain_text_def)

lemma map_of_rev_distinct: "distinct (map fst xs) \<Longrightarrow> map_of (rev xs) = map_of xs"
  by (rule map_of_inject_set [THEN iffD2]) (simp_all add: rev_map [symmetric])

lemma client_read_lines:
  assumes "plain_text l" "l \<noteq> []"
    and "\<forall>(k, x) \<in> set hs. plain_text k \<and> plain_text x \<and> CHR '':'' \<notin> set k"
  shows "client_read (lines_text (l # map header_line hs) @ crlf @ b) = Some (l, map_of (rev hs), b)"
proof -
  let ?ls = "l # map header_line hs"
  have "\<forall>l \<in> set ?ls. plain_text l \<and> l \<noteq> []"
    using assms by (auto simp: header_line_def plain_text_def)
  then have find: "str_find (crlf @ crlf) (lines_text ?ls @ crlf @ b) = Some (length (lines_text ?ls) - 2)"
    using find_crlf_crlf [of ?ls b] by simp
  have len: "2 \<le> length (lines_text ?ls)" by simp
  then have head: "take (length (lines_text ?ls) - 2 + 2) (lines_text ?ls @ crlf @ b) = lines_text ?ls"
    and body: "drop (length (lines_text ?ls) - 2 + 4) (lines_text ?ls @ crlf @ b) = b"
    by (simp_all del: lines_text.simps)
  have pos: "str_find crlf (lines_text ?ls) = Some (length l)"
    using find_crlf [OF assms(1)] by simp
  have parts: "take (length l) (lines_text ?ls) = l"
    "drop (length l + 2) (lines_text ?ls) = lines_text (map header_line hs)" by simp_all
  have "ParseRequestHeaders (lines_text (map header_line hs)) HttpRequest_ctor
      = Inr (fold (\<lambda>(k, x). SetHeader k x) hs HttpRequest_ctor, True)"
    using ParseRequestHeaders_loop_ok [of hs 0 "[]" HttpRequest_ctor] assms(3)
    by (simp add: ParseRequestHeaders_def)
  then show ?thesis
    unfolding client_read_def find option.case head body Let_def pos parts
    by (simp add: fold_SetHeader HttpRequest_ctor_def)
qed

text \<open>One iteration order: by key\<close>

definition by_key :: iteration where
  "by_key m = map (\<lambda>k. (k, the (m k))) (sorted_list_of_set (dom m))"

lemma iterates_by_key: "iterates by_key"
proof -
  have "map_of (map (\<lambda>k. (k, the (m k))) (sorted_list_of_set (dom m))) k = m k" if "finite (dom m)" for m k
    using that by (cases "m k") (auto simp: map_of_map_restrict restrict_map_def)
  then show ?thesis by (auto simp: iterates_def by_key_def comp_def)
qed

section \<open>Properties of the response\<close>

lemma client_reads:
  assumes "response_ok r" and "iterates iter"
  shows "client_read (message iter r) = Some
     (''HTTP/1.1 '' @ to_string_int (status_code r) @ '' '' @ status_message r,
      ([''Connection'' \<mapsto> if close_connection r then ''close'' else ''Keep-Alive''] ++ rs_headers r)
        (''Cache-Control'' \<mapsto> ''no-cache, no-store, must-revalidate''),
      rs_body r)"
proof -
  have it: "distinct (map fst (iter (rs_headers r)))" "map_of (iter (rs_headers r)) = rs_headers r"
    using assms by (simp_all add: iterates_def response_ok_def)
  have "\<forall>(k, v) \<in> set (iter (rs_headers r)). rs_headers r k = Some v"
    using it by (metis (mono_tags, lifting) case_prodI2 map_of_eq_Some_iff)
  then have hs: "\<forall>(k, x) \<in> set (sent_headers iter r). plain_text k \<and> plain_text x \<and> CHR '':'' \<notin> set k"
    using assms(1) by (auto simp: sent_headers_def response_ok_def plain_text_def)
  have st: "plain_text (status_line r)" "status_line r \<noteq> []"
    using assms(1) plain_to_string_int [of "status_code r"]
    by (auto simp: status_line_def response_ok_def plain_text_def)
  have "map_of (rev (iter (rs_headers r))) = rs_headers r"
    using it map_of_rev_distinct by metis
  then have "map_of (rev (sent_headers iter r)) =
      ([''Connection'' \<mapsto> if close_connection r then ''close'' else ''Keep-Alive''] ++ rs_headers r)
        (''Cache-Control'' \<mapsto> ''no-cache, no-store, must-revalidate'')"
    by (simp add: sent_headers_def fun_eq_iff map_add_def)
  then show ?thesis
    unfolding message_lines client_read_lines [OF st hs] by (simp add: status_line_def)
qed

text \<open>C24: The text of a response reads back: in whatever order the headers are iterated, a client that
  splits it at the first empty line gets the status line, the body byte for byte, and exactly the
  headers that were set, with \<open>Connection\<close> added where it was not set and \<open>Cache-Control\<close> replaced by
  the fixed one.\<close>

theorem response_reads_back:
  assumes "response_ok r" and "iterates iter"
  shows "client_read (message iter r) = Some
     (''HTTP/1.1 '' @ to_string_int (status_code r) @ '' '' @ status_message r,
      ([''Connection'' \<mapsto> if close_connection r then ''close'' else ''Keep-Alive''] ++ rs_headers r)
        (''Cache-Control'' \<mapsto> ''no-cache, no-store, must-revalidate''),
      rs_body r)"
  using assms by (rule client_reads)

theorem response_reads_back_witness:
  "client_read (message by_key (SetResponseBody ''hi'' (AddHeader ''A'' ''b'' (SetStatusMessage ''OK''
       (SetStatusCode k200OK (HttpResponse_ctor False))))))
   = Some (''HTTP/1.1 '' @ to_string_int 200 @ '' OK'',
       [''Connection'' \<mapsto> ''Keep-Alive'', ''A'' \<mapsto> ''b'',
        ''Cache-Control'' \<mapsto> ''no-cache, no-store, must-revalidate''], ''hi'')"
proof -
  let ?r = "SetResponseBody ''hi'' (AddHeader ''A'' ''b'' (SetStatusMessage ''OK''
       (SetStatusCode k200OK (HttpResponse_ctor False))))"
  have "response_ok ?r"
    by (auto simp: response_ok_def response_defs HttpResponse_ctor_def plain_text_def)
  from response_reads_back [OF this iterates_by_key] show ?thesis
    by (simp add: response_defs HttpResponse_ctor_def k200OK_def)
qed

end
