(* ===== verification/FileServer.thy ===== *)
theory FileServer
  imports FileHandler HttpResponse
begin

text \<open>
  The file server of \<open>http/FileServer.h\<close> and \<open>http/FileServer.cpp\<close> (class \<open>FileServer\<close>): the request
  handlers, which read and change the file system and fill in the response. Logging is left out; the
  order in which a directory is listed, the paths that can be written and the text of a system error
  are parameters. An exception is uncaught here as in the code. The theory shows what each request
  does to the files and to the response, also where that is not what the page promises.
\<close>

section \<open>Handlers\<close>

record fs_env =
  root_path :: string
  can_write :: "string \<Rightarrow> bool"
  ListFiles :: "file_system \<Rightarrow> string \<Rightarrow> string list result"
  os_error :: string

text \<open>\<open>path.substr(path.find_last_of("/") + 1)\<close>: when there is no slash, the position is
  \<open>npos + 1\<close>, that is 0.\<close>

definition request_filename :: "string \<Rightarrow> string" where
  "request_filename path = (case str_find_last CHR ''/'' path of Some i \<Rightarrow> drop (i + 1) path | None \<Rightarrow> path)"

definition BuildDownloadResponse :: "fs_env \<Rightarrow> file_system \<Rightarrow> string \<Rightarrow> bool \<Rightarrow> HttpResponse \<Rightarrow> HttpResponse result" where
  "BuildDownloadResponse e fs filepath is_file r =
     (let r1 = SetContentType (getMimeType filepath) (SetStatusMessage ''OK'' (SetStatusCode k200OK r))
      in bindE (readFileBinary fs filepath) (\<lambda>body.
         bindE (getFileSize (os_error e) fs filepath) (\<lambda>sz.
         let r2 = SetContentLength (int sz) (SetResponseBody body r1);
             r3 = (if is_file
                   then AddHeader ''Content-Disposition'' (''attachment; filename='' @ GetFileName filepath) r2
                   else AddHeader ''Content-Disposition'' ''inline'' r2)
         in Inr (AddHeader ''Cache-Control'' ''no-cache'' r3))))"

definition BuildRangeDownloadResponse :: "fs_env \<Rightarrow> file_system \<Rightarrow> string \<Rightarrow> int \<Rightarrow> int \<Rightarrow> HttpResponse \<Rightarrow> HttpResponse result" where
  "BuildRangeDownloadResponse e fs filepath start end' r =
     (let r1 = SetContentType (getMimeType filepath)
                 (SetStatusMessage ''Partial Content'' (SetStatusCode k206PartialContent r))
      in bindE (bindE (int_expr (end' - start)) (\<lambda>d. int_expr (d + 1))) (\<lambda>len.
         bindE (readFileBinary_range fs filepath start end') (\<lambda>body.
         bindE (getFileSize (os_error e) fs filepath) (\<lambda>sz.
         Inr (AddHeader ''Content-Range''
               (''bytes '' @ to_string_int start @ ''-'' @ to_string_int end' @ ''/'' @ to_string sz)
               (AddHeader ''Cache-Control'' ''no-cache''
                 (SetResponseBody body (SetContentLength len r1))))))))"

text \<open>A position found, or \<open>npos\<close>\<close>

definition find_pos :: "string \<Rightarrow> string \<Rightarrow> int" where
  "find_pos pat s = (case str_find pat s of Some i \<Rightarrow> int i | None \<Rightarrow> ULONG_MAX)"

definition range_bounds :: "string \<Rightarrow> (int \<times> int) result" where
  "range_bounds rng =
     (let eq = find_pos ''='' rng; dash = find_pos ''-'' rng
      in bindE (bindE (str_substr rng (size_t (eq + 1)) (size_t (dash - eq - 1))) stoi) (\<lambda>start.
         bindE (bindE (str_substr_from rng (size_t (dash + 1))) stoi) (\<lambda>end'.
         Inr (start, end'))))"

definition HandleDownload :: "fs_env \<Rightarrow> HttpRequest \<Rightarrow> file_system \<Rightarrow> HttpResponse \<Rightarrow> HttpResponse result" where
  "HandleDownload e req fs r =
     (let filepath = root_path e @ request_filename (rq_url req)
      in if Exists fs filepath \<and> HasHeader req ''Range''
         then bindE (range_bounds (GetHeaderString req ''Range'')) (\<lambda>(start, end').
              BuildRangeDownloadResponse e fs filepath start end' r)
         else BuildDownloadResponse e fs filepath True r)"

definition HandleUpload :: "fs_env \<Rightarrow> HttpRequest \<Rightarrow> file_system \<Rightarrow> HttpResponse \<Rightarrow> (file_system \<times> HttpResponse) result" where
  "HandleUpload e req fs r =
     (let filepath = root_path e @ request_filename (rq_url req)
      in if Exists fs filepath
         then Inr (fs, SetStatusMessage ''Conflict'' (SetStatusCode k409Conflict r))
         else bindE (writeFileBinary (can_write e) filepath (rq_body req) fs) (\<lambda>fs1.
              Inr (fs1, SetStatusMessage ''Created'' (SetStatusCode k201Created r))))"

definition HandleDelete :: "fs_env \<Rightarrow> HttpRequest \<Rightarrow> file_system \<Rightarrow> HttpResponse \<Rightarrow> file_system \<times> HttpResponse" where
  "HandleDelete e req fs r =
     (let filename = request_filename (rq_url req); filepath = root_path e @ filename
      in if Exists fs filepath then (snd (deleteFile fs filename), r) else (fs, r))"

text \<open>The UTF-8 bytes of the two link labels\<close>

definition label_download :: string where
  "label_download = [CHR 0xE4, CHR 0xB8, CHR 0x8B, CHR 0xE8, CHR 0xBD, CHR 0xBD]"

definition label_delete :: string where
  "label_delete = [CHR 0xE5, CHR 0x88, CHR 0xA0, CHR 0xE9, CHR 0x99, CHR 0xA4]"

definition file_row :: "string \<Rightarrow> string" where
  "file_row filename =
     ''<tr><td>'' @ filename @ ''</td>'' @ ''<td>''
       @ ''<a href='' @ [CHR 0x22] @ ''/download/'' @ filename @ [CHR 0x22] @ ''>'' @ label_download @ ''</a>''
       @ ''<a href='' @ [CHR 0x22] @ ''/delete/'' @ filename @ [CHR 0x22] @ ''>'' @ label_delete @ ''</a>''
       @ ''</td></tr>'' @ [CHR 0x0A]"

definition BuildFileHtml :: "fs_env \<Rightarrow> file_system \<Rightarrow> string result" where
  "BuildFileHtml e fs =
     bindE (ListFiles e fs ''../files'') (\<lambda>filelist.
     let file = concat (map file_row filelist); tmp = ''<!--filelist-->''
     in bindE (readFileText fs ''../resources/fileserver.html'') (\<lambda>filehtml.
        str_replace filehtml (str_find tmp filehtml) (length tmp) file))"

definition HandleList :: "fs_env \<Rightarrow> file_system \<Rightarrow> HttpResponse \<Rightarrow> HttpResponse result" where
  "HandleList e fs r =
     bindE (BuildFileHtml e fs) (\<lambda>filehtml.
     Inr (SetResponseBody filehtml (AddHeader ''Content-Disposition'' ''inline''
           (SetContentLength (int (length filehtml)) (SetContentType ''text/html''
             (SetStatusMessage ''OK'' (SetStatusCode k200OK r)))))))"

definition AnalyzeRequest :: "fs_env \<Rightarrow> HttpRequest \<Rightarrow> file_system \<Rightarrow> HttpResponse \<Rightarrow> (file_system \<times> HttpResponse) result" where
  "AnalyzeRequest e req fs r =
     (let path = rq_url req; method = rq_method req
      in if path = ''/'' then bindE (HandleList e fs r) (\<lambda>r1. Inr (fs, r1))
         else if path = ''/favicon.ico'' then
           bindE (BuildDownloadResponse e fs ''../resources/cat.jpg'' False r) (\<lambda>r1. Inr (fs, r1))
         else if method = kGET then bindE (HandleDownload e req fs r) (\<lambda>r1. Inr (fs, r1))
         else if method = kPOST then HandleUpload e req fs r
         else if method = kDELETE then Inr (HandleDelete e req fs r)
         else Inr (fs, SetCloseConnection True (SetStatusMessage ''Not Found'' (SetStatusCode k404NotFound r))))"

section \<open>Lemmas\<close>

lemma request_filename_no_slash: "CHR ''/'' \<notin> set (request_filename path)"
  using GetFileName_no_slash [of path] by (simp add: request_filename_def GetFileName_def)

lemma response_setters [simp]:
  "status_code (SetStatusCode c r) = c" "status_code (SetStatusMessage m r) = status_code r"
  "status_code (SetCloseConnection b r) = status_code r" "status_code (AddHeader k v r) = status_code r"
  "status_code (SetContentType t r) = status_code r" "status_code (SetContentLength n r) = status_code r"
  "status_code (SetResponseBody s r) = status_code r"
  "rs_body (SetStatusCode c r) = rs_body r" "rs_body (SetStatusMessage m r) = rs_body r"
  "rs_body (SetCloseConnection b r) = rs_body r" "rs_body (AddHeader k v r) = rs_body r"
  "rs_body (SetContentType t r) = rs_body r" "rs_body (SetContentLength n r) = rs_body r"
  "rs_body (SetResponseBody s r) = s"
  "rs_headers (SetStatusCode c r) = rs_headers r" "rs_headers (SetStatusMessage m r) = rs_headers r"
  "rs_headers (SetCloseConnection b r) = rs_headers r"
  "rs_headers (AddHeader k v r) = (rs_headers r)(k \<mapsto> v)"
  "rs_headers (SetContentType t r) = (rs_headers r)(''Content-Type'' \<mapsto> t)"
  "rs_headers (SetContentLength n r) = (rs_headers r)(''Content-Length'' \<mapsto> to_string (size_t n))"
  "rs_headers (SetResponseBody s r) = rs_headers r"
  "close_connection (SetStatusCode c r) = close_connection r"
  "close_connection (SetStatusMessage m r) = close_connection r"
  "close_connection (SetCloseConnection b r) = b" "close_connection (AddHeader k v r) = close_connection r"
  "close_connection (SetContentType t r) = close_connection r"
  "close_connection (SetContentLength n r) = close_connection r"
  "close_connection (SetResponseBody s r) = close_connection r"
  by (simp_all add: response_defs Let_def)

lemma BuildDownloadResponse_ok:
  assumes "fs p = Some s"
  shows "\<exists>r'. BuildDownloadResponse e fs p is_file r = Inr r' \<and> status_code r' = 200 \<and> rs_body r' = s
     \<and> rs_headers r' ''Content-Length'' = Some (to_string (size_t (int (length s))))
     \<and> rs_headers r' ''Content-Type'' = Some (getMimeType p) \<and> close_connection r' = close_connection r"
  using assms
  by (simp add: BuildDownloadResponse_def readFileBinary_def getFileSize_def Let_def k200OK_def)

section \<open>Properties of the file server\<close>

lemma BuildDownloadResponse_missing:
  "fs p = None \<Longrightarrow> BuildDownloadResponse e fs p is_file r = Inl (open_failed p)"
  by (simp add: BuildDownloadResponse_def readFileBinary_def Let_def)

text \<open>A request that names a file: not one of the two special pages\<close>

definition names_file :: "HttpRequest \<Rightarrow> bool" where
  "names_file req \<longleftrightarrow> rq_url req \<noteq> ''/'' \<and> rq_url req \<noteq> ''/favicon.ico''"

lemma AnalyzeRequest_GET:
  assumes "names_file req" and "rq_method req = kGET"
  shows "AnalyzeRequest e req fs r = bindE (HandleDownload e req fs r) (\<lambda>r1. Inr (fs, r1))"
  using assms by (simp add: AnalyzeRequest_def names_file_def)

lemma AnalyzeRequest_POST:
  assumes "names_file req" and "rq_method req = kPOST"
  shows "AnalyzeRequest e req fs r = HandleUpload e req fs r"
  using assms by (simp add: AnalyzeRequest_def names_file_def method_enum)

lemma AnalyzeRequest_DELETE:
  assumes "names_file req" and "rq_method req = kDELETE"
  shows "AnalyzeRequest e req fs r = Inr (HandleDelete e req fs r)"
  using assms by (simp add: AnalyzeRequest_def names_file_def method_enum)

text \<open>A concrete server and requests\<close>

definition example_fs_env :: fs_env where
  "example_fs_env =
     \<lparr>root_path = ''../files/'', can_write = (\<lambda>_. True), ListFiles = (\<lambda>_ _. Inr [''../files/a'']), os_error = []\<rparr>"

definition example_request :: "int \<Rightarrow> string \<Rightarrow> string \<Rightarrow> HttpRequest" where
  "example_request m u b = HttpRequest_ctor\<lparr>rq_method := m, rq_url := u, rq_body := b\<rparr>"

lemma example_simps [simp]:
  "root_path example_fs_env = ''../files/''" "can_write example_fs_env p"
  "ListFiles example_fs_env fs d = Inr [''../files/a'']"
  "rq_method (example_request m u b) = m" "rq_url (example_request m u b) = u"
  "rq_body (example_request m u b) = b" "rq_headers (example_request m u b) = Map.empty"
  "names_file (example_request m u b) \<longleftrightarrow> u \<noteq> ''/'' \<and> u \<noteq> ''/favicon.ico''"
  by (simp_all add: example_fs_env_def example_request_def HttpRequest_ctor_def names_file_def)

lemma example_filename [simp]: "request_filename ''/a'' = ''a''" "request_filename ''/download/a'' = ''a''"
  by code_simp+

text \<open>What is uploaded under a new name is what is downloaded from it: the upload answers 201 and
  creates that file and no other, and a later download of any URL that ends in the same name answers
  200 with exactly the uploaded bytes, and their number as its Content-Length.\<close>

lemma upload_then_download:
  assumes "names_file up" "rq_method up = kPOST" and "names_file down" "rq_method down = kGET"
    and "request_filename (rq_url down) = request_filename (rq_url up)"
    and "\<not> HasHeader down ''Range''"
    and "can_write e (root_path e @ request_filename (rq_url up))"
    and "fs (root_path e @ request_filename (rq_url up)) = None"
    and "int (length (rq_body up)) \<le> ULONG_MAX"
  shows "\<exists>fs' ru rd. AnalyzeRequest e up fs r = Inr (fs', ru) \<and> status_code ru = 201
     \<and> fs' = fs(root_path e @ request_filename (rq_url up) \<mapsto> rq_body up)
     \<and> AnalyzeRequest e down fs' r' = Inr (fs', rd) \<and> status_code rd = 200 \<and> rs_body rd = rq_body up
     \<and> rs_headers rd ''Content-Length'' = Some (to_string (length (rq_body up)))"
proof -
  let ?p = "root_path e @ request_filename (rq_url up)"
  let ?fs = "fs(?p \<mapsto> rq_body up)"
  have "AnalyzeRequest e up fs r = Inr (?fs, SetStatusMessage ''Created'' (SetStatusCode k201Created r))"
    using assms by (simp add: AnalyzeRequest_POST HandleUpload_def Exists_def writeFileBinary_def Let_def)
  moreover obtain rd where "BuildDownloadResponse e ?fs ?p True r' = Inr rd" "status_code rd = 200"
      "rs_body rd = rq_body up" "rs_headers rd ''Content-Length'' = Some (to_string (length (rq_body up)))"
    using BuildDownloadResponse_ok [of ?fs ?p "rq_body up" e True r'] assms(9) by (auto simp: ULONG_MAX_def)
  moreover from this have "AnalyzeRequest e down ?fs r' = Inr (?fs, rd)"
    using assms by (simp add: AnalyzeRequest_GET HandleDownload_def Let_def)
  ultimately show ?thesis by (simp add: k201Created_def)
qed

lemma upload_then_download_witness:
  "\<exists>fs' ru rd. AnalyzeRequest example_fs_env (example_request kPOST ''/a'' ''xyz'') Map.empty (HttpResponse_ctor False)
       = Inr (fs', ru) \<and> status_code ru = 201
     \<and> AnalyzeRequest example_fs_env (example_request kGET ''/download/a'' []) fs' (HttpResponse_ctor False) = Inr (fs', rd)
     \<and> rs_body rd = ''xyz''"
  using upload_then_download [of "example_request kPOST ''/a'' ''xyz''" "example_request kGET ''/download/a'' []"
      example_fs_env Map.empty "HttpResponse_ctor False" "HttpResponse_ctor False"]
  by (auto simp: HasHeader_def ULONG_MAX_def)

text \<open>An upload never overwrites: if the name is taken, the answer is 409 and no file changes.\<close>

lemma upload_conflict:
  assumes "names_file req" "rq_method req = kPOST"
    and "Exists fs (root_path e @ request_filename (rq_url req))"
  shows "\<exists>r'. AnalyzeRequest e req fs r = Inr (fs, r') \<and> status_code r' = 409 \<and> rs_body r' = rs_body r"
  using assms by (simp add: AnalyzeRequest_POST HandleUpload_def Let_def k409Conflict_def)

lemma upload_conflict_witness:
  "\<exists>r'. AnalyzeRequest example_fs_env (example_request kPOST ''/a'' ''new'') [''../files/a'' \<mapsto> ''old''] (HttpResponse_ctor False)
       = Inr ([''../files/a'' \<mapsto> ''old''], r') \<and> status_code r' = 409"
  using upload_conflict [of "example_request kPOST ''/a'' ''new''" "[''../files/a'' \<mapsto> ''old'']"
      example_fs_env "HttpResponse_ctor False"]
  by (auto simp: Exists_def)

text \<open>A delete request does not delete the file it names. When the file is there, what is removed is
  the file of the same name in the working directory, if there is one; the named file stays, and the
  response keeps its initial status 1, which is no HTTP status.\<close>

lemma delete_removes_wrong_file:
  assumes "names_file req" "rq_method req = kDELETE" and "root_path e \<noteq> []"
    and "fs (root_path e @ request_filename (rq_url req)) = Some s"
  shows "\<exists>fs'. AnalyzeRequest e req fs (HttpResponse_ctor c) = Inr (fs', HttpResponse_ctor c)
     \<and> fs' (root_path e @ request_filename (rq_url req)) = Some s
     \<and> fs' (request_filename (rq_url req)) = None \<and> status_code (HttpResponse_ctor c) = 1"
  using assms
  by (simp add: AnalyzeRequest_DELETE HandleDelete_def Exists_def deleteFile_def Let_def
      HttpResponse_ctor_def kUnknown_def)

lemma delete_removes_wrong_file_witness:
  "\<exists>fs'. AnalyzeRequest example_fs_env (example_request kDELETE ''/a'' [])
        [''../files/a'' \<mapsto> ''x'', ''a'' \<mapsto> ''y''] (HttpResponse_ctor False) = Inr (fs', HttpResponse_ctor False)
     \<and> fs' ''../files/a'' = Some ''x'' \<and> fs' ''a'' = None"
  using delete_removes_wrong_file [of "example_request kDELETE ''/a'' []" example_fs_env
      "[''../files/a'' \<mapsto> ''x'', ''a'' \<mapsto> ''y'']" "''x''" False]
  by auto

text \<open>C30: The effects of any request on the file system are confined: a request that does not fail
  changes at most one path, which is either in the root directory itself, where an upload created it, or
  a plain name in the working directory that a delete removed; the name has no slash, so no URL
  reaches another directory by its slashes.\<close>

theorem requests_confined:
  assumes "AnalyzeRequest e req fs r = Inr (fs', r')"
  shows "\<exists>name. CHR ''/'' \<notin> set name
     \<and> (fs' = fs
        \<or> rq_method req = kPOST \<and> fs (root_path e @ name) = None
             \<and> fs' = fs(root_path e @ name \<mapsto> rq_body req)
        \<or> rq_method req = kDELETE \<and> fs' = fs(name := None))"
proof -
  let ?n = "request_filename (rq_url req)"
  have "fs' = fs
        \<or> rq_method req = kPOST \<and> fs (root_path e @ ?n) = None \<and> fs' = fs(root_path e @ ?n \<mapsto> rq_body req)
        \<or> rq_method req = kDELETE \<and> fs' = fs(?n := None)"
    using assms
    by (auto simp: AnalyzeRequest_def HandleUpload_def HandleDelete_def deleteFile_def Exists_def
        writeFileBinary_def Let_def bindE_def split: if_splits sum.splits)
  then show ?thesis using request_filename_no_slash by blast
qed

theorem requests_confined_witness:
  "\<exists>name. CHR ''/'' \<notin> set name
     \<and> [''../files/a'' \<mapsto> ''y''] = (Map.empty :: file_system)(''../files/'' @ name \<mapsto> ''y'')"
proof -
  have "AnalyzeRequest example_fs_env (example_request kPOST ''/a'' ''y'') Map.empty (HttpResponse_ctor False)
      = Inr ([''../files/a'' \<mapsto> ''y''], SetStatusMessage ''Created'' (SetStatusCode k201Created (HttpResponse_ctor False)))"
    by (subst AnalyzeRequest_POST)
       (simp_all add: HandleUpload_def Exists_def writeFileBinary_def)
  from requests_confined [OF this] show ?thesis
    by (auto simp: method_enum)
qed

text \<open>A range request announces one byte more than it sends: the Content-Length counts both ends of
  the range, the body leaves the last one out, so the client waits for a byte that never comes.\<close>

lemma range_body_one_short:
  assumes "names_file req" "rq_method req = kGET" and "rq_headers req ''Range'' = Some h"
    and "range_bounds h = Inr (a, b)" and "0 \<le> a" "a \<le> b" "b < INT_MAX"
    and "fs (root_path e @ request_filename (rq_url req)) = Some s"
  shows "\<exists>r'. AnalyzeRequest e req fs r = Inr (fs, r') \<and> status_code r' = 206
     \<and> int (length (rs_body r')) = b - a
     \<and> rs_headers r' ''Content-Length'' = Some (to_string (nat (b - a + 1)))
     \<and> (b \<le> int (length s) \<longrightarrow> rs_body r' = take (nat (b - a)) (drop (nat a) s))"
proof -
  let ?p = "root_path e @ request_filename (rq_url req)"
  define got where "got = take (nat (b - a)) (drop (nat a) s)"
  define body where "body = got @ replicate (nat (b - a) - length got) NUL"
  have "length got \<le> nat (b - a)" by (simp add: got_def)
  then have len: "int (length body) = b - a" using assms(6) by (simp add: body_def)
  have d: "int_expr (b - a) = Inr (b - a)" "int_expr (b - a + 1) = Inr (b - a + 1)"
    using assms(5-7) by simp_all
  then have rd: "readFileBinary_range fs ?p a b = Inr body"
    using assms(5,6,8) by (simp add: readFileBinary_range_def body_def got_def)
  have whole: "body = got" if "b \<le> int (length s)"
    using that assms(5,6) by (simp add: body_def got_def)
  have "size_t (b - a + 1) = nat (b - a + 1)" using assms(5-7) by simp
  moreover obtain r' where "BuildRangeDownloadResponse e fs ?p a b r = Inr r'" "status_code r' = 206"
      "rs_body r' = body" "rs_headers r' ''Content-Length'' = Some (to_string (size_t (b - a + 1)))"
    unfolding BuildRangeDownloadResponse_def d bindE_Inr rd getFileSize_def assms(8) option.case Let_def
    by (simp add: k206PartialContent_def)
  moreover from this have "AnalyzeRequest e req fs r = Inr (fs, r')"
    using assms(1-4,8) by (simp add: AnalyzeRequest_GET HandleDownload_def HasHeader_def GetHeaderString_def Exists_def Let_def)
  ultimately show ?thesis using len whole by (auto simp: got_def)
qed

lemma range_body_one_short_witness:
  "\<exists>r'. AnalyzeRequest example_fs_env ((example_request kGET ''/a'' [])\<lparr>rq_headers := [''Range'' \<mapsto> ''bytes=1-3'']\<rparr>)
        [''../files/a'' \<mapsto> ''abcdef''] (HttpResponse_ctor False) = Inr ([''../files/a'' \<mapsto> ''abcdef''], r')
     \<and> rs_body r' = ''bc'' \<and> rs_headers r' ''Content-Length'' = Some ''3''"
proof -
  let ?req = "(example_request kGET ''/a'' [])\<lparr>rq_headers := [''Range'' \<mapsto> ''bytes=1-3'']\<rparr>"
  have b: "range_bounds ''bytes=1-3'' = Inr (1, 3)" by code_simp
  have n: "to_string 3 = ''3''" by code_simp
  have "names_file ?req" by (simp add: names_file_def)
  from range_body_one_short [OF this _ _ b, where e = example_fs_env
      and fs = "[''../files/a'' \<mapsto> ''abcdef'']" and s = "''abcdef''" and r = "HttpResponse_ctor False"] n
  show ?thesis by (auto simp: eval_nat_numeral)
qed

text \<open>A download of a file that is not there is not answered 404: the handler throws, and the
  exception leaves the server.\<close>

lemma download_missing_throws:
  assumes "names_file req" "rq_method req = kGET"
    and "fs (root_path e @ request_filename (rq_url req)) = None"
  shows "AnalyzeRequest e req fs r
     = Inl (Runtime_error (''Failed to open file: '' @ root_path e @ request_filename (rq_url req)))"
  using assms
  by (simp add: AnalyzeRequest_GET HandleDownload_def Exists_def Let_def BuildDownloadResponse_missing
      open_failed_def)

lemma download_missing_throws_witness:
  "AnalyzeRequest example_fs_env (example_request kGET ''/a'' []) Map.empty (HttpResponse_ctor False)
     = Inl (Runtime_error ''Failed to open file: ../files/a'')"
  using download_missing_throws [of "example_request kGET ''/a'' []" Map.empty example_fs_env "HttpResponse_ctor False"]
  by simp

text \<open>The list page has one row for each file, in the order of the listing, in the place of the
  placeholder, and nothing else of the page changes; its Content-Length is its length.\<close>

lemma list_page:
  assumes "rq_url req = ''/''" and "ListFiles e fs ''../files'' = Inr names"
    and "fs ''../resources/fileserver.html'' = Some (before @ ''<!--filelist-->'' @ after)"
    and "CHR ''<'' \<notin> set before"
    and "int (length before + length (concat (map file_row names)) + length after) \<le> ULONG_MAX"
  shows "\<exists>r'. AnalyzeRequest e req fs r = Inr (fs, r') \<and> status_code r' = 200
     \<and> rs_body r' = before @ concat (map file_row names) @ after
     \<and> rs_headers r' ''Content-Length'' = Some (to_string (length (rs_body r')))"
proof -
  let ?tmp = "''<!--filelist-->''"
  have "str_find ?tmp (before @ ?tmp @ after) = Some (length before)"
    using str_find_skip [of ?tmp before "?tmp @ after"] assms(4) by simp
  then have "str_replace (before @ ?tmp @ after) (str_find ?tmp (before @ ?tmp @ after)) (length ?tmp)
       (concat (map file_row names)) = Inr (before @ concat (map file_row names) @ after)"
    by (simp add: str_replace_def)
  then have "BuildFileHtml e fs = Inr (before @ concat (map file_row names) @ after)"
    using assms(2,3) unfolding BuildFileHtml_def readFileText_def by (simp add: Let_def)
  moreover have "size_t (int (length (before @ concat (map file_row names) @ after)))
      = length (before @ concat (map file_row names) @ after)"
    using assms(5) by (subst size_t_id) (simp_all add: ULONG_MAX_def)
  ultimately show ?thesis
    using assms(1) by (simp add: AnalyzeRequest_def HandleList_def k200OK_def del: of_nat_add length_append)
qed

lemma list_page_witness:
  "\<exists>r'. AnalyzeRequest example_fs_env (example_request kGET ''/'' [])
        [''../resources/fileserver.html'' \<mapsto> ''A<!--filelist-->B''] (HttpResponse_ctor False)
       = Inr ([''../resources/fileserver.html'' \<mapsto> ''A<!--filelist-->B''], r')
     \<and> rs_body r' = ''A'' @ file_row ''../files/a'' @ ''B''"
proof -
  have "int (length ''A'' + length (concat (map file_row [''../files/a''])) + length ''B'') \<le> ULONG_MAX"
    by code_simp
  then show ?thesis
    using list_page [of "example_request kGET ''/'' []" example_fs_env
        "[''../resources/fileserver.html'' \<mapsto> ''A<!--filelist-->B'']" "[''../files/a'']" "''A''" "''B''"
        "HttpResponse_ctor False"]
    by auto
qed

end
