(* ===== verification/Directories.thy ===== *)
theory Directories
  imports FileHandler "HOL-Library.AList"
begin

text \<open>
  The file system with its directories, and the functions of \<open>utils/FileHandler.cpp\<close> that see them: making and
  removing directories, removing and moving, listing, absolute paths. A node is a file or a directory
  with its entries in the order in which they are listed; there are no links, and nothing is refused for
  lack of rights. Paths are resolved name by name, as the system does it. The theory shows what each
  operation does to the whole tree, and that on plain paths the tree is the map from paths to contents that
  \<open>FileHandler\<close> and the file server work on.
\<close>

section \<open>The tree\<close>

datatype fs_node = File string | Dir "(string \<times> fs_node) list"

type_synonym location = "string list"

fun node_at :: "fs_node \<Rightarrow> location \<Rightarrow> fs_node option" where
  "node_at t [] = Some t"
| "node_at (File s) (n # l) = None"
| "node_at (Dir es) (n # l) = (case map_of es n of Some u \<Rightarrow> node_at u l | None \<Rightarrow> None)"

fun is_Dir :: "fs_node option \<Rightarrow> bool" where
  "is_Dir (Some (Dir es)) = True"
| "is_Dir _ = False"

text \<open>Puts a node at a location whose parent is a directory, or takes it away\<close>

fun set_node :: "location \<Rightarrow> fs_node option \<Rightarrow> fs_node \<Rightarrow> fs_node" where
  "set_node (n # l) v (Dir es) = Dir
     (if l = [] then (case v of Some u \<Rightarrow> AList.update n u es | None \<Rightarrow> AList.delete n es)
      else (case map_of es n of Some u \<Rightarrow> AList.update n (set_node l v u) es | None \<Rightarrow> es))"
| "set_node l v t = t"

text \<open>What there is at a location: nothing, a directory, or a file with its content\<close>

datatype kind = A_directory | A_file string

fun kind_of :: "fs_node \<Rightarrow> kind" where
  "kind_of (File s) = A_file s"
| "kind_of (Dir es) = A_directory"

definition look :: "fs_node \<Rightarrow> location \<Rightarrow> kind option" where
  "look t l = map_option kind_of (node_at t l)"

lemma is_Dir_cases: "is_Dir x \<longleftrightarrow> (\<exists>es. x = Some (Dir es))"
  by (cases x rule: is_Dir.cases) auto

lemma is_Dir_look: "is_Dir (node_at t l) \<longleftrightarrow> look t l = Some A_directory"
  by (cases "node_at t l" rule: is_Dir.cases) (auto simp: look_def)

lemma node_at_File: "node_at (File s) l = Some u \<longleftrightarrow> l = [] \<and> u = File s"
  by (cases l) auto

lemma node_at_append: "node_at t (l @ m) = (case node_at t l of Some u \<Rightarrow> node_at u m | None \<Rightarrow> None)"
  by (induction t l rule: node_at.induct) (auto split: option.splits)

lemma node_at_snoc:
  "node_at t (l @ [n]) = (case node_at t l of Some (Dir es) \<Rightarrow> map_of es n | _ \<Rightarrow> None)"
  unfolding node_at_append by (auto split: option.splits fs_node.splits)

lemma dir_above: "node_at t (l @ m) \<noteq> None \<Longrightarrow> m \<noteq> [] \<Longrightarrow> is_Dir (node_at t l)"
  unfolding node_at_append by (cases m) (auto split: option.splits simp: is_Dir_cases elim: node_at.elims)

lemma dir_prefix: "is_Dir (node_at t l) \<Longrightarrow> prefix x l \<Longrightarrow> is_Dir (node_at t x)"
  using dir_above [of t x] by (cases "x = l") (auto simp: is_Dir_cases elim!: prefixE)

lemma look_set:
  assumes "is_Dir (node_at t (butlast l))" "l \<noteq> []"
  shows "look (set_node l v t) m
     = (if prefix l m then (case v of Some u \<Rightarrow> look u (drop (length l) m) | None \<Rightarrow> None) else look t m)"
  using assms
proof (induction l v t arbitrary: m rule: set_node.induct)
  case (1 n l v es)
  show ?case
  proof (cases l)
    case Nil
    show ?thesis
    proof (cases m)
      case (Cons y ms)
      then show ?thesis using Nil
        by (auto simp: look_def update_conv' delete_conv' split: option.splits)
    qed (simp add: look_def Nil)
  next
    case (Cons n2 l2)
    then obtain u where u: "map_of es n = Some u" "is_Dir (node_at u (butlast l))"
      using "1.prems" by (auto split: option.splits)
    show ?thesis
    proof (cases m)
      case Nil
      then show ?thesis using Cons u by (simp add: look_def)
    next
      case m: (Cons y ms)
      have ih: "look (set_node l v u) ms
         = (if prefix l ms then (case v of Some u \<Rightarrow> look u (drop (length l) ms) | None \<Rightarrow> None) else look u ms)"
        using "1.IH" [OF _ u(1,2)] Cons by simp
      have a: "look (set_node (n # l) v (Dir es)) (y # ms) = (if y = n then look (set_node l v u) ms else look (Dir es) (y # ms))"
        using Cons u(1) by (simp add: look_def update_conv')
      have b: "look (Dir es) (n # ms) = look u ms" using u(1) by (simp add: look_def)
      show ?thesis unfolding m a using ih b by (cases v) auto
    qed
  qed
qed (auto simp: is_Dir_cases node_at_File)

lemma look_leaf:
  assumes "is_Dir (node_at t l)"
  shows "look (set_node (l @ [n]) (Some (File s)) t) x
       = (if x = l @ [n] then Some (A_file s) else if prefix (l @ [n]) x then None else look t x)"
    and "look (set_node (l @ [n]) (Some (Dir [])) t) x
       = (if x = l @ [n] then Some A_directory else if prefix (l @ [n]) x then None else look t x)"
    and "look (set_node (l @ [n]) None t) x = (if prefix (l @ [n]) x then None else look t x)"
proof -
  have leaf: "look (File s) y = (if y = [] then Some (A_file s) else None)" "look (Dir []) y = (if y = [] then Some A_directory else None)" for y
    by (cases y; simp add: look_def)+
  have d: "is_Dir (node_at t (butlast (l @ [n])))" using assms by simp
  have e: "x = l @ [n] \<longleftrightarrow> drop (length (l @ [n])) x = []" if "prefix (l @ [n]) x" using that by (auto elim!: prefixE)
  show "look (set_node (l @ [n]) (Some (File s)) t) x
       = (if x = l @ [n] then Some (A_file s) else if prefix (l @ [n]) x then None else look t x)"
    using look_set [OF d, of "Some (File s)" x] e by (cases "prefix (l @ [n]) x") (auto simp: leaf)
  show "look (set_node (l @ [n]) (Some (Dir [])) t) x
       = (if x = l @ [n] then Some A_directory else if prefix (l @ [n]) x then None else look t x)"
    using look_set [OF d, of "Some (Dir [])" x] e by (cases "prefix (l @ [n]) x") (auto simp: leaf)
  show "look (set_node (l @ [n]) None t) x = (if prefix (l @ [n]) x then None else look t x)"
    using look_set [OF d, of None x] by simp
qed

section \<open>Paths\<close>

text \<open>The names of a path: what stands between its slashes. An empty name, like a dot, stands for the directory it is
  looked up in (two slashes in a row, a slash at the end).\<close>

fun names :: "string \<Rightarrow> string list" where
  "names [] = [[]]"
| "names (c # s) = (if c = CHR ''/'' then [] # names s else (case names s of n # ns \<Rightarrow> (c # n) # ns | [] \<Rightarrow> [[c]]))"

datatype path_error = ENOENT | ENOTDIR

fun walk :: "fs_node \<Rightarrow> location \<Rightarrow> string list \<Rightarrow> path_error + location" where
  "walk t l [] = Inr l"
| "walk t l (n # ns) =
     (case node_at t l of
        None \<Rightarrow> Inl ENOENT
      | Some (File s) \<Rightarrow> Inl ENOTDIR
      | Some (Dir es) \<Rightarrow> walk t (if n = [] \<or> n = ''.'' then l else if n = ''..'' then butlast l else l @ [n]) ns)"

definition start_of :: "location \<Rightarrow> string \<Rightarrow> location" where
  "start_of cwd path = (if IsAbsolutePath path then [] else cwd)"

text \<open>The location of a path; its last name need not exist.\<close>

definition resolve :: "fs_node \<Rightarrow> location \<Rightarrow> string \<Rightarrow> path_error + location" where
  "resolve t cwd path = (if path = [] then Inl ENOENT else walk t (start_of cwd path) (names path))"

text \<open>A path whose last name is a dot or dot-dot, or that has none\<close>

definition dots_last :: "string \<Rightarrow> bool" where
  "dots_last path = (case rev (filter (\<lambda>n. n \<noteq> []) (names path)) of n # _ \<Rightarrow> n = ''.'' \<or> n = ''..'' | [] \<Rightarrow> True)"

section \<open>Operations\<close>

text \<open>\<open>what\<close> is the text of a system error.\<close>

definition Exists_path :: "fs_node \<Rightarrow> location \<Rightarrow> string \<Rightarrow> bool" where
  "Exists_path t cwd path = (case resolve t cwd path of Inr l \<Rightarrow> node_at t l \<noteq> None | Inl e \<Rightarrow> False)"

text \<open>\<open>PathUtils::CreateDirectory\<close>: \<open>fs::create_directories\<close> makes every directory on the path that is not there, and
  returns whether the one the path leads to was made. On a failure what was made before it stays.\<close>

fun create_dirs :: "location \<Rightarrow> string list \<Rightarrow> fs_node \<Rightarrow> location option \<times> fs_node" where
  "create_dirs l [] t = (Some l, t)"
| "create_dirs l (n # ns) t =
     (if n = [] \<or> n = ''.'' then create_dirs l ns t
      else if n = ''..'' then create_dirs (butlast l) ns t
      else case node_at t (l @ [n]) of
             Some (File s) \<Rightarrow> (None, t)
           | Some (Dir es) \<Rightarrow> create_dirs (l @ [n]) ns t
           | None \<Rightarrow> create_dirs (l @ [n]) ns (set_node (l @ [n]) (Some (Dir [])) t))"

definition CreateDirectory :: "string \<Rightarrow> location \<Rightarrow> string \<Rightarrow> fs_node \<Rightarrow> bool result \<times> fs_node" where
  "CreateDirectory what cwd path t =
     (let failed = Inl (Runtime_error (''Failed to create directory: '' @ what))
      in if path = [] \<or> \<not> is_Dir (node_at t (start_of cwd path)) then (failed, t)
         else case create_dirs (start_of cwd path) (names path) t of
                (Some l, t1) \<Rightarrow> (Inr (\<not> is_Dir (node_at t l)), t1)
              | (None, t1) \<Rightarrow> (failed, t1))"

text \<open>\<open>PathUtils::RemoveDirectory\<close>: \<open>remove_all\<close> removes what is there with everything below it and returns how
  much that was. (What is left of a directory given as a dot or dot-dot, which cannot be removed itself,
  is a parameter.)\<close>

definition RemoveDirectory ::
    "(location \<Rightarrow> fs_node \<Rightarrow> unit result \<times> fs_node) \<Rightarrow> location \<Rightarrow> string \<Rightarrow> fs_node \<Rightarrow> unit result \<times> fs_node" where
  "RemoveDirectory dots cwd path t =
     (let failed = (Inl (Runtime_error (''Failed to remove directory: '' @ path)), t)
      in case resolve t cwd path of
           Inl e \<Rightarrow> failed
         | Inr l \<Rightarrow>
             if node_at t l = None then failed
             else if dots_last path \<or> l = [] then dots l t
             else (Inr (), set_node l None t))"

text \<open>\<open>FileHandler::deleteFile\<close>: \<open>fs::remove\<close> removes a file or an empty directory; it is no failure when there is
  nothing.\<close>

definition deleteFile_path :: "string \<Rightarrow> location \<Rightarrow> string \<Rightarrow> fs_node \<Rightarrow> (bool \<times> fs_node) result" where
  "deleteFile_path what cwd path t =
     (let failed = Inl (Runtime_error (''Failed to remove file: '' @ what))
      in case resolve t cwd path of
           Inl ENOENT \<Rightarrow> Inr (False, t)
         | Inl ENOTDIR \<Rightarrow> failed
         | Inr l \<Rightarrow>
             (case node_at t l of
                None \<Rightarrow> Inr (False, t)
              | Some (File s) \<Rightarrow> Inr (True, set_node l None t)
              | Some (Dir es) \<Rightarrow> if dots_last path \<or> l = [] \<or> es \<noteq> [] then failed else Inr (True, set_node l None t)))"

text \<open>\<open>FileHandler::moveFile\<close>: \<open>rename\<close> replaces a file by a file and an empty directory by a directory, and
  does not move a directory below itself.\<close>

definition rename_target :: "location \<Rightarrow> fs_node \<Rightarrow> string \<Rightarrow> fs_node \<Rightarrow> path_error + location" where
  "rename_target cwd u to t =
     (if to = [] then Inl ENOENT
      else walk t (start_of cwd to) (if is_Dir (Some u) then rev (dropWhile (\<lambda>n. n = []) (rev (names to))) else names to))"

definition can_rename :: "location \<Rightarrow> fs_node \<Rightarrow> location \<Rightarrow> fs_node \<Rightarrow> bool" where
  "can_rename l u m t \<longleftrightarrow> l \<noteq> [] \<and> m \<noteq> [] \<and> is_Dir (node_at t (butlast m))
     \<and> (l = m \<or> \<not> prefix l m \<and>
          (case node_at t m of
             None \<Rightarrow> True
           | Some (File s) \<Rightarrow> \<not> is_Dir (Some u)
           | Some (Dir es) \<Rightarrow> is_Dir (Some u) \<and> es = []))"

definition moveFile_path :: "location \<Rightarrow> string \<Rightarrow> string \<Rightarrow> fs_node \<Rightarrow> (bool \<times> fs_node) result" where
  "moveFile_path cwd from to t =
     (let failed = Inl (Runtime_error (''Failed to move file: '' @ from))
      in case resolve t cwd from of
           Inl e \<Rightarrow> failed
         | Inr l \<Rightarrow>
             (case node_at t l of
                None \<Rightarrow> failed
              | Some u \<Rightarrow>
                  (case rename_target cwd u to t of
                     Inl e \<Rightarrow> failed
                   | Inr m \<Rightarrow>
                       if dots_last from \<or> dots_last to \<or> \<not> can_rename l u m t then failed
                       else if l = m then Inr (True, t)
                       else Inr (True, set_node m (Some u) (set_node l None t)))))"

text \<open>\<open>FileHandler::ListFiles\<close>: a recursive iterator gives every entry before those below it.\<close>

definition join_path :: "string \<Rightarrow> string \<Rightarrow> string" where
  "join_path p n = (if p \<noteq> [] \<and> last p = CHR ''/'' then p @ n else p @ ''/'' @ n)"

fun list_entries :: "string \<Rightarrow> (string \<times> fs_node) list \<Rightarrow> string list" where
  "list_entries p [] = []"
| "list_entries p ((n, File s) # es) = join_path p n # list_entries p es"
| "list_entries p ((n, Dir ds) # es) = join_path p n # list_entries (join_path p n) ds @ list_entries p es"

definition ListFiles :: "string \<Rightarrow> location \<Rightarrow> string \<Rightarrow> fs_node \<Rightarrow> string list result" where
  "ListFiles what cwd directory t =
     (case resolve t cwd directory of
        Inl e \<Rightarrow> Inl (Runtime_error what)
      | Inr l \<Rightarrow> (case node_at t l of Some (Dir es) \<Rightarrow> Inr (list_entries directory es) | _ \<Rightarrow> Inl (Runtime_error what)))"

text \<open>\<open>PathUtils::GetAbsolutePath\<close>: \<open>fs::absolute\<close> puts the working directory before a relative path and refuses
  the empty one.\<close>

definition path_of :: "location \<Rightarrow> string" where
  "path_of l = (if l = [] then ''/'' else concat (map (\<lambda>n. CHR ''/'' # n) l))"

definition GetAbsolutePath :: "string \<Rightarrow> location \<Rightarrow> string \<Rightarrow> string result" where
  "GetAbsolutePath what cwd relative_path =
     (if relative_path = [] then Inl (Runtime_error what)
      else if IsAbsolutePath relative_path then Inr relative_path
      else Inr (join_path (path_of cwd) relative_path))"

section \<open>Well-formed trees\<close>

text \<open>The names in a directory are different, and are names.\<close>

definition name_ok :: "string \<Rightarrow> bool" where
  "name_ok n \<longleftrightarrow> n \<noteq> [] \<and> CHR ''/'' \<notin> set n \<and> n \<noteq> ''.'' \<and> n \<noteq> ''..''"

fun wf_node :: "fs_node \<Rightarrow> bool" where
  "wf_node (File s) = True"
| "wf_node (Dir es) = (distinct (map fst es) \<and> (\<forall>(n, u) \<in> set es. name_ok n \<and> wf_node u))"

lemma wf_Dir:
  "wf_node (Dir es) \<longleftrightarrow> distinct (map fst es) \<and> (\<forall>n u. map_of es n = Some u \<longrightarrow> name_ok n \<and> wf_node u)"
  by (auto dest: map_of_SomeD)

lemma wf_update: "wf_node (Dir es) \<Longrightarrow> name_ok n \<Longrightarrow> wf_node u \<Longrightarrow> wf_node (Dir (AList.update n u es))"
  unfolding wf_Dir by (auto simp: update_conv' distinct_update split: if_splits)

lemma wf_delete: "wf_node (Dir es) \<Longrightarrow> wf_node (Dir (AList.delete n es))"
  unfolding wf_Dir by (auto simp: delete_conv' distinct_delete split: if_splits)

lemma wf_set_node:
  assumes "wf_node t" "\<forall>n \<in> set l. name_ok n" "\<And>u. v = Some u \<Longrightarrow> wf_node u"
  shows "wf_node (set_node l v t)"
  using assms
proof (induction l v t rule: set_node.induct)
  case (1 n l v es)
  have n: "name_ok n" using "1.prems"(2) by simp
  show ?case
  proof (cases "l = []")
    case True
    then show ?thesis using wf_update [OF "1.prems"(1) n] wf_delete [OF "1.prems"(1)] "1.prems"(3) by (cases v) simp_all
  next
    case False
    show ?thesis
    proof (cases "map_of es n")
      case (Some u)
      have "wf_node u" using "1.prems"(1) Some unfolding wf_Dir by blast
      then have "wf_node (set_node l v u)" using "1.IH" [OF False Some] "1.prems"(2,3) by simp
      then show ?thesis using wf_update [OF "1.prems"(1) n] False Some by simp
    qed (use False "1.prems"(1) in simp)
  qed
qed simp_all

lemma wf_node_at: "wf_node t \<Longrightarrow> node_at t l = Some u \<Longrightarrow> wf_node u \<and> (\<forall>n \<in> set l. name_ok n)"
proof (induction t l rule: node_at.induct)
  case (3 es n l)
  then show ?case unfolding wf_Dir by (auto split: option.splits)
qed simp_all

section \<open>Resolving paths\<close>

definition plain :: "string list \<Rightarrow> string list" where
  "plain ns = filter (\<lambda>n. n \<noteq> [] \<and> n \<noteq> ''.'') ns"

lemma plain_simps [simp]:
  "plain [] = []" "plain (n # ns) = (if n = [] \<or> n = ''.'' then plain ns else n # plain ns)"
  by (auto simp: plain_def)

lemma names_no_slash: "n \<in> set (names p) \<Longrightarrow> CHR ''/'' \<notin> set n"
  by (induction p arbitrary: n rule: names.induct) (auto split: if_splits list.splits)

lemma names_ok: "n \<in> set (plain (names p)) \<Longrightarrow> n \<noteq> ''..'' \<Longrightarrow> name_ok n"
  using names_no_slash by (auto simp: plain_def name_ok_def)

lemma walk_names:
  "walk t l ns = Inr m \<Longrightarrow> set m \<subseteq> set l \<union> (set (plain ns) - {''..''})"
proof (induction ns arbitrary: l)
  case (Cons n ns)
  let ?l = "if n = [] \<or> n = ''.'' then l else if n = ''..'' then butlast l else l @ [n]"
  have "walk t ?l ns = Inr m" using Cons.prems by (auto split: option.splits fs_node.splits)
  then have "set m \<subseteq> set ?l \<union> (set (plain ns) - {''..''})" by (rule Cons.IH)
  moreover have "set ?l \<subseteq> set l \<union> (set (plain (n # ns)) - {''..''})" by (auto dest: in_set_butlastD)
  ultimately show ?case by auto
qed simp

lemma resolve_names:
  assumes "resolve t cwd path = Inr l" "\<forall>n \<in> set cwd. name_ok n"
  shows "\<forall>n \<in> set l. name_ok n"
proof
  fix n assume "n \<in> set l"
  moreover have "walk t (start_of cwd path) (names path) = Inr l" using assms(1) by (auto simp: resolve_def split: if_splits)
  ultimately have "n \<in> set (start_of cwd path) \<or> n \<in> set (plain (names path)) \<and> n \<noteq> ''..''" using walk_names by blast
  then show "name_ok n" using assms(2) names_ok by (auto simp: start_of_def split: if_splits)
qed

text \<open>Down a path of directories\<close>

lemma walk_down:
  assumes "''..'' \<notin> set ns" "\<And>x. prefix l x \<Longrightarrow> prefix x (l @ plain ns) \<Longrightarrow> is_Dir (node_at t x)"
  shows "walk t l ns = Inr (l @ plain ns)"
  using assms
proof (induction ns arbitrary: l)
  case (Cons n ns)
  have "is_Dir (node_at t l)" using Cons.prems(2) by simp
  then obtain es where es: "node_at t l = Some (Dir es)" by (auto simp: is_Dir_cases)
  show ?case
  proof (cases "n = [] \<or> n = ''.''")
    case True
    then show ?thesis using Cons es by auto
  next
    case False
    have "walk t (l @ [n]) ns = Inr ((l @ [n]) @ plain ns)"
      using Cons.prems False by (intro Cons.IH) (auto dest: append_prefixD)
    then show ?thesis using False es Cons.prems(1) by auto
  qed
qed simp

text \<open>A walk over names gets to what is there.\<close>

lemma walk_node:
  assumes "\<forall>n \<in> set ns. name_ok n"
  shows "(case walk t l ns of Inr m \<Rightarrow> node_at t m | Inl e \<Rightarrow> None) = node_at t (l @ ns)"
  using assms
proof (induction ns arbitrary: l)
  case (Cons n ns)
  have n: "n \<noteq> []" "n \<noteq> ''.''" "n \<noteq> ''..''" using Cons.prems by (simp_all add: name_ok_def)
  have ih: "(case walk t (l @ [n]) ns of Inr m \<Rightarrow> node_at t m | Inl e \<Rightarrow> None) = node_at t (l @ n # ns)"
    using Cons.IH [of "l @ [n]"] Cons.prems by simp
  show ?case
  proof (cases "is_Dir (node_at t l)")
    case True
    then show ?thesis using ih n by (auto simp: is_Dir_cases)
  next
    case False
    then have "node_at t (l @ n # ns) = None" using dir_above [of t l "n # ns"] by blast
    then show ?thesis using False by (auto split: option.splits fs_node.splits)
  qed
qed simp

lemma walk_location:
  assumes "\<forall>n \<in> set ns. name_ok n" "walk t l ns = Inr m"
  shows "m = l @ ns"
  using assms
proof (induction ns arbitrary: l)
  case (Cons n ns)
  then have "walk t (l @ [n]) ns = Inr m" by (auto simp: name_ok_def split: option.splits fs_node.splits)
  then have "m = (l @ [n]) @ ns" using Cons.IH [of "l @ [n]"] Cons.prems(1) by simp
  then show ?case by simp
qed simp

lemma set_node_parent:
  assumes "node_at t l \<noteq> None" "l \<noteq> []"
  shows "is_Dir (node_at t (butlast l))"
  using dir_above [of t "butlast l" "[last l]"] assms by simp

section \<open>Making directories\<close>

definition no_file :: "fs_node \<Rightarrow> location \<Rightarrow> bool" where
  "no_file t m \<longleftrightarrow> (\<forall>x s. prefix x m \<longrightarrow> look t x \<noteq> Some (A_file s))"

lemma create_dirs_spec:
  assumes "is_Dir (node_at t l)" "''..'' \<notin> set ns"
  shows "if no_file t (l @ plain ns)
     then \<exists>t1. create_dirs l ns t = (Some (l @ plain ns), t1)
        \<and> (\<forall>x. look t1 x = (if prefix x (l @ plain ns) \<and> look t x = None then Some A_directory else look t x))
     else create_dirs l ns t = (None, t)"
  using assms
proof (induction ns arbitrary: l t)
  case Nil
  then show ?case using dir_prefix [of t l] by (auto simp: no_file_def is_Dir_look)
next
  case (Cons n ns)
  show ?case
  proof (cases "n = [] \<or> n = ''.''")
    case True
    then show ?thesis using Cons.IH [OF Cons.prems(1)] Cons.prems(2) by simp
  next
    case False
    then have e: "plain (n # ns) = n # plain ns" "n \<noteq> ''..''" using Cons.prems(2) by auto
    let ?m = "(l @ [n]) @ plain ns"
    have m: "l @ plain (n # ns) = ?m" using False by simp
    consider s where "node_at t (l @ [n]) = Some (File s)" | es where "node_at t (l @ [n]) = Some (Dir es)"
      | "node_at t (l @ [n]) = None" by (metis fs_node.exhaust option.exhaust)
    then show ?thesis
    proof cases
      case 1
      then have "look t (l @ [n]) = Some (A_file s)" "prefix (l @ [n]) ?m" by (simp_all add: look_def)
      then have "\<not> no_file t ?m" unfolding no_file_def by blast
      then show ?thesis using 1 False e by simp
    next
      case 2
      then have s: "create_dirs l (n # ns) t = create_dirs (l @ [n]) ns t" using False e by simp
      show ?thesis unfolding m s by (rule Cons.IH) (use 2 Cons.prems(2) in simp_all)
    next
      case 3
      let ?t = "set_node (l @ [n]) (Some (Dir [])) t"
      have look: "look ?t x = (if x = l @ [n] then Some A_directory else if prefix (l @ [n]) x then None else look t x)" for x
        using look_leaf(2) [OF Cons.prems(1)] .
      have below: "look t x = None" if pr: "prefix (l @ [n]) x" for x
      proof -
        obtain zs where x: "x = (l @ [n]) @ zs" using pr unfolding prefix_def by blast
        show ?thesis unfolding x look_def node_at_append [of t "l @ [n]"] by (simp add: 3)
      qed
      have cases: "look t x = None \<or> look t x = Some A_directory" "look ?t x = None \<or> look ?t x = Some A_directory" if "prefix x ?m" for x
      proof -
        have "prefix x (l @ [n]) \<or> prefix (l @ [n]) x" using prefix_same_cases [OF that, of "l @ [n]"] by simp
        then have "prefix x l \<or> x = l @ [n] \<or> prefix (l @ [n]) x" by auto
        then show "look t x = None \<or> look t x = Some A_directory"
          using dir_prefix [OF Cons.prems(1), of x] below [of x] by (auto simp: is_Dir_look)
        then show "look ?t x = None \<or> look ?t x = Some A_directory" by (auto simp: look)
      qed
      have nf: "no_file u ?m" if "\<And>x. prefix x ?m \<Longrightarrow> look u x = None \<or> look u x = Some A_directory" for u
        unfolding no_file_def using that by (metis kind.distinct(1) option.distinct(1) option.inject)
      note nf = nf [OF cases(2)] nf [OF cases(1)]
      have "is_Dir (node_at ?t (l @ [n]))" by (simp add: is_Dir_look look)
      then obtain t1 where t1: "create_dirs (l @ [n]) ns ?t = (Some ?m, t1)"
          "\<forall>x. look t1 x = (if prefix x ?m \<and> look ?t x = None then Some A_directory else look ?t x)"
        using Cons.IH [of ?t "l @ [n]"] Cons.prems(2) nf(1) by auto
      have "look t1 x = (if prefix x ?m \<and> look t x = None then Some A_directory else look t x)" for x
        using t1(2) below [of x] unfolding look by auto
      then show ?thesis using t1(1) 3 False e nf(2) by simp
    qed
  qed
qed

section \<open>Plain paths and the map of files\<close>

text \<open>The paths that are written in one way only: a slash and a name, any number of times\<close>

definition plain_path :: "string \<Rightarrow> bool" where
  "plain_path p \<longleftrightarrow> (\<exists>l. l \<noteq> [] \<and> (\<forall>n \<in> set l. name_ok n) \<and> p = path_of l)"

text \<open>The files of a tree by their absolute paths\<close>

definition files :: "fs_node \<Rightarrow> file_system" where
  "files t = (\<lambda>p. case resolve t [] p of
     Inr l \<Rightarrow> (case node_at t l of Some (File s) \<Rightarrow> Some s | _ \<Rightarrow> None) | Inl e \<Rightarrow> None)"

lemma names_slash: "CHR ''/'' \<notin> set n \<Longrightarrow> names (n @ ''/'' @ p) = n # names p"
  by (induction n) auto

lemma names_last: "CHR ''/'' \<notin> set n \<Longrightarrow> names n = [n]"
  by (induction n) auto

lemma names_path_of:
  assumes "l \<noteq> []" "\<forall>n \<in> set l. name_ok n"
  shows "names (path_of l) = [] # l" "IsAbsolutePath (path_of l)" "path_of l \<noteq> []"
proof -
  have "names (concat (map (\<lambda>n. CHR ''/'' # n) l)) = [] # l" if "\<forall>n \<in> set l. name_ok n" for l
    using that
  proof (induction l)
    case (Cons n l)
    have n: "CHR ''/'' \<notin> set n" using Cons.prems by (simp add: name_ok_def)
    show ?case
    proof (cases l)
      case (Cons m k)
      have "names (n @ ''/'' @ m @ concat (map (\<lambda>n. CHR ''/'' # n) k)) = n # names (m @ concat (map (\<lambda>n. CHR ''/'' # n) k))"
        using names_slash [OF n] by simp
      moreover have "names (''/'' @ m @ concat (map (\<lambda>n. CHR ''/'' # n) k)) = [] # l"
        using Cons.IH Cons.prems Cons by simp
      ultimately show ?thesis by (simp add: Cons)
    qed (simp add: names_last [OF n])
  qed simp
  note n = this [OF assms(2)]
  have p: "path_of l = concat (map (\<lambda>n. CHR ''/'' # n) l)" using assms(1) by (simp add: path_of_def)
  show "names (path_of l) = [] # l" unfolding p by (rule n)
  show "IsAbsolutePath (path_of l)" "path_of l \<noteq> []"
    using assms(1) by (cases l; simp add: path_of_def IsAbsolutePath_def)+
qed

lemma resolve_plain:
  assumes "l \<noteq> []" "\<forall>n \<in> set l. name_ok n" "is_Dir (Some t)"
  shows "resolve t cwd (path_of l) = walk t [] l"
  using names_path_of [OF assms(1,2)] assms(3) by (auto simp: resolve_def start_of_def is_Dir_cases)

lemma files_at:
  assumes "l \<noteq> []" "\<forall>n \<in> set l. name_ok n" "is_Dir (Some t)"
  shows "files t (path_of l) = (case look t l of Some (A_file s) \<Rightarrow> Some s | _ \<Rightarrow> None)"
proof -
  have w: "(case walk t [] l of Inr m \<Rightarrow> node_at t m | Inl e \<Rightarrow> None) = node_at t l"
    using walk_node [OF assms(2), of t "[]"] by (simp only: append_Nil)
  have f: "files t (path_of l) = (case walk t [] l of Inr m \<Rightarrow> (case node_at t m of Some (File s) \<Rightarrow> Some s | _ \<Rightarrow> None) | Inl e \<Rightarrow> None)"
    unfolding files_def resolve_plain [OF assms] ..
  show ?thesis
  proof (cases "walk t [] l")
    case (Inr m)
    then have "files t (path_of l) = (case node_at t l of Some (File s) \<Rightarrow> Some s | _ \<Rightarrow> None)" using w f by simp
    then show ?thesis by (cases "node_at t l"; simp add: look_def; cases "the (node_at t l)"; simp)
  qed (use w f in \<open>simp add: look_def\<close>)
qed

lemma path_of_inj:
  assumes "l \<noteq> []" "\<forall>n \<in> set l. name_ok n" "m \<noteq> []" "\<forall>n \<in> set m. name_ok n" "path_of l = path_of m"
  shows "l = m"
proof -
  have "[] # l = names (path_of l)" using names_path_of(1) [OF assms(1,2)] by (rule sym)
  also have "\<dots> = names (path_of m)" by (rule arg_cong [OF assms(5)])
  also have "\<dots> = [] # m" using names_path_of(1) [OF assms(3,4)] .
  finally show ?thesis by simp
qed

text \<open>\<open>FileHandler::writeFileBinary\<close> on the tree: opening for writing makes the file, or empties it.\<close>

definition can_write_path :: "fs_node \<Rightarrow> location \<Rightarrow> string \<Rightarrow> bool" where
  "can_write_path t cwd path = (case resolve t cwd path of
     Inr l \<Rightarrow> l \<noteq> [] \<and> is_Dir (node_at t (butlast l)) \<and> \<not> is_Dir (node_at t l) | Inl e \<Rightarrow> False)"

definition writeFile_path :: "location \<Rightarrow> string \<Rightarrow> string \<Rightarrow> fs_node \<Rightarrow> fs_node result" where
  "writeFile_path cwd path s t =
     (if can_write_path t cwd path
      then (case resolve t cwd path of Inr l \<Rightarrow> Inr (set_node l (Some (File s)) t) | Inl e \<Rightarrow> Inl (open_failed path))
      else Inl (open_failed path))"

lemma set_node_root: "is_Dir (Some t) \<Longrightarrow> l \<noteq> [] \<Longrightarrow> is_Dir (Some (set_node l v t))"
  by (cases l; cases t) auto

lemma files_set:
  assumes "l \<noteq> []" "\<forall>n \<in> set l. name_ok n" "is_Dir (Some t)" "is_Dir (node_at t (butlast l))" "\<And>es. node_at t l = Some (Dir es) \<Longrightarrow> es = []"
    and "plain_path q" and v: "v = map_option File s"
  shows "files (set_node l v t) q = ((files t)(path_of l := s)) q"
proof -
  obtain m where m: "m \<noteq> []" "\<forall>n \<in> set m. name_ok n" "q = path_of m" using assms(6) by (auto simp: plain_path_def)
  obtain k n where k: "l = k @ [n]" using assms(1) by (cases l rule: rev_cases) auto
  have d: "is_Dir (node_at t k)" using assms(4) k by simp
  have look: "look (set_node l v t) m = (if m = l then map_option A_file s else if prefix l m then None else look t m)"
    using look_leaf(1,3) [OF d] v k by (cases s) auto
  have below: "look t m = None" if pr: "prefix l m" "m \<noteq> l"
  proof -
    obtain z where z: "m = l @ z" "z \<noteq> []" using pr unfolding prefix_def by auto
    obtain k z' where "z = k # z'" using z(2) by (cases z) auto
    have "node_at t m = None"
    proof (cases "is_Dir (node_at t l)")
      case True
      then have "node_at t l = Some (Dir [])" using assms(5) by (auto simp: is_Dir_cases)
      then show ?thesis unfolding z node_at_append \<open>z = k # z'\<close> by simp
    next
      case False
      then show ?thesis using dir_above [of t l z] z by blast
    qed
    then show ?thesis by (simp add: look_def)
  qed
  have "path_of m = path_of l \<longleftrightarrow> m = l" using path_of_inj [OF m(1,2) assms(1,2)] by auto
  then show ?thesis
    unfolding m(3) using files_at [OF m(1,2) set_node_root [OF assms(3,1)]] files_at [OF m(1,2) assms(3)] look below
    by (cases s) auto
qed

lemma path_location:
  assumes "l \<noteq> []" "\<forall>n \<in> set l. name_ok n" "is_Dir (Some t)" "resolve t cwd (path_of l) = Inr m"
  shows "m = l"
  using walk_location [OF assms(2), of t "[]" m] assms(4) by (simp add: resolve_plain [OF assms(1-3)])

section \<open>Listing\<close>

text \<open>The path of an entry some names below\<close>

definition below :: "string \<Rightarrow> string list \<Rightarrow> string" where
  "below p l = foldl join_path p l"

definition with_slash :: "string \<Rightarrow> string" where
  "with_slash p = (if p \<noteq> [] \<and> last p = CHR ''/'' then p else p @ ''/'')"

lemma join_path_with: "join_path p n = with_slash p @ n"
  by (simp add: join_path_def with_slash_def)

lemma below_Cons: "\<forall>n \<in> set (n # l). name_ok n \<Longrightarrow> below p (n # l) = with_slash p @ n @ concat (map (\<lambda>n. CHR ''/'' # n) l)"
proof (induction l arbitrary: n p)
  case Nil
  then show ?case by (simp add: below_def join_path_with)
next
  case (Cons m l)
  have "n \<noteq> []" "CHR ''/'' \<notin> set n" using Cons.prems by (simp_all add: name_ok_def)
  then have n: "n \<noteq> []" "last n \<noteq> CHR ''/''" using last_in_set [of n] by metis+
  have "below p (n # m # l) = below (with_slash p @ n) (m # l)" by (simp add: below_def join_path_with)
  also have "\<dots> = with_slash (with_slash p @ n) @ m @ concat (map (\<lambda>n. CHR ''/'' # n) l)" using Cons.IH Cons.prems by simp
  also have "with_slash (with_slash p @ n) = with_slash p @ n @ ''/''" using n by (simp add: with_slash_def)
  finally show ?case by simp
qed

lemma names_below: "n \<noteq> [] \<Longrightarrow> \<forall>n \<in> set (n # l). name_ok n \<Longrightarrow> names (n @ concat (map (\<lambda>n. CHR ''/'' # n) l)) = n # l"
proof (induction l arbitrary: n)
  case Nil
  then show ?case using names_last [of n] by (simp add: name_ok_def)
next
  case (Cons m l)
  have "names (n @ ''/'' @ m @ concat (map (\<lambda>n. CHR ''/'' # n) l)) = n # names (m @ concat (map (\<lambda>n. CHR ''/'' # n) l))"
    using names_slash [of n] Cons.prems(2) by (simp add: name_ok_def)
  then show ?case using Cons.IH [of m] Cons.prems by (simp add: name_ok_def)
qed

lemma below_inj:
  assumes "\<forall>n \<in> set l. name_ok n" "\<forall>n \<in> set m. name_ok n" "l \<noteq> []" "m \<noteq> []" "below p l = below p m"
  shows "l = m"
proof -
  obtain n l' k m' where e: "l = n # l'" "m = k # m'" using assms(3,4) by (cases l; cases m) auto
  have ne: "n \<noteq> []" "k \<noteq> []" using assms(1,2) by (simp_all add: e name_ok_def)
  have "n @ concat (map (\<lambda>n. CHR ''/'' # n) l') = k @ concat (map (\<lambda>n. CHR ''/'' # n) m')"
    using assms(5) below_Cons [of n l' p] below_Cons [of k m' p] assms(1,2) by (simp add: e)
  then have "names (n @ concat (map (\<lambda>n. CHR ''/'' # n) l')) = names (k @ concat (map (\<lambda>n. CHR ''/'' # n) m'))" by (rule arg_cong)
  then show ?thesis using names_below [OF ne(1)] names_below [OF ne(2)] assms(1,2) by (simp add: e)
qed

lemma below_append: "below p (l @ m) = below (below p l) m"
  by (simp add: below_def)

text \<open>What is listed, as locations\<close>

fun all_below :: "(string \<times> fs_node) list \<Rightarrow> location list" where
  "all_below [] = []"
| "all_below ((n, File s) # es) = [n] # all_below es"
| "all_below ((n, Dir ds) # es) = [n] # map ((#) n) (all_below ds) @ all_below es"

lemma list_entries_below: "list_entries p es = map (below p) (all_below es)"
proof (induction p es rule: list_entries.induct)
  case (3 p n ds es)
  have "map (below (join_path p n)) (all_below ds) = map (below p) (map ((#) n) (all_below ds))"
    by (simp add: below_def)
  then show ?case using 3 by (simp add: below_def)
qed (simp_all add: below_def)

lemma all_below_hd: "x \<in> set (all_below es) \<Longrightarrow> \<exists>n l. x = n # l \<and> n \<in> fst ` set es"
  by (induction es rule: all_below.induct) auto

lemma all_below_distinct: "wf_node (Dir es) \<Longrightarrow> distinct (all_below es)"
proof (induction es rule: all_below.induct)
  case (2 n s es)
  then have "[n] \<notin> set (all_below es)" using all_below_hd [of "[n]" es] by auto
  then show ?case using 2 by auto
next
  case (3 n ds es)
  have w: "wf_node (Dir ds)" "wf_node (Dir es)" "n \<notin> fst ` set es" using "3.prems" by auto
  have a: "x \<notin> set (all_below es)" if "x = n # l" for x l using all_below_hd [of x es] w(3) that by auto
  have "[] \<notin> set (all_below ds)" using all_below_hd [of "[]" ds] by auto
  then show ?case using "3.IH" w a by (auto simp: distinct_map)
qed simp

lemma all_below_set: "wf_node (Dir es) \<Longrightarrow> l \<in> set (all_below es) \<longleftrightarrow> l \<noteq> [] \<and> node_at (Dir es) l \<noteq> None"
proof (induction es arbitrary: l rule: all_below.induct)
  case 1
  then show ?case by (cases l) auto
next
  case (2 n s es)
  have w: "wf_node (Dir es)" "n \<notin> fst ` set es" using "2.prems" by auto
  show ?case
  proof (cases l)
    case (Cons k m)
    have "node_at (Dir ((n, File s) # es)) l = (if k = n then node_at (File s) m else node_at (Dir es) l)" by (simp add: Cons)
    moreover have "l \<in> set (all_below es) \<Longrightarrow> k \<noteq> n" using all_below_hd [of l es] w(2) Cons by auto
    ultimately show ?thesis using "2.IH" [OF w(1), of l] Cons by (cases m) auto
  qed (use all_below_hd [of "[]" es] in auto)
next
  case (3 n ds es)
  have w: "wf_node (Dir ds)" "wf_node (Dir es)" "n \<notin> fst ` set es" using "3.prems" by auto
  show ?case
  proof (cases l)
    case (Cons k m)
    have "node_at (Dir ((n, Dir ds) # es)) l = (if k = n then node_at (Dir ds) m else node_at (Dir es) l)" by (simp add: Cons)
    moreover have "l \<in> set (all_below es) \<Longrightarrow> k \<noteq> n" using all_below_hd [of l es] w(3) Cons by auto
    moreover have "l \<in> set (all_below ((n, Dir ds) # es)) \<longleftrightarrow> k = n \<and> (m = [] \<or> m \<in> set (all_below ds)) \<or> l \<in> set (all_below es)"
      by (auto simp: Cons)
    ultimately show ?thesis using "3.IH"(1) [OF w(1), of m] "3.IH"(2) [OF w(2), of l] Cons by (cases m) auto
  qed (use all_below_hd [of "[]" "(n, Dir ds) # es"] in auto)
qed

lemma names_ne: "names p \<noteq> []"
  by (cases p) (simp_all split: list.splits)

lemma names_append: "names (p @ ''/'' @ q) = names p @ names q"
proof (induction p)
  case (Cons c p)
  then show ?case using names_ne [of p] by (cases "names p") simp_all
qed simp

lemma walk_append: "walk t l (a @ b) = (case walk t l a of Inr m \<Rightarrow> walk t m b | Inl e \<Rightarrow> Inl e)"
  by (induction a arbitrary: l) (auto split: option.splits fs_node.splits)

lemma resolve_below:
  assumes "resolve t cwd p = Inr l" "m \<noteq> []" "\<forall>n \<in> set m. name_ok n" "node_at t (l @ m) \<noteq> None"
  shows "resolve t cwd (below p m) = Inr (l @ m)"
proof -
  obtain n k where m: "m = n # k" using assms(2) by (cases m) auto
  have p: "p \<noteq> []" "walk t (start_of cwd p) (names p) = Inr l" using assms(1) by (auto simp: resolve_def split: if_splits)
  have b: "below p m = with_slash p @ n @ concat (map (\<lambda>n. CHR ''/'' # n) k)" using below_Cons [of n k p] assms(3) m by simp
  have nb: "names (n @ concat (map (\<lambda>n. CHR ''/'' # n) k)) = m" using names_below [of n k] assms(3) m by (auto simp: name_ok_def)
  obtain q where q: "names (below p m) = q @ m" "walk t (start_of cwd p) q = Inr l"
  proof (cases "last p = CHR ''/''")
    case True
    then obtain r where r: "p = r @ ''/''" using p(1) by (metis append_butlast_last_id)
    then have np: "names p = names r @ [[]]" using names_append [of r "[]"] by simp
    then have "walk t (start_of cwd p) (names r) = Inr l"
      using p(2) by (auto simp: walk_append split: sum.splits option.splits fs_node.splits)
    moreover have "names (below p m) = names r @ m"
      unfolding b using True p(1) names_append [of r "n @ concat (map (\<lambda>n. CHR ''/'' # n) k)"] nb r by (simp add: with_slash_def)
    ultimately show thesis using that by blast
  next
    case False
    then have "names (below p m) = names p @ m"
      unfolding b using names_append [of p "n @ concat (map (\<lambda>n. CHR ''/'' # n) k)"] nb by (simp add: with_slash_def)
    then show thesis using that p(2) by blast
  qed
  have s: "start_of cwd (below p m) = start_of cwd p" "below p m \<noteq> []"
  proof -
    have "IsAbsolutePath (with_slash p @ x) = IsAbsolutePath p" for x
      using p(1) by (cases p) (simp_all add: IsAbsolutePath_def with_slash_def)
    then show "start_of cwd (below p m) = start_of cwd p" unfolding start_of_def b by (simp only:)
    show "below p m \<noteq> []" unfolding b with_slash_def using p(1) by simp
  qed
  have w: "(case walk t l m of Inr x \<Rightarrow> node_at t x | Inl e \<Rightarrow> None) = node_at t (l @ m)" using walk_node [OF assms(3)] .
  then obtain x where "walk t l m = Inr x" using assms(4) by (cases "walk t l m") simp_all
  then have "walk t l m = Inr (l @ m)" using walk_location [OF assms(3)] by simp
  then show ?thesis using q s by (simp add: resolve_def walk_append)
qed

section \<open>Properties of the directories\<close>

text \<open>C23: Listing gives every entry below a directory exactly once, each under a path that leads to it, whatever is in
  the tree.\<close>

theorem ListFiles_lists_all:
  assumes "wf_node t" and "resolve t cwd directory = Inr l" and "is_Dir (node_at t l)"
  shows "\<exists>fs. ListFiles what cwd directory t = Inr fs \<and> distinct fs
     \<and> set fs = {below directory m | m. m \<noteq> [] \<and> node_at t (l @ m) \<noteq> None}
     \<and> (\<forall>m. m \<noteq> [] \<longrightarrow> node_at t (l @ m) \<noteq> None \<longrightarrow> resolve t cwd (below directory m) = Inr (l @ m))"
proof -
  obtain es where es: "node_at t l = Some (Dir es)" using assms(3) by (auto simp: is_Dir_cases)
  have w: "wf_node (Dir es)" using wf_node_at [OF assms(1) es] by simp
  have at: "node_at t (l @ m) = node_at (Dir es) m" for m using node_at_append [of t l m] es by simp
  have ok: "\<forall>n \<in> set m. name_ok n" if "node_at (Dir es) m \<noteq> None" for m using wf_node_at [OF w, of m] that by blast
  have "ListFiles what cwd directory t = Inr (map (below directory) (all_below es))"
    using assms(2) es by (simp add: ListFiles_def list_entries_below)
  moreover have "inj_on (below directory) (set (all_below es))"
  proof (rule inj_onI)
    fix x y assume "x \<in> set (all_below es)" "y \<in> set (all_below es)" and b: "below directory x = below directory y"
    then have "x \<noteq> []" "node_at (Dir es) x \<noteq> None" "y \<noteq> []" "node_at (Dir es) y \<noteq> None" using all_below_set [OF w] by blast+
    then show "x = y" using below_inj [OF ok ok _ _ b] by blast
  qed
  then have "distinct (map (below directory) (all_below es))" using all_below_distinct [OF w] by (simp add: distinct_map)
  moreover have "set (map (below directory) (all_below es)) = {below directory m | m. m \<noteq> [] \<and> node_at t (l @ m) \<noteq> None}"
    using all_below_set [OF w] at by auto
  moreover have "resolve t cwd (below directory m) = Inr (l @ m)" if "m \<noteq> []" "node_at t (l @ m) \<noteq> None" for m
    using resolve_below [OF assms(2) that(1) ok that(2)] that(2) at by simp
  ultimately show ?thesis by blast
qed

definition small_tree :: fs_node where
  "small_tree = Dir [(''d'', Dir [(''f'', File ''x''), (''e'', Dir [])]), (''g'', File [])]"

theorem ListFiles_lists_all_witness:
  "\<exists>fs. ListFiles [] [] ''d/'' small_tree = Inr fs \<and> distinct fs \<and> fs = [''d/f'', ''d/e''] \<and> resolve small_tree [] ''d/f'' = Inr [''d'', ''f'']"
proof -
  have t: "wf_node small_tree" "resolve small_tree [] ''d/'' = Inr [''d'']" "is_Dir (node_at small_tree [''d''])"
    by (simp_all add: small_tree_def name_ok_def resolve_def start_of_def IsAbsolutePath_def)
  obtain fs where fs: "ListFiles [] [] ''d/'' small_tree = Inr fs" "distinct fs"
      "\<And>m. m \<noteq> [] \<Longrightarrow> node_at small_tree ([''d''] @ m) \<noteq> None \<Longrightarrow> resolve small_tree [] (below ''d/'' m) = Inr ([''d''] @ m)"
    using ListFiles_lists_all [OF t, of "[]"] by (elim exE conjE) (rule that, blast+)
  have "resolve small_tree [] (below ''d/'' [''f'']) = Inr ([''d''] @ [''f''])" by (rule fs(3)) (simp_all add: small_tree_def)
  then have "resolve small_tree [] ''d/f'' = Inr [''d'', ''f'']" by (simp add: below_def join_path_def)
  moreover have "ListFiles [] [] ''d/'' small_tree = Inr [''d/f'', ''d/e'']"
    using t(2) by (simp add: ListFiles_def) (simp add: small_tree_def join_path_def)
  ultimately show ?thesis using fs(1,2) by simp
qed

text \<open>C22: Making a directory and removing it: with directories only on its path and nothing at its end, the
  directories that are missing are made and nothing else changes, \<open>true\<close> is returned, the directory is empty, and
  removing it takes away exactly that directory; the tree is the one before, but for the directories made on
  the way. Where the path goes through a file, nothing changes and the error is thrown.\<close>

theorem create_then_remove:
  assumes "path \<noteq> []" and "is_Dir (node_at t (start_of cwd path))" and "''..'' \<notin> set (names path)" and "\<not> dots_last path"
    and "l = start_of cwd path @ plain (names path)" and "look t l = None"
  shows "if no_file t l
     then \<exists>t1 t2. CreateDirectory what cwd path t = (Inr True, t1)
        \<and> (\<forall>x. look t1 x = (if prefix x l \<and> look t x = None then Some A_directory else look t x))
        \<and> RemoveDirectory dots cwd path t1 = (Inr (), t2)
        \<and> (\<forall>x. look t2 x = (if prefix l x then None else look t1 x))
        \<and> (look t (butlast l) \<noteq> None \<longrightarrow> look t2 = look t)
     else CreateDirectory what cwd path t = (Inl (Runtime_error (''Failed to create directory: '' @ what)), t)"
proof (cases "no_file t l")
  case False
  then show ?thesis using create_dirs_spec [OF assms(2,3)] assms(1,2,5) by (simp add: CreateDirectory_def)
next
  case True
  obtain t1 where t1: "create_dirs (start_of cwd path) (names path) t = (Some l, t1)"
      "\<And>x. look t1 x = (if prefix x l \<and> look t x = None then Some A_directory else look t x)"
    using create_dirs_spec [OF assms(2,3)] True assms(5) by auto
  have c: "CreateDirectory what cwd path t = (Inr True, t1)"
    using t1(1) assms(1,2,6) by (simp add: CreateDirectory_def is_Dir_look)
  have ne: "l \<noteq> []" using assms(2,6) by (cases t; auto simp: look_def)
  have dirs: "is_Dir (node_at t1 x)" if "prefix x l" for x
    using t1(2) [of x] that True unfolding no_file_def is_Dir_look by (cases "look t x"; cases "the (look t x)") auto
  have "walk t1 (start_of cwd path) (names path) = Inr l" unfolding assms(5) by (rule walk_down [OF assms(3)]) (use dirs assms(5) in simp)
  then have r: "resolve t1 cwd path = Inr l" using assms(1) by (simp add: resolve_def)
  let ?t2 = "set_node l None t1"
  have at: "node_at t1 l \<noteq> None" using dirs [of l] by (auto simp: is_Dir_cases)
  have rm: "RemoveDirectory dots cwd path t1 = (Inr (), ?t2)" using r at assms(4) ne by (simp add: RemoveDirectory_def)
  have t2: "look ?t2 x = (if prefix l x then None else look t1 x)" for x
    using look_set [OF set_node_parent [OF at ne] ne, of None x] by simp
  have "look ?t2 x = look t x" if up: "look t (butlast l) \<noteq> None" for x
  proof (cases "prefix l x")
    case True
    then obtain z where z: "x = l @ z" unfolding prefix_def by blast
    have "node_at t l = None" using assms(6) by (simp add: look_def)
    then have "node_at t x = None" unfolding z node_at_append by simp
    then show ?thesis using t2 True by (simp add: look_def)
  next
    case False
    have "look t x \<noteq> None" if "prefix x l"
    proof -
      have "prefix x (butlast l)" using that False ne by (metis append_butlast_last_id prefix_order.eq_refl prefix_snoc)
      then obtain z where z: "butlast l = x @ z" unfolding prefix_def by blast
      show ?thesis using up unfolding z look_def node_at_append by (auto split: option.splits)
    qed
    then show ?thesis using t2 False t1(2) [of x] by auto
  qed
  then show ?thesis using True c t1(2) rm t2 by auto
qed

theorem create_then_remove_witness:
  "\<exists>t1 t2. CreateDirectory [] [''d''] ''a/b/'' small_tree = (Inr True, t1) \<and> look t1 [''d'', ''a'', ''b''] = Some A_directory
     \<and> look t1 [''d'', ''f''] = Some (A_file ''x'')
     \<and> RemoveDirectory (\<lambda>l t. (Inr (), t)) [''d''] ''a/b/'' t1 = (Inr (), t2) \<and> look t2 [''d'', ''a'', ''b''] = None"
proof -
  have n: "names ''a/b/'' = [''a'', ''b'', []]" by simp
  have s: "start_of [''d''] ''a/b/'' = [''d'']" by (simp add: start_of_def IsAbsolutePath_def)
  have l: "[''d'', ''a'', ''b''] = start_of [''d''] ''a/b/'' @ plain (names ''a/b/'')" unfolding n s by simp
  have nf: "no_file small_tree [''d'', ''a'', ''b'']"
    unfolding no_file_def by (auto simp: small_tree_def look_def prefix_Cons)
  have g: "is_Dir (node_at small_tree (start_of [''d''] ''a/b/''))" "''..'' \<notin> set (names ''a/b/'')" "\<not> dots_last ''a/b/''"
      "look small_tree [''d'', ''a'', ''b''] = None"
    unfolding n s dots_last_def by (simp_all add: small_tree_def look_def)
  obtain t1 t2 where t: "CreateDirectory [] [''d''] ''a/b/'' small_tree = (Inr True, t1)"
      "\<And>x. look t1 x = (if prefix x [''d'', ''a'', ''b''] \<and> look small_tree x = None then Some A_directory else look small_tree x)"
      "RemoveDirectory (\<lambda>l t. (Inr (), t)) [''d''] ''a/b/'' t1 = (Inr (), t2)"
      "\<And>x. look t2 x = (if prefix [''d'', ''a'', ''b''] x then None else look t1 x)"
    using create_then_remove [OF _ g(1-3) l g(4), of "[]" "\<lambda>l t. (Inr (), t)"] nf by auto
  have "look t1 [''d'', ''f''] = Some (A_file ''x'')" "look t1 [''d'', ''a'', ''b''] = Some A_directory"
    unfolding t(2) using g(4) by (simp_all add: small_tree_def look_def)
  moreover have "look t2 [''d'', ''a'', ''b''] = None" unfolding t(4) by simp
  ultimately show ?thesis using t(1,3) by blast
qed

text \<open>Two maps of files that agree on plain paths\<close>

definition same_files :: "file_system \<Rightarrow> file_system \<Rightarrow> bool" where
  "same_files f g \<longleftrightarrow> (\<forall>q. plain_path q \<longrightarrow> f q = g q)"

lemma write_refines:
  assumes "is_Dir (Some t)" "plain_path p" "writeFile_path cwd p s t = Inr t1"
  shows "\<exists>f. writeFileBinary (can_write_path t cwd) p s (files t) = Inr f \<and> same_files (files t1) f"
proof -
  obtain l where l: "l \<noteq> []" "\<forall>n \<in> set l. name_ok n" "p = path_of l" using assms(2) by (auto simp: plain_path_def)
  obtain m where m: "resolve t cwd p = Inr m" "t1 = set_node m (Some (File s)) t" "can_write_path t cwd p"
    using assms(3) by (auto simp: writeFile_path_def split: if_splits sum.splits)
  have "m = l" using path_location [OF l(1,2) assms(1)] m(1) l(3) by simp
  then have w: "is_Dir (node_at t (butlast l))" "\<not> is_Dir (node_at t l)" "t1 = set_node l (Some (File s)) t"
    using m by (simp_all add: can_write_path_def)
  have "files t1 q = ((files t)(p \<mapsto> s)) q" if "plain_path q" for q
    unfolding w(3) l(3) by (rule files_set [OF l(1,2) assms(1) w(1) _ that]) (use w(2) in auto)
  then show ?thesis using m(3) by (simp add: writeFileBinary_def same_files_def)
qed

lemma removed_files:
  assumes "is_Dir (Some t)" "l \<noteq> []" "\<forall>n \<in> set l. name_ok n" "node_at t l = Some u" "\<And>es. u = Dir es \<Longrightarrow> es = []"
  shows "same_files (files (set_node l None t)) ((files t)(path_of l := None))"
  unfolding same_files_def
  using files_set [OF assms(2,3,1) set_node_parent [OF _ assms(2)], of _ None None] assms(4,5) by auto

lemma delete_refines:
  assumes "is_Dir (Some t)" "plain_path p" "deleteFile_path what cwd p t = Inr (b, t1)"
  shows "same_files (files t1) (snd (deleteFile (files t) p)) \<and> (fst (deleteFile (files t) p) \<longrightarrow> b)"
proof -
  obtain l where l: "l \<noteq> []" "\<forall>n \<in> set l. name_ok n" "p = path_of l" using assms(2) by (auto simp: plain_path_def)
  note at = files_at [OF l(1,2) assms(1)]
  consider (missing) "node_at t l = None" "t1 = t" | (gone) u where "node_at t l = Some u" "\<And>es. u = Dir es \<Longrightarrow> es = []" "b" "t1 = set_node l None t"
  proof (cases "resolve t cwd p")
    case (Inl e)
    have "walk t [] l = Inl e" using Inl resolve_plain [OF l(1,2) assms(1)] l(3) by simp
    then have "node_at t l = None" using walk_node [OF l(2), of t "[]"] by simp
    then show thesis using missing Inl assms(3) by (cases e) (auto simp: deleteFile_path_def)
  next
    case (Inr m)
    then have m: "m = l" using path_location [OF l(1,2) assms(1)] l(3) by simp
    show thesis
    proof (cases "node_at t l")
      case None
      then show thesis using missing Inr m assms(3) by (simp add: deleteFile_path_def)
    next
      case (Some u)
      then show thesis using gone [of u] Inr m assms(3) by (cases u) (auto simp: deleteFile_path_def Let_def split: if_splits)
    qed
  qed
  then show ?thesis
  proof cases
    case missing
    then show ?thesis using at l(3) by (auto simp: deleteFile_def same_files_def look_def)
  next
    case gone
    then show ?thesis using removed_files [OF assms(1) l(1,2) gone(1,2)] l(3) by (simp add: deleteFile_def)
  qed
qed

lemma move_refines:
  assumes t: "is_Dir (Some t)" and p: "plain_path p" and r: "plain_path r" and f: "files t p = Some s"
    and mv: "moveFile_path cwd p r t = Inr (b, t1)"
  shows "b \<and> (\<exists>f. moveFile (files t) p r = Inr (True, f) \<and> same_files (files t1) f)"
proof -
  obtain l where l: "l \<noteq> []" "\<forall>n \<in> set l. name_ok n" "p = path_of l" using p by (auto simp: plain_path_def)
  obtain m where m: "m \<noteq> []" "\<forall>n \<in> set m. name_ok n" "r = path_of m" using r by (auto simp: plain_path_def)
  have "look t l = Some (A_file s)" using files_at [OF l(1,2) t] f l(3) by (auto split: option.splits kind.splits)
  then have at: "node_at t l = Some (File s)" by (auto simp: look_def elim: kind_of.elims)
  have res: "resolve t cwd p = Inr l"
    using mv path_location [OF l(1,2) t] l(3) by (cases "resolve t cwd p") (auto simp: moveFile_path_def)
  have to: "rename_target cwd (File s) r t = walk t [] m"
    using resolve_plain [OF m(1,2) t, of cwd] unfolding resolve_def rename_target_def m(3) is_Dir.simps if_False .
  obtain k where k: "walk t [] m = Inr k"
    using mv res at to by (cases "walk t [] m") (auto simp: moveFile_path_def)
  then have "k = m" using walk_location [OF m(2) k] by simp
  then have c: "can_rename l (File s) m t" "b" "t1 = (if l = m then t else set_node m (Some (File s)) (set_node l None t))"
    using mv res at to k by (auto simp: moveFile_path_def Let_def split: if_splits)
  then have d: "is_Dir (node_at t (butlast m))" "b" "if l = m then t1 = t
      else \<not> prefix l m \<and> \<not> is_Dir (node_at t m) \<and> t1 = set_node m (Some (File s)) (set_node l None t)"
    by (auto simp: can_rename_def is_Dir_cases)
  have mf: "moveFile (files t) p r = Inr (True, ((files t)(p := None))(r \<mapsto> s))" using f by (simp add: moveFile_def)
  have "same_files (files t1) (((files t)(p := None))(r \<mapsto> s))"
  proof (cases "l = m")
    case True
    then show ?thesis using d(3) f l(3) m(3) by (auto simp: same_files_def)
  next
    case False
    let ?t = "set_node l None t"
    have n: "\<not> prefix l m" "\<not> is_Dir (node_at t m)" "t1 = set_node m (Some (File s)) ?t" using d(3) False by simp_all
    have one: "same_files (files ?t) ((files t)(path_of l := None))" by (rule removed_files [OF t l(1,2) at]) simp
    have look: "look ?t x = look t x" if "\<not> prefix l x" for x
      using look_set [OF set_node_parent [OF _ l(1)] l(1), of t None x] at that by simp
    have "\<not> prefix l (butlast m)" using n(1) m(1) by (metis append_butlast_last_id prefix_snoc)
    then have w: "is_Dir (node_at ?t (butlast m))" "\<not> is_Dir (node_at ?t m)"
      using look d(1) n(1,2) unfolding is_Dir_look by simp_all
    have "files t1 q = ((files ?t)(r \<mapsto> s)) q" if "plain_path q" for q
      unfolding n(3) m(3) by (rule files_set [OF m(1,2) set_node_root [OF t l(1)] w(1) _ that]) (use w(2) in auto)
    then show ?thesis using one l(3) by (simp add: same_files_def)
  qed
  then show ?thesis using mf d(2) by blast
qed



section \<open>The operations keep the tree well formed\<close>

lemma create_dirs_wf:
  assumes "wf_node t" "\<forall>n \<in> set l. name_ok n" "\<forall>n \<in> set ns. CHR ''/'' \<notin> set n"
  shows "wf_node (snd (create_dirs l ns t))"
  using assms
proof (induction l ns t rule: create_dirs.induct)
  case (2 l n ns t)
  consider "n = [] \<or> n = ''.''" | "n = ''..''" | "name_ok n" using "2.prems"(3) by (auto simp: name_ok_def)
  then show ?case
  proof cases
    case 1
    then show ?thesis using "2.IH"(1) "2.prems" by auto
  next
    case 2
    then show ?thesis using "2.IH"(2) "2.prems" by (auto dest: in_set_butlastD)
  next
    case 3
    then have n: "n \<noteq> []" "n \<noteq> ''.''" "n \<noteq> ''..''" by (simp_all add: name_ok_def)
    have l: "\<forall>n \<in> set (l @ [n]). name_ok n" using "2.prems"(2) 3 by simp
    show ?thesis
    proof (cases "node_at t (l @ [n])")
      case None
      have "wf_node (set_node (l @ [n]) (Some (Dir [])) t)" by (rule wf_set_node [OF "2.prems"(1) l]) auto
      then show ?thesis using "2.IH"(3) None n l "2.prems"(3) by auto
    next
      case (Some u)
      then show ?thesis using "2.IH"(4) n l "2.prems"(1,3) by (cases u) auto
    qed
  qed
qed simp

lemma operations_keep_wf:
  assumes "wf_node t" "\<forall>n \<in> set cwd. name_ok n"
  shows "wf_node (snd (CreateDirectory what cwd path t))"
    and "(\<And>l. wf_node (snd (dots l t))) \<Longrightarrow> wf_node (snd (RemoveDirectory dots cwd path t))"
    and "deleteFile_path what cwd path t = Inr (b, t1) \<Longrightarrow> wf_node t1"
    and "moveFile_path cwd path to t = Inr (b, t1) \<Longrightarrow> wf_node t1"
    and "writeFile_path cwd path s t = Inr t1 \<Longrightarrow> wf_node t1"
proof -
  have s: "\<forall>n \<in> set (start_of cwd path). name_ok n" for path using assms(2) by (simp add: start_of_def)
  have "wf_node (snd (create_dirs (start_of cwd path) (names path) t))"
    using create_dirs_wf [OF assms(1) s] names_no_slash by blast
  then show "wf_node (snd (CreateDirectory what cwd path t))"
    using assms(1) by (auto simp: CreateDirectory_def Let_def split: prod.splits option.splits)
  have gone: "wf_node (set_node l None t)" if "resolve t cwd path = Inr l" for l
    by (rule wf_set_node [OF assms(1) resolve_names [OF that assms(2)]]) simp
  show "wf_node (snd (RemoveDirectory dots cwd path t))" if "\<And>l. wf_node (snd (dots l t))"
    using that gone assms(1) by (auto simp: RemoveDirectory_def Let_def split: sum.splits)
  show "wf_node t1" if "deleteFile_path what cwd path t = Inr (b, t1)"
    using that gone assms(1)
    by (auto simp: deleteFile_path_def Let_def split: sum.splits path_error.splits option.splits fs_node.splits if_splits)
  show "wf_node t1" if w: "writeFile_path cwd path s t = Inr t1"
  proof -
    obtain l where l: "resolve t cwd path = Inr l" "t1 = set_node l (Some (File s)) t"
      using w by (auto simp: writeFile_path_def split: if_splits sum.splits)
    show ?thesis unfolding l(2) by (rule wf_set_node [OF assms(1) resolve_names [OF l(1) assms(2)]]) auto
  qed
  show "wf_node t1" if w: "moveFile_path cwd path to t = Inr (b, t1)"
  proof -
    obtain l u where l: "resolve t cwd path = Inr l" "node_at t l = Some u"
      using w by (auto simp: moveFile_path_def Let_def split: sum.splits option.splits)
    obtain m where r: "rename_target cwd u to t = Inr m" "t1 = t \<or> t1 = set_node m (Some u) (set_node l None t)"
      using w l by (auto simp: moveFile_path_def Let_def split: sum.splits if_splits)
    have "set (rev (dropWhile (\<lambda>n. n = []) (rev (names to)))) \<subseteq> set (names to)" using set_dropWhileD by fastforce
    then obtain ns where m: "walk t (start_of cwd to) ns = Inr m" "set ns \<subseteq> set (names to)"
      using r(1) by (auto simp: rename_target_def split: if_splits)
    have "\<forall>n \<in> set m. name_ok n"
    proof
      fix n assume "n \<in> set m"
      then have "n \<in> set (start_of cwd to) \<or> n \<in> set (plain ns) \<and> n \<noteq> ''..''" using walk_names [OF m(1)] by blast
      then show "name_ok n" using s [of to] names_no_slash [of n to] m(2) by (auto simp: plain_def name_ok_def)
    qed
    then have "wf_node (set_node m (Some u) (set_node l None t))"
      using wf_set_node [OF gone [OF l(1)], of m "Some u"] wf_node_at [OF assms(1) l(2)] by simp
    then show ?thesis using r(2) assms(1) by blast
  qed
qed

text \<open>An absolute path leads where the path it was made from leads.\<close>

lemma GetAbsolutePath_same:
  assumes "path \<noteq> []" "\<forall>n \<in> set cwd. name_ok n" "is_Dir (node_at t cwd)"
  shows "\<exists>p. GetAbsolutePath what cwd path = Inr p \<and> IsAbsolutePath p \<and> resolve t d p = resolve t cwd path"
proof (cases "IsAbsolutePath path")
  case True
  then show ?thesis using assms(1) by (simp add: GetAbsolutePath_def resolve_def start_of_def)
next
  case False
  have root: "is_Dir (Some t)" using dir_prefix [OF assms(3), of "[]"] by simp
  show ?thesis
  proof (cases "cwd = []")
    case True
    have "names (''/'' @ path) = [] # names path" by simp
    then show ?thesis using False True assms(1) root
      by (auto simp: GetAbsolutePath_def path_of_def join_path_def resolve_def start_of_def IsAbsolutePath_def is_Dir_cases)
  next
    case ne: False
    note n = names_path_of [OF ne assms(2)]
    have "last (path_of cwd) = last (last cwd)" "last cwd \<noteq> []" "CHR ''/'' \<notin> set (last cwd)"
      using ne assms(2) by (cases cwd rule: rev_cases; auto simp: path_of_def name_ok_def)+
    then have "last (path_of cwd) \<noteq> CHR ''/''" using last_in_set [of "last cwd"] by metis
    then have j: "join_path (path_of cwd) path = path_of cwd @ ''/'' @ path" by (simp add: join_path_def)
    have nn: "names (path_of cwd @ ''/'' @ path) = [] # cwd @ names path" unfolding names_append n(1) by simp
    have a: "IsAbsolutePath (path_of cwd @ ''/'' @ path)" using n(2,3) by (cases "path_of cwd") (auto simp: IsAbsolutePath_def)
    have w: "walk t [] cwd = Inr cwd"
    proof -
      have pl: "plain cwd = cwd" "''..'' \<notin> set cwd" using assms(2) by (auto simp: plain_def name_ok_def)
      have "walk t [] cwd = Inr ([] @ plain cwd)" by (rule walk_down [OF pl(2)]) (use dir_prefix [OF assms(3)] pl(1) in simp)
      then show ?thesis by (simp add: pl(1))
    qed
    have "resolve t d (path_of cwd @ ''/'' @ path) = walk t [] (cwd @ names path)"
      using a nn root by (auto simp: resolve_def start_of_def is_Dir_cases)
    also have "\<dots> = walk t cwd (names path)" by (simp add: walk_append w)
    also have "\<dots> = resolve t cwd path" using False assms(1) by (simp add: resolve_def start_of_def)
    finally show ?thesis using j a False assms(1) by (simp add: GetAbsolutePath_def)
  qed
qed

end
