(* ===== verification/TimerStamp.thy ===== *)
theory TimerStamp
  imports CppString Complex_Main
begin

text \<open>
  The time stamps of \<open>utils/TimerStamp.h\<close> (class \<open>TimerStamp\<close>): microseconds as a 64-bit signed
  integer, their text, their order, and adding seconds. The clock is a parameter: \<open>Now\<close> takes what \<open>clock_gettime\<close> put into
  its \<open>timespec\<close>; \<open>localtime_r\<close> is a function argument.
\<close>

section \<open>Time stamps\<close>

definition int64_expr :: "int \<Rightarrow> int result" where
  "int64_expr x =
     (if - 9223372036854775808 \<le> x \<and> x \<le> 9223372036854775807 then Inr x else Inl Undefined_behaviour)"

lemma int64_expr_ok [simp]:
  "- 9223372036854775808 \<le> x \<Longrightarrow> x \<le> 9223372036854775807 \<Longrightarrow> int64_expr x = Inr x"
  by (simp add: int64_expr_def)

record TimerStamp =
  micro_seconds :: int

record timespec =
  tv_sec :: int
  tv_nsec :: int

definition TimerStamp_ctor0 :: TimerStamp where
  "TimerStamp_ctor0 = \<lparr>micro_seconds = 0\<rparr>"

definition TimerStamp_ctor :: "int \<Rightarrow> TimerStamp" where
  "TimerStamp_ctor us = \<lparr>micro_seconds = us\<rparr>"

definition ts_less :: "TimerStamp \<Rightarrow> TimerStamp \<Rightarrow> bool" where
  "ts_less a b \<longleftrightarrow> micro_seconds a < micro_seconds b"

definition ts_eq :: "TimerStamp \<Rightarrow> TimerStamp \<Rightarrow> bool" where
  "ts_eq a b \<longleftrightarrow> micro_seconds a = micro_seconds b"

definition Now :: "timespec \<Rightarrow> TimerStamp result" where
  "Now ts =
     bindE (int64_expr (tv_sec ts * 1000000)) (\<lambda>s.
     bindE (int64_expr (s + tv_nsec ts sdiv 1000)) (\<lambda>us. Inr (TimerStamp_ctor us)))"

definition AddMicroSec :: "TimerStamp \<Rightarrow> int \<Rightarrow> TimerStamp result" where
  "AddMicroSec t add = bindE (int64_expr (micro_seconds t + add)) (\<lambda>us. Inr (TimerStamp_ctor us))"

section \<open>printf\<close>

text \<open>The conversions \<open>%wd\<close> and \<open>%0wd\<close> of \<open>snprintf\<close>\<close>

definition fmt_d :: "nat \<Rightarrow> int \<Rightarrow> string" where
  "fmt_d w i = (let t = to_string_int i in replicate (w - length t) CHR '' '' @ t)"

definition fmt_0d :: "nat \<Rightarrow> int \<Rightarrow> string" where
  "fmt_0d w i =
     (let t = to_string (nat \<bar>i\<bar>); sgn = (if i < 0 then ''-'' else '''')
      in sgn @ replicate (w - length sgn - length t) CHR ''0'' @ t)"

text \<open>\<open>snprintf(array, size, ...)\<close> writes at most \<open>size - 1\<close> characters and a terminator; the rest
  of the array keeps what it held.\<close>

definition snprintf_into :: "nat \<Rightarrow> string \<Rightarrow> char list \<Rightarrow> char list" where
  "snprintf_into n text arr =
     (let t = take (n - 1) text in t @ [CHR 0x00] @ drop (length t + 1) arr)"

lemma length_snprintf_into: "0 < n \<Longrightarrow> n \<le> length arr \<Longrightarrow> length (snprintf_into n text arr) = length arr"
  by (auto simp: snprintf_into_def Let_def min_def)

section \<open>Calendar text\<close>

record tm =
  tm_year :: int
  tm_mon :: int
  tm_mday :: int
  tm_hour :: int
  tm_min :: int
  tm_sec :: int

definition GetTimeString :: "(int \<Rightarrow> tm) \<Rightarrow> TimerStamp \<Rightarrow> string" where
  "GetTimeString localtime t =
     (let tm_time = localtime (micro_seconds t sdiv 1000000);
          microseconds = to_int32 (micro_seconds t smod 1000000)
      in take 63 (fmt_d 4 (tm_year tm_time + 1900) @ ''-'' @ fmt_0d 2 (tm_mon tm_time + 1)
           @ ''-'' @ fmt_0d 2 (tm_mday tm_time) @ '' '' @ fmt_0d 2 (tm_hour tm_time)
           @ '':'' @ fmt_0d 2 (tm_min tm_time) @ '':'' @ fmt_0d 2 (tm_sec tm_time)
           @ ''.'' @ fmt_0d 6 microseconds))"

lemma length_fmt_0d:
  assumes "0 \<le> i" and "i < 10 ^ w" and "0 < w"
  shows "length (fmt_0d w i) = w"
proof -
  have "length (to_string (nat i)) \<le> w"
    using length_num_str [of "nat i" w] assms by (simp add: to_string_def nat_less_iff)
  then show ?thesis using assms(1) by (simp add: fmt_0d_def Let_def)
qed

section \<open>Order and seconds\<close>

text \<open>Time stamps are ordered by their microseconds, as \<open>operator<\<close> says (an extension of the record
  comes second).\<close>

instantiation TimerStamp_ext :: (linorder) linorder
begin

definition less_eq_TimerStamp_ext :: "'a TimerStamp_ext \<Rightarrow> 'a TimerStamp_ext \<Rightarrow> bool" where
  "less_eq_TimerStamp_ext a b \<longleftrightarrow> micro_seconds a < micro_seconds b
     \<or> micro_seconds a = micro_seconds b \<and> TimerStamp.TimerStamp.more a \<le> TimerStamp.TimerStamp.more b"

definition less_TimerStamp_ext :: "'a TimerStamp_ext \<Rightarrow> 'a TimerStamp_ext \<Rightarrow> bool" where
  "less_TimerStamp_ext a b \<longleftrightarrow> micro_seconds a < micro_seconds b
     \<or> micro_seconds a = micro_seconds b \<and> TimerStamp.TimerStamp.more a < TimerStamp.TimerStamp.more b"

instance
proof
  fix a b c :: "'a TimerStamp_ext"
  show "a < b \<longleftrightarrow> a \<le> b \<and> \<not> b \<le> a" by (auto simp: less_eq_TimerStamp_ext_def less_TimerStamp_ext_def)
  show "a \<le> a" by (simp add: less_eq_TimerStamp_ext_def)
  show "a \<le> b \<Longrightarrow> b \<le> c \<Longrightarrow> a \<le> c" by (auto simp: less_eq_TimerStamp_ext_def)
  show "a \<le> b \<Longrightarrow> b \<le> a \<Longrightarrow> a = b" by (auto simp: less_eq_TimerStamp_ext_def)
  show "a \<le> b \<or> b \<le> a" by (auto simp: less_eq_TimerStamp_ext_def)
qed

end

lemma TimerStamp_order:
  fixes a b :: TimerStamp
  shows "a < b \<longleftrightarrow> micro_seconds a < micro_seconds b" "a \<le> b \<longleftrightarrow> micro_seconds a \<le> micro_seconds b"
    "a < b \<longleftrightarrow> ts_less a b"
  by (auto simp: less_eq_TimerStamp_ext_def less_TimerStamp_ext_def ts_less_def)

text \<open>A \<open>double\<close> is the real number it stands for. The product of two of them is rounded; the rounding
  is an argument. The conversion to an integer truncates, and is undefined when the result is out of
  range.\<close>

type_synonym rounding = "real \<Rightarrow> real"

definition double_to_int64 :: "real \<Rightarrow> int result" where
  "double_to_int64 x = int64_expr (if 0 \<le> x then \<lfloor>x\<rfloor> else \<lceil>x\<rceil>)"

definition AddSec :: "rounding \<Rightarrow> TimerStamp \<Rightarrow> real \<Rightarrow> TimerStamp result" where
  "AddSec rnd t s =
     bindE (double_to_int64 (rnd (s * 1000000))) (\<lambda>d.
     bindE (int64_expr (micro_seconds t + d)) (\<lambda>us. Inr (TimerStamp_ctor us)))"

lemma AddSec_whole:
  assumes "\<And>n :: int. \<bar>n\<bar> \<le> 2 ^ 53 \<Longrightarrow> rnd (of_int n) = of_int n" "0 \<le> s" "s \<le> 1000000000"
    "0 \<le> micro_seconds t" "micro_seconds t \<le> 9000000000000000000"
  shows "AddSec rnd t (of_int s) = Inr (TimerStamp_ctor (micro_seconds t + s * 1000000))"
proof -
  have "rnd (of_int s * 1000000) = of_int (s * 1000000)"
    using assms(1) [of "s * 1000000"] assms(2,3) by simp
  moreover have "(of_int s * 1000000 :: real) \<ge> 0" using assms(2) by simp
  moreover have "\<lfloor>of_int (s * 1000000) :: real\<rfloor> = s * 1000000" by (rule floor_of_int)
  ultimately show ?thesis
    using assms(2-5) by (simp add: AddSec_def double_to_int64_def)
qed

end
