(* ===== verification/LogFile.thy ===== *)
theory LogFile
  imports TimerStamp
begin

text \<open>
  The log file of \<open>utils/LogFile.h\<close> and \<open>utils/LogFile.cpp\<close> (class \<open>LogFile\<close>). The stdio stream is
  the text it has accepted and how much of it was flushed; \<open>fopen\<close> is a predicate on paths, and the
  results of successive \<open>fwrite_unlocked\<close> calls are a list, so that short writes are covered.
\<close>

section \<open>The class\<close>

text \<open>\<open>lf_file\<close> is the path of the open file; the member \<open>path_\<close> is set by \<open>RollFile\<close> only.\<close>

record LogFile =
  lf_file :: string
  lf_path :: string
  lf_text :: string
  lf_flushed :: nat
  writtenBytes :: int
  lastFlush :: int
  lastWrite :: int

definition FlushInterval :: int where
  "FlushInterval = 3 * 1000000"

definition LogFile_ctor :: "(string \<Rightarrow> bool) \<Rightarrow> (int \<Rightarrow> tm) \<Rightarrow> TimerStamp \<Rightarrow> string \<Rightarrow> LogFile result" where
  "LogFile_ctor fopen localtime now path =
     (let opened = \<lambda>p. \<lparr>lf_file = p, lf_path = [], lf_text = [], lf_flushed = 0, writtenBytes = 0, lastFlush = 0, lastWrite = 0\<rparr>;
          DefaultPath = ''./LogFiles/LogFile_'' @ GetTimeString localtime now @ ''.log''
      in if fopen path then Inr (opened path)
         else bindE (assertE (fopen DefaultPath)) (\<lambda>_. Inr (opened DefaultPath)))"

definition LogFile_Flush :: "LogFile \<Rightarrow> LogFile" where
  "LogFile_Flush f = f\<lparr>lf_flushed := length (lf_text f)\<rparr>"

text \<open>The writing loop: each call accepts some prefix of what is left; \<open>None\<close> when the results given
  run out before everything is accepted.\<close>

fun write_loop :: "nat list \<Rightarrow> string \<Rightarrow> LogFile \<Rightarrow> LogFile option" where
  "write_loop ks s f =
     (if s = [] then Some f
      else (case ks of
              [] \<Rightarrow> None
            | k # ks' \<Rightarrow> let n = min k (length s)
                         in write_loop ks' (drop n s) (f\<lparr>lf_text := lf_text f @ take n s\<rparr>)))"

declare write_loop.simps [simp del]

definition LogFile_Write :: "nat list \<Rightarrow> TimerStamp \<Rightarrow> string \<Rightarrow> LogFile \<Rightarrow> LogFile option" where
  "LogFile_Write ks now logline f =
     (case write_loop ks logline f of
        None \<Rightarrow> None
      | Some f1 \<Rightarrow>
          let t = micro_seconds now;
              f2 = (if length logline \<noteq> 0
                    then f1\<lparr>lastWrite := t, writtenBytes := writtenBytes f1 + int (length logline)\<rparr>
                    else f1)
          in Some (if t - lastFlush f2 > FlushInterval
                   then (LogFile_Flush f2)\<lparr>lastFlush := t\<rparr> else f2))"

definition RollFile :: "(int \<Rightarrow> tm) \<Rightarrow> TimerStamp \<Rightarrow> LogFile \<Rightarrow> string \<times> LogFile" where
  "RollFile localtime now f =
     (let DefaultPath = ''../LogFiles/LogFile_'' @ GetTimeString localtime now @ ''.log''
      in (DefaultPath, f\<lparr>lf_path := DefaultPath\<rparr>))"

section \<open>Short writes\<close>

lemma write_loop_text:
  "write_loop ks s f = Some f' \<Longrightarrow> f' = f\<lparr>lf_text := lf_text f @ s\<rparr>"
proof (induction ks s f rule: write_loop.induct)
  case (1 ks s f)
  show ?case
  proof (cases "s = []")
    case False
    with 1 show ?thesis
      by (auto simp: write_loop.simps [of ks s] Let_def split: list.splits if_splits)
  qed (use 1 in \<open>simp add: write_loop.simps\<close>)
qed

text \<open>The results after which the loop has ended\<close>

lemma write_loop_ends:
  "\<forall>k \<in> set ks. 0 < k \<Longrightarrow> length s \<le> length ks \<Longrightarrow> \<exists>f'. write_loop ks s f = Some f'"
proof (induction ks s f rule: write_loop.induct)
  case (1 ks s f)
  show ?case
  proof (cases "s = [] \<or> ks = []")
    case True
    then show ?thesis using 1 by (auto simp: write_loop.simps)
  next
    case False
    then obtain k ks' where ks: "ks = k # ks'" by (cases ks) auto
    have "\<exists>f'. write_loop ks' (drop (min k (length s)) s) (f\<lparr>lf_text := lf_text f @ take (min k (length s)) s\<rparr>) = Some f'"
      using 1 False ks by (intro 1(1)) auto
    then show ?thesis using False by (simp add: ks write_loop.simps [of "k # ks'" s] Let_def)
  qed
qed

lemma LogFile_Write_text:
  "LogFile_Write ks now s f = Some f' \<Longrightarrow> lf_text f' = lf_text f @ s"
  by (auto simp: LogFile_Write_def LogFile_Flush_def Let_def split: option.splits if_splits dest!: write_loop_text)

lemma write_loop_one: "write_loop [length s] s f = Some (f\<lparr>lf_text := lf_text f @ s\<rparr>)"
  by (simp add: write_loop.simps)

lemma LogFile_Write_one: "\<exists>f'. LogFile_Write [length s] now s f = Some f' \<and> lf_text f' = lf_text f @ s"
  by (simp add: LogFile_Write_def write_loop_one LogFile_Flush_def Let_def)

section \<open>Properties of the log file\<close>

text \<open>\<open>Write\<close> puts the whole text into the file, in order, once, however short the writes of the
  system are: it ends as soon as every call makes progress, the text of the file grows by exactly the
  given text and the byte count by its length.\<close>

lemma LogFile_Write_whole:
  assumes "\<forall>k \<in> set ks. 0 < k" and "length s \<le> length ks"
  shows "\<exists>f'. LogFile_Write ks now s f = Some f' \<and> lf_text f' = lf_text f @ s
     \<and> writtenBytes f' = writtenBytes f + int (length s)"
proof -
  obtain f1 where f1: "write_loop ks s f = Some f1" using write_loop_ends [OF assms] by blast
  then have "f1 = f\<lparr>lf_text := lf_text f @ s\<rparr>" by (rule write_loop_text)
  with f1 show ?thesis by (simp add: LogFile_Write_def LogFile_Flush_def Let_def)
qed

lemma LogFile_Write_whole_witness:
  "\<exists>f'. LogFile_Write [2, 1, 5] \<lparr>micro_seconds = 7\<rparr> ''abc''
      \<lparr>lf_file = ''p'', lf_path = [], lf_text = ''x'', lf_flushed = 0, writtenBytes = 1, lastFlush = 0, lastWrite = 0\<rparr> = Some f'
     \<and> lf_text f' = ''xabc'' \<and> writtenBytes f' = 4"
  using LogFile_Write_whole [of "[2, 1, 5]" "''abc''" "\<lparr>micro_seconds = 7\<rparr>"
      "\<lparr>lf_file = ''p'', lf_path = [], lf_text = ''x'', lf_flushed = 0, writtenBytes = 1, lastFlush = 0, lastWrite = 0\<rparr>"]
  by simp

end
