(* ===== verification/LogStream.thy ===== *)
theory LogStream
  imports Buffer
begin

text \<open>
  The fixed buffer of \<open>utils/Buffer.h\<close> (class \<open>FixedBuffer\<close>) and the log stream that formats into
  it (\<open>utils/LogStream.h\<close>, \<open>utils/LogStream.cpp\<close>). A \<open>FixedBuffer\<close> is its array, whose length is
  the template argument, and the index of its current position. The theory shows that nothing is
  ever written outside the array, that text which does not fit is dropped whole, and what the
  integer formatter writes for every value of every width.
\<close>

section \<open>The fixed buffer\<close>

record FixedBuffer =
  fb_data :: "char list"
  fb_cur :: int

text \<open>The constructor leaves the array as the memory it is created in.\<close>

definition FixedBuffer_ctor :: "char list \<Rightarrow> FixedBuffer" where
  "FixedBuffer_ctor mem = \<lparr>fb_data = mem, fb_cur = 0\<rparr>"

definition fb_avail :: "FixedBuffer \<Rightarrow> int" where
  "fb_avail b = to_int32 (int (length (fb_data b)) - fb_cur b)"

definition fb_len :: "FixedBuffer \<Rightarrow> int" where
  "fb_len b = to_int32 (fb_cur b)"

definition fb_append :: "string \<Rightarrow> int \<Rightarrow> FixedBuffer \<Rightarrow> FixedBuffer result" where
  "fb_append str len b =
     (if fb_avail b > len
      then bindE (read_range 0 len str) (\<lambda>xs.
           bindE (write_range (fb_cur b) xs (fb_data b)) (\<lambda>d.
           Inr (b\<lparr>fb_data := d, fb_cur := fb_cur b + len\<rparr>)))
      else Inr b)"

definition fb_add :: "int \<Rightarrow> FixedBuffer \<Rightarrow> FixedBuffer" where
  "fb_add len b = b\<lparr>fb_cur := fb_cur b + len\<rparr>"

definition fb_clear :: "FixedBuffer \<Rightarrow> FixedBuffer" where
  "fb_clear b = b\<lparr>fb_data := replicate (length (fb_data b)) NUL\<rparr>"

definition fb_reset :: "FixedBuffer \<Rightarrow> FixedBuffer" where
  "fb_reset b = (fb_clear b)\<lparr>fb_cur := 0\<rparr>"

definition kBufferSize :: nat where "kBufferSize = 4096"
definition kLargeBufferSize :: nat where "kLargeBufferSize = 4096 * 1000"
definition kMaxNumSize :: int where "kMaxNumSize = 48"

text \<open>What a caller of \<open>data()\<close> and \<open>len()\<close> reads\<close>

definition fb_read :: "FixedBuffer \<Rightarrow> string result" where
  "fb_read b = read_range 0 (fb_len b) (fb_data b)"

text \<open>The invariant, the text written so far and the room left\<close>

definition fb_inv :: "nat \<Rightarrow> FixedBuffer \<Rightarrow> bool" where
  "fb_inv n b \<longleftrightarrow> length (fb_data b) = n \<and> 0 \<le> fb_cur b \<and> fb_cur b \<le> int n \<and> int n \<le> INT_MAX"

definition fb_text :: "FixedBuffer \<Rightarrow> string" where
  "fb_text b = take (nat (fb_cur b)) (fb_data b)"

lemma fb_inv_ctor: "int (length mem) \<le> INT_MAX \<Longrightarrow> fb_inv (length mem) (FixedBuffer_ctor mem)"
  by (simp add: fb_inv_def FixedBuffer_ctor_def)

lemma fb_text_ctor [simp]: "fb_text (FixedBuffer_ctor mem) = []"
  by (simp add: fb_text_def FixedBuffer_ctor_def)

lemma fb_inv_reset [simp]: "fb_inv n b \<Longrightarrow> fb_inv n (fb_reset b)"
  by (simp add: fb_inv_def fb_reset_def fb_clear_def)

lemma fb_text_reset [simp]: "fb_text (fb_reset b) = []"
  by (simp add: fb_text_def fb_reset_def)

lemma fb_avail_eq: "fb_inv n b \<Longrightarrow> fb_avail b = int n - int (length (fb_text b))"
  by (auto simp: fb_inv_def fb_avail_def fb_text_def min_def)

lemma fb_read_eq: "fb_inv n b \<Longrightarrow> fb_read b = Inr (fb_text b)"
  by (simp add: fb_inv_def fb_read_def fb_len_def fb_text_def slice_full_prefix)

text \<open>The text fits when it leaves at least one character free\<close>

definition fits :: "nat \<Rightarrow> FixedBuffer \<Rightarrow> string \<Rightarrow> bool" where
  "fits n b s \<longleftrightarrow> length (fb_text b) + length s < n"

lemma fb_write:
  assumes "fb_inv n b" and "length (fb_text b) + length s \<le> n"
  shows "\<exists>d. write_range (fb_cur b) s (fb_data b) = Inr d
     \<and> fb_inv n (b\<lparr>fb_data := d, fb_cur := fb_cur b + int (length s)\<rparr>)
     \<and> fb_text (b\<lparr>fb_data := d, fb_cur := fb_cur b + int (length s)\<rparr>) = fb_text b @ s"
proof -
  obtain c where c: "fb_cur b = int c" "c \<le> n" "n = length (fb_data b)" "int n \<le> INT_MAX"
    using assms(1) by (metis fb_inv_def nonneg_int_cases of_nat_le_iff)
  then have room: "c + length s \<le> n" using assms(2) by (simp add: fb_text_def)
  have n: "nat (int c + int (length s)) = c + length s" by simp
  show ?thesis
    using c room by (simp add: write_range_def fb_inv_def fb_text_def n)
qed

lemma fb_append_spec:
  assumes "fb_inv n b" and "int (length s) = len"
  shows "\<exists>b'. fb_append s len b = Inr b' \<and> fb_inv n b'
     \<and> fb_text b' = fb_text b @ (if fits n b s then s else [])"
proof (cases "fits n b s")
  case True
  then have "length (fb_text b) + length s \<le> n" "fb_avail b > len"
    using assms fb_avail_eq [OF assms(1)] by (simp_all add: fits_def)
  moreover have "slice 0 len s = s" using assms(2) by (simp add: slice_def)
  ultimately show ?thesis
    using fb_write [OF assms(1), of s] assms(2) True by (auto simp: fb_append_def)
next
  case False
  then show ?thesis
    using assms fb_avail_eq [OF assms(1)] by (simp add: fits_def fb_append_def)
qed

section \<open>Integers\<close>

text \<open>
  The loop of \<open>formatInteger\<close>: \<open>%\<close> and \<open>/\<close> truncate towards zero, and the characters come out last
  digit first. The second component is the value when the loop ends.
\<close>

function digits_loop :: "int \<Rightarrow> string \<times> int" where
  "digits_loop v =
     (let c = char_of (v smod 10 + 48); v' = v sdiv 10
      in if v' \<noteq> 0 then (let (cs, w) = digits_loop v' in (c # cs, w)) else ([c], v'))"
  by pat_completeness auto
termination
  by (relation "measure (\<lambda>v. nat \<bar>v\<bar>)") (auto simp: signed_divide_int_def abs_mult sgn_if)

declare digits_loop.simps [simp del]

definition formatInteger :: "int \<Rightarrow> FixedBuffer \<Rightarrow> FixedBuffer result" where
  "formatInteger value b =
     (if fb_avail b \<ge> kMaxNumSize
      then (let (digits, rest) = digits_loop value;
                chars = (if rest < 0 then digits @ ''-'' else digits)
            in bindE (write_range (fb_cur b) (rev chars) (fb_data b)) (\<lambda>d.
               Inr (fb_add (int (length chars)) (b\<lparr>fb_data := d\<rparr>))))
      else Inr b)"

text \<open>The digits as the formatter writes them: for a negative value the remainder is negative, and
  the character is as far below \<open>0\<close> as the digit is above it.\<close>

definition mirror :: "char \<Rightarrow> char" where
  "mirror c = char_of (96 - of_char c :: int)"

definition int_text :: "int \<Rightarrow> string" where
  "int_text v = (if 0 \<le> v then num_str 10 (nat v) else map mirror (num_str 10 (nat (- v))))"

lemma digit_char_int: "d < 10 \<Longrightarrow> digit_char d = char_of (int d + 48)"
proof -
  assume "d < 10"
  then have "digit_char d = char_of (48 + d)" by (simp add: digit_char_def)
  also have "\<dots> = char_of (int (48 + d))" by (simp only: char_of_nat)
  finally show ?thesis by (simp add: add.commute)
qed

lemma mirror_digit: "d < 10 \<Longrightarrow> mirror (digit_char d) = char_of (48 - int d)"
  by (simp add: mirror_def digit_char_int)

lemma digits_loop_pos: "digits_loop (int n) = (rev (num_str 10 n), 0)"
proof (induction n rule: less_induct)
  case (less n)
  have m: "int n smod 10 = int (n mod 10)" "int n sdiv 10 = int (n div 10)"
    by (simp_all add: signed_modulo_int_def signed_divide_int_def sgn_if zdiv_int zmod_int)
  have c: "char_of (int (n mod 10) + 48) = digit_char (n mod 10)"
    by (rule digit_char_int [symmetric]) simp
  show ?case
  proof (cases "n < 10")
    case True
    then show ?thesis
      using c by (simp add: digits_loop.simps [of "int n"] m Let_def num_str_unfold [of n])
  next
    case False
    then have "n div 10 \<noteq> 0" "n div 10 < n" by (simp_all add: div_eq_0_iff)
    then show ?thesis
      using less [of "n div 10"] c False
      by (simp add: digits_loop.simps [of "int n"] m Let_def num_str_unfold [of n] del: of_nat_div)
  qed
qed

lemma digits_loop_neg: "0 < n \<Longrightarrow> digits_loop (- int n) = (rev (map mirror (num_str 10 n)), 0)"
proof (induction n rule: less_induct)
  case (less n)
  have m: "int n smod 10 = int (n mod 10)" "int n sdiv 10 = int (n div 10)"
    by (simp_all add: signed_modulo_int_def signed_divide_int_def sgn_if zdiv_int zmod_int)
  have c: "char_of (48 - int (n mod 10)) = mirror (digit_char (n mod 10))"
    by (rule mirror_digit [symmetric]) simp
  show ?case
  proof (cases "n < 10")
    case True
    then show ?thesis
      using c by (simp add: digits_loop.simps [of "- int n"] m Let_def num_str_unfold [of n])
  next
    case False
    then have "0 < n div 10" "n div 10 < n" by (simp_all add: div_greater_zero_iff)
    then show ?thesis
      using less.IH [of "n div 10"] c False
      by (simp add: digits_loop.simps [of "- int n"] m Let_def num_str_unfold [of n] del: of_nat_div)
  qed
qed

lemma digits_loop_eq: "digits_loop v = (rev (int_text v), 0)"
proof (cases "0 \<le> v")
  case True
  then show ?thesis using digits_loop_pos [of "nat v"] by (simp add: int_text_def)
next
  case False
  then show ?thesis using digits_loop_neg [of "nat (- v)"] by (simp add: int_text_def)
qed

lemma length_int_text: "\<bar>v\<bar> < 10 ^ 20 \<Longrightarrow> length (int_text v) \<le> 20"
proof -
  assume "\<bar>v\<bar> < 10 ^ 20"
  then have "nat \<bar>v\<bar> < 10 ^ 20" by (simp add: nat_less_iff)
  then show ?thesis using length_num_str [of _ 20] by (auto simp: int_text_def)
qed

text \<open>An integer of at most 64 bits needs at most 20 characters, so 48 free ones are room enough.\<close>

lemma formatInteger_spec:
  assumes "fb_inv n b" and "\<bar>v\<bar> < 10 ^ 20"
  shows "\<exists>b'. formatInteger v b = Inr b' \<and> fb_inv n b'
     \<and> fb_text b' = fb_text b @ (if length (fb_text b) + 48 \<le> n then int_text v else [])"
proof (cases "length (fb_text b) + 48 \<le> n")
  case True
  then have a: "fb_avail b \<ge> kMaxNumSize" and "length (fb_text b) + length (int_text v) \<le> n"
    using fb_avail_eq [OF assms(1)] length_int_text [OF assms(2)] by (simp_all add: kMaxNumSize_def)
  from fb_write [OF assms(1) this(2)] a True show ?thesis
    by (auto simp: formatInteger_def digits_loop_eq fb_add_def)
next
  case False
  then show ?thesis
    using fb_avail_eq [OF assms(1)] assms(1) by (simp add: formatInteger_def kMaxNumSize_def)
qed

section \<open>The stream\<close>

text \<open>
  A \<open>LogStream\<close> is its buffer of \<open>kBufferSize\<close> characters. One definition per overload of
  \<open>operator<<\<close>; a \<open>char *\<close> is the text from there on, or \<open>None\<close> for the null pointer. The text
  \<open>snprintf\<close> makes of a \<open>double\<close> (format \<open>%g\<close>) is a parameter, as is the conversion of a \<open>float\<close>.
\<close>

type_synonym LogStream = FixedBuffer

definition LogStream_append :: "string \<Rightarrow> int \<Rightarrow> LogStream \<Rightarrow> LogStream result" where
  "LogStream_append dat len s = fb_append dat len s"

definition put_bool :: "bool \<Rightarrow> LogStream \<Rightarrow> LogStream result" where
  "put_bool v s = fb_append (if v then ''1'' else ''0'') 1 s"

definition put_string :: "string \<Rightarrow> LogStream \<Rightarrow> LogStream result" where
  "put_string v s = fb_append v (to_int32 (int (length v))) s"

definition put_int :: "32 word \<Rightarrow> LogStream \<Rightarrow> LogStream result" where
  "put_int num s = formatInteger (sint num) s"

definition put_uint :: "32 word \<Rightarrow> LogStream \<Rightarrow> LogStream result" where
  "put_uint num s = formatInteger (uint num) s"

definition put_short :: "16 word \<Rightarrow> LogStream \<Rightarrow> LogStream result" where
  "put_short num s = put_int (scast num) s"

definition put_ushort :: "16 word \<Rightarrow> LogStream \<Rightarrow> LogStream result" where
  "put_ushort num s = put_uint (ucast num) s"

definition put_long :: "64 word \<Rightarrow> LogStream \<Rightarrow> LogStream result" where
  "put_long num s = formatInteger (sint num) s"

definition put_ulong :: "64 word \<Rightarrow> LogStream \<Rightarrow> LogStream result" where
  "put_ulong num s = formatInteger (uint num) s"

definition put_char :: "char \<Rightarrow> LogStream \<Rightarrow> LogStream result" where
  "put_char v s = fb_append [v] 1 s"

definition put_cstr :: "string option \<Rightarrow> LogStream \<Rightarrow> LogStream result" where
  "put_cstr str s =
     (case str of Some t \<Rightarrow> fb_append t (to_int32 (int (strlen t))) s
      | None \<Rightarrow> fb_append ''(null)'' 6 s)"

definition put_double :: "('d \<Rightarrow> string) \<Rightarrow> 'd \<Rightarrow> LogStream \<Rightarrow> LogStream result" where
  "put_double fmt_g num s = (let text = fmt_g num in fb_append text (to_int32 (int (length text))) s)"

definition put_float :: "('d \<Rightarrow> string) \<Rightarrow> ('f \<Rightarrow> 'd) \<Rightarrow> 'f \<Rightarrow> LogStream \<Rightarrow> LogStream result" where
  "put_float fmt_g to_double num s = put_double fmt_g (to_double num) s"

text \<open>\<open>Template\<close> is a text with the number of characters to take from it, \<open>Fmt\<close> the text
  \<open>snprintf\<close> made, which must be shorter than its array of 32.\<close>

record Template =
  t_str :: string
  t_len :: int

record Fmt =
  fmt_buf :: string
  fmt_length :: int

definition Fmt_ctor :: "string \<Rightarrow> Fmt result" where
  "Fmt_ctor text =
     bindE (assertE (length text < 32)) (\<lambda>_.
     Inr \<lparr>fmt_buf = text, fmt_length = int (length text)\<rparr>)"

definition put_template :: "Template \<Rightarrow> LogStream \<Rightarrow> LogStream result" where
  "put_template v s = fb_append (t_str v) (t_len v) s"

definition put_fmt :: "Fmt \<Rightarrow> LogStream \<Rightarrow> LogStream result" where
  "put_fmt f s = fb_append (fmt_buf f) (fmt_length f) s"

lemma sint_small: "\<bar>sint (w :: 'a::len word)\<bar> < 10 ^ 20" if "LENGTH('a) \<le> 64"
proof -
  have "(2::int) ^ (LENGTH('a) - 1) \<le> 2 ^ 63" using that by (intro power_increasing) auto
  moreover have "- (2 ^ (LENGTH('a) - 1)) \<le> sint w" "sint w < 2 ^ (LENGTH('a) - 1)"
    using sint_greater_eq [of w] sint_less [of w] by simp_all
  ultimately show ?thesis by (simp add: abs_le_iff)
qed

lemma uint_small: "\<bar>uint (w :: 'a::len word)\<bar> < 10 ^ 20" if "LENGTH('a) \<le> 64"
proof -
  have "(2::int) ^ LENGTH('a) \<le> 2 ^ 64" using that by (intro power_increasing) auto
  moreover have "uint w < 2 ^ LENGTH('a)" by (rule uint_lt2p)
  ultimately have "uint w < 2 ^ 64" by linarith
  then show ?thesis by simp
qed

section \<open>Properties of the log stream\<close>



text \<open>A negative \<open>int\<close> is not written in decimal: the sign is lost (it is tested after the loop has
  made the value zero) and each digit \<open>d\<close> comes out as the character \<open>d\<close> below \<open>0\<close>, because the
  remainder of a negative number is negative; the result is never the decimal text of the number.\<close>

lemma put_int_negative_garbled:
  assumes "fb_inv n s" and "length (fb_text s) + 48 \<le> n" and "sint w < 0"
  shows "\<exists>s'. put_int w s = Inr s' \<and> fb_inv n s'
     \<and> fb_text s' = fb_text s @ map mirror (to_string (nat (- sint w)))
     \<and> fb_text s' \<noteq> fb_text s @ to_string_int (sint w)"
proof -
  have "length (map mirror (to_string (nat (- sint w)))) \<noteq> length (to_string_int (sint w))"
    using assms(3) by (simp add: to_string_int_def)
  then have "map mirror (to_string (nat (- sint w))) \<noteq> to_string_int (sint w)" by metis
  then show ?thesis
    using formatInteger_spec [OF assms(1), of "sint w"] sint_small [of w] assms(2,3)
    by (auto simp: put_int_def to_string_def int_text_def)
qed

lemma put_int_negative_garbled_witness:
  "\<exists>s'. put_int (- 15) (FixedBuffer_ctor (replicate 100 NUL)) = Inr s' \<and> fb_text s' = ''/+''"
proof -
  have "map mirror (to_string 15) = ''/+''" by code_simp
  then show ?thesis
    using put_int_negative_garbled [OF fb_inv_ctor, of "replicate 100 NUL" "- 15"] by auto
qed

text \<open>A string is written whole or not at all: it is appended when at least one character stays
  free after it, dropped silently otherwise, and in both cases nothing outside the array is touched.\<close>

lemma put_string_whole_or_dropped:
  assumes "fb_inv n s" and "int (length v) \<le> INT_MAX"
  shows "\<exists>s'. put_string v s = Inr s' \<and> fb_inv n s'
     \<and> fb_text s' = fb_text s @ (if length (fb_text s) + length v < n then v else [])"
  using fb_append_spec [OF assms(1), of v "int (length v)"] assms(2)
  by (simp add: put_string_def fits_def)

lemma put_string_whole_or_dropped_witness:
  "\<exists>s'. put_string ''abc'' (FixedBuffer_ctor (replicate 3 NUL)) = Inr s' \<and> fb_text s' = []"
  using put_string_whole_or_dropped [OF fb_inv_ctor, of "replicate 3 NUL" "''abc''"] by auto

end
