(* ===== verification/AsyncLogger.thy ===== *)
theory AsyncLogger
  imports LogFile LogStream
begin

text \<open>
  The asynchronous logger of \<open>utils/AsyncLogger.h\<close> and \<open>utils/AsyncLogger.cpp\<close> (class
  \<open>AsyncLogger\<close>): front threads append lines to a current buffer under a mutex, a back thread takes
  the filled buffers and writes them to the log file. The sections under the mutex and the sections
  between them are the atomic steps, and a run is any interleaving of the steps of the front
  threads with those of the back thread. The theory shows when each line reaches the file exactly
  once and in order, and what happens when it does not.
\<close>

section \<open>State\<close>

text \<open>Where the back thread is: not started, at the test of \<open>running_\<close>, waiting for or inside the
  critical section, writing, or returned\<close>

datatype al_pc = Not_started | At_test | Waiting | Writing | Returned

record AsyncLogger =
  running :: bool
  logFile :: LogFile
  closedFiles :: "LogFile list"
  al_buffer :: "FixedBuffer option"
  nextBuffer :: "FixedBuffer option"
  buffers :: "FixedBuffer list"
  al_pc :: al_pc
  active_buffers :: "FixedBuffer list"
  new_current :: "FixedBuffer option"
  new_next :: "FixedBuffer option"

text \<open>What the system provides: which paths can be opened, the calendar, the clock at the step, and
  the memory a new buffer is created in\<close>

record al_env =
  env_fopen :: "string \<Rightarrow> bool"
  env_localtime :: "int \<Rightarrow> tm"
  env_now :: TimerStamp
  env_mem :: "char list"

definition LoggerFileMaxSize :: int where
  "LoggerFileMaxSize = 1024 * 1024 * 1024"

definition new_buffer :: "al_env \<Rightarrow> FixedBuffer" where
  "new_buffer e = FixedBuffer_ctor (env_mem e)"

text \<open>Use of a \<open>unique_ptr\<close>: a null one must not be dereferenced.\<close>

definition deref :: "'a option \<Rightarrow> 'a result" where
  "deref p = (case p of Some x \<Rightarrow> Inr x | None \<Rightarrow> Inl Undefined_behaviour)"

lemma deref_Some [simp]: "deref (Some x) = Inr x"
  by (simp add: deref_def)

definition AsyncLogger_ctor :: "al_env \<Rightarrow> string \<Rightarrow> AsyncLogger result" where
  "AsyncLogger_ctor e path =
     bindE (LogFile_ctor (env_fopen e) (env_localtime e) (env_now e) path) (\<lambda>f.
     Inr \<lparr>running = False, logFile = f, closedFiles = [],
          al_buffer = Some (new_buffer e), nextBuffer = Some (new_buffer e), buffers = [],
          al_pc = Not_started, active_buffers = [], new_current = None, new_next = None\<rparr>)"

section \<open>The steps\<close>

definition Append :: "al_env \<Rightarrow> string \<Rightarrow> AsyncLogger \<Rightarrow> AsyncLogger result" where
  "Append e line a =
     (let len = to_int32 (int (length line)) in
      bindE (deref (al_buffer a)) (\<lambda>b.
      if fb_avail b > len then
        bindE (fb_append line len b) (\<lambda>b'. Inr (a\<lparr>al_buffer := Some b'\<rparr>))
      else
        (let a1 = a\<lparr>buffers := buffers a @ [b], al_buffer := None\<rparr>;
             a2 = (case nextBuffer a1 of
                     Some nb \<Rightarrow> a1\<lparr>al_buffer := Some nb, nextBuffer := None\<rparr>
                   | None \<Rightarrow> a1\<lparr>al_buffer := Some (new_buffer e)\<rparr>)
         in bindE (deref (al_buffer a2)) (\<lambda>b2.
            bindE (fb_append line len b2) (\<lambda>b'. Inr (a2\<lparr>al_buffer := Some b'\<rparr>))))))"

definition Start :: "al_env \<Rightarrow> AsyncLogger \<Rightarrow> AsyncLogger result" where
  "Start e a =
     Inr (a\<lparr>running := True, al_pc := At_test, active_buffers := [],
            new_current := Some (new_buffer e), new_next := Some (new_buffer e)\<rparr>)"

text \<open>\<open>Stop\<close> up to its \<open>join\<close>\<close>

definition Stop :: "AsyncLogger \<Rightarrow> AsyncLogger result" where
  "Stop a = Inr (a\<lparr>running := False\<rparr>)"

definition Enter :: "AsyncLogger \<Rightarrow> AsyncLogger result" where
  "Enter a = Inr (a\<lparr>al_pc := Waiting\<rparr>)"

text \<open>The critical section of \<open>ThreadFunc\<close>, reached after a notification or a timeout\<close>

definition Swap :: "AsyncLogger \<Rightarrow> AsyncLogger result" where
  "Swap a =
     bindE (deref (al_buffer a)) (\<lambda>b.
     let a1 = a\<lparr>active_buffers := buffers a @ [b], buffers := active_buffers a, al_buffer := None\<rparr>;
         a2 = (case new_current a1 of
                 Some nb \<Rightarrow> a1\<lparr>al_buffer := Some (fb_reset nb), new_current := None\<rparr>
               | None \<Rightarrow> a1);
         a3 = (case (nextBuffer a2, new_next a2) of
                 (None, Some nb) \<Rightarrow> a2\<lparr>nextBuffer := Some (fb_reset nb), new_next := None\<rparr>
               | _ \<Rightarrow> a2)
     in Inr (a3\<lparr>al_pc := Writing\<rparr>))"

text \<open>One \<open>Write\<close> of the log file with a stdio that accepts everything; the loop for short writes is
  treated in the theory of the log file.\<close>

definition write_buffer :: "TimerStamp \<Rightarrow> FixedBuffer \<Rightarrow> LogFile \<Rightarrow> LogFile result" where
  "write_buffer now b f =
     bindE (fb_read b) (\<lambda>s.
     case LogFile_Write [length s] now s f of Some f' \<Rightarrow> Inr f' | None \<Rightarrow> Inl Undefined_behaviour)"

definition roll :: "al_env \<Rightarrow> AsyncLogger \<Rightarrow> AsyncLogger result" where
  "roll e a =
     (if writtenBytes (logFile a) > LoggerFileMaxSize
      then (let (newFilePath, f) = RollFile (env_localtime e) (env_now e) (logFile a)
            in bindE (LogFile_ctor (env_fopen e) (env_localtime e) (env_now e) newFilePath) (\<lambda>f'.
               Inr (a\<lparr>closedFiles := closedFiles a @ [LogFile_Flush f], logFile := f'\<rparr>)))
      else Inr a)"

text \<open>Reusing one written buffer: the last one, or a new one when there is none\<close>

definition reuse :: "al_env \<Rightarrow> FixedBuffer list \<Rightarrow> FixedBuffer \<times> FixedBuffer list" where
  "reuse e bs = (if bs \<noteq> [] then (fb_reset (last bs), butlast bs) else (new_buffer e, []))"

definition Write_round :: "al_env \<Rightarrow> AsyncLogger \<Rightarrow> AsyncLogger result" where
  "Write_round e a =
     bindE (foldE (write_buffer (env_now e)) (active_buffers a) (logFile a)) (\<lambda>f.
     bindE (roll e (a\<lparr>logFile := f\<rparr>)) (\<lambda>a1.
     let (cur, bs1) = reuse e (active_buffers a1);
         (nxt, bs2) = reuse e bs1
     in Inr (a1\<lparr>active_buffers := bs2, new_current := Some cur, new_next := Some nxt, al_pc := At_test\<rparr>)))"

text \<open>After the loop: what is left is written out.\<close>

definition Drain :: "al_env \<Rightarrow> AsyncLogger \<Rightarrow> AsyncLogger result" where
  "Drain e a =
     bindE (foldE (write_buffer (env_now e)) (buffers a) (logFile a)) (\<lambda>f.
     let a1 = a\<lparr>logFile := f, buffers := map fb_reset (buffers a)\<rparr>
     in bindE (case al_buffer a1 of
                 Some b \<Rightarrow> bindE (write_buffer (env_now e) b (logFile a1)) (\<lambda>f2.
                            Inr (a1\<lparr>logFile := f2, al_buffer := Some (fb_reset b)\<rparr>))
               | None \<Rightarrow> Inr a1) (\<lambda>a2.
        Inr (a2\<lparr>logFile := LogFile_Flush (logFile a2), al_pc := Returned\<rparr>)))"

definition Flush :: "AsyncLogger \<Rightarrow> AsyncLogger result" where
  "Flush a = Inr (a\<lparr>logFile := LogFile_Flush (logFile a)\<rparr>)"

text \<open>The steps; \<open>S_Swap\<close> says how many buffers the critical section takes.\<close>

datatype al_step = S_Append string | S_Start | S_Stop | S_Enter | S_Swap nat | S_Write | S_Drain | S_Flush

fun enabled :: "al_step \<Rightarrow> AsyncLogger \<Rightarrow> bool" where
  "enabled (S_Append line) a = True"
| "enabled S_Start a = (al_pc a = Not_started)"
| "enabled S_Stop a = running a"
| "enabled S_Enter a = (al_pc a = At_test \<and> running a)"
| "enabled (S_Swap n) a = (al_pc a = Waiting \<and> n = length (buffers a) + 1)"
| "enabled S_Write a = (al_pc a = Writing)"
| "enabled S_Drain a = (al_pc a = At_test \<and> \<not> running a)"
| "enabled S_Flush a = True"

fun al_exec :: "al_env \<Rightarrow> al_step \<Rightarrow> AsyncLogger \<Rightarrow> AsyncLogger result" where
  "al_exec e (S_Append line) a = Append e line a"
| "al_exec e S_Start a = Start e a"
| "al_exec e S_Stop a = Stop a"
| "al_exec e S_Enter a = Enter a"
| "al_exec e (S_Swap n) a = Swap a"
| "al_exec e S_Write a = Write_round e a"
| "al_exec e S_Drain a = Drain e a"
| "al_exec e S_Flush a = Flush a"

text \<open>A run: each step with the system as it is then\<close>

inductive al_run :: "AsyncLogger \<Rightarrow> (al_env \<times> al_step) list \<Rightarrow> AsyncLogger \<Rightarrow> bool" where
  al_nil: "al_run a [] a"
| al_snoc: "al_run a ls a1 \<Longrightarrow> enabled l a1 \<Longrightarrow> al_exec e l a1 = Inr a2 \<Longrightarrow> al_run a (ls @ [(e, l)]) a2"

inductive_cases al_run_snocE: "al_run a (ls @ [x]) a2"

section \<open>Invariant\<close>

definition env_ok :: "nat \<Rightarrow> al_env \<Rightarrow> bool" where
  "env_ok n e \<longleftrightarrow> length (env_mem e) = n \<and> 0 < n \<and> int n \<le> INT_MAX \<and> (\<forall>p. env_fopen e p)"

text \<open>All buffers are well-formed, the current one is there, the spare one is empty, and the back
  thread has both of its spares when it is not writing.\<close>

definition al_inv :: "nat \<Rightarrow> AsyncLogger \<Rightarrow> bool" where
  "al_inv n a \<longleftrightarrow>
     (\<exists>b. al_buffer a = Some b \<and> fb_inv n b)
     \<and> (\<forall>b. nextBuffer a = Some b \<longrightarrow> fb_inv n b \<and> fb_text b = [])
     \<and> (\<forall>b \<in> set (buffers a). fb_inv n b) \<and> (\<forall>b \<in> set (active_buffers a). fb_inv n b)
     \<and> (\<forall>b. new_current a = Some b \<longrightarrow> fb_inv n b) \<and> (\<forall>b. new_next a = Some b \<longrightarrow> fb_inv n b)
     \<and> (al_pc a = At_test \<or> al_pc a = Waiting \<longrightarrow> new_current a \<noteq> None \<and> new_next a \<noteq> None)"

definition file_text :: "AsyncLogger \<Rightarrow> string" where
  "file_text a = concat (map lf_text (closedFiles a)) @ lf_text (logFile a)"

definition waiting_text :: "AsyncLogger \<Rightarrow> string" where
  "waiting_text a = concat (map fb_text (buffers a)) @ (case al_buffer a of Some b \<Rightarrow> fb_text b | None \<Rightarrow> [])"

definition active_text :: "AsyncLogger \<Rightarrow> string" where
  "active_text a = (if al_pc a = Writing then concat (map fb_text (active_buffers a)) else [])"

lemma new_buffer_ok: "env_ok n e \<Longrightarrow> fb_inv n (new_buffer e)" "fb_text (new_buffer e) = []"
  using fb_inv_ctor [of "env_mem e"] by (auto simp: env_ok_def new_buffer_def)

lemma Append_spec:
  assumes "al_inv n a" "env_ok n e" and "int (length line) \<le> INT_MAX"
  shows "\<exists>a'. Append e line a = Inr a' \<and> al_inv n a' \<and> al_pc a' = al_pc a
     \<and> active_buffers a' = active_buffers a \<and> file_text a' = file_text a
     \<and> waiting_text a' = waiting_text a @ (if length line < n then line else [])"
proof -
  from assms(1) obtain b where b: "al_buffer a = Some b" "fb_inv n b" by (auto simp: al_inv_def)
  have len: "to_int32 (int (length line)) = int (length line)" using assms(3) by simp
  show ?thesis
  proof (cases "fits n b line")
    case True
    then obtain b' where b': "fb_append line (int (length line)) b = Inr b'" "fb_inv n b'"
        "fb_text b' = fb_text b @ line"
      using fb_append_spec [OF b(2), of line] by auto
    have "fb_avail b > int (length line)" "length line < n"
      using True fb_avail_eq [OF b(2)] by (simp_all add: fits_def)
    then show ?thesis
      using assms(1) b b'
      by (simp add: Append_def len al_inv_def file_text_def waiting_text_def)
  next
    case False
    then have full: "\<not> fb_avail b > int (length line)"
      using fb_avail_eq [OF b(2)] by (simp add: fits_def)
    define b2 where "b2 = (case nextBuffer a of Some nb \<Rightarrow> nb | None \<Rightarrow> new_buffer e)"
    have b2: "fb_inv n b2" "fb_text b2 = []"
      using assms(1) new_buffer_ok(1) [OF assms(2)] new_buffer_ok(2) by (auto simp: b2_def al_inv_def split: option.splits)
    obtain b' where b': "fb_append line (int (length line)) b2 = Inr b'" "fb_inv n b'"
        "fb_text b' = (if length line < n then line else [])"
      using fb_append_spec [OF b2(1), of line] b2(2) by (auto simp: fits_def)
    show ?thesis
    proof (cases "nextBuffer a")
      case None
      show ?thesis
        by (rule exI [of _ "a\<lparr>buffers := buffers a @ [b], al_buffer := Some b'\<rparr>"])
          (use assms(1) b b' full None in
            \<open>simp add: Append_def len al_inv_def file_text_def waiting_text_def b2_def\<close>)
    next
      case (Some nb)
      show ?thesis
        by (rule exI [of _ "a\<lparr>buffers := buffers a @ [b], al_buffer := Some b', nextBuffer := None\<rparr>"])
          (use assms(1) b b' full Some in
            \<open>simp add: Append_def len al_inv_def file_text_def waiting_text_def b2_def\<close>)
    qed
  qed
qed

lemma write_buffer_spec:
  assumes "fb_inv n b"
  shows "\<exists>f'. write_buffer now b f = Inr f' \<and> lf_text f' = lf_text f @ fb_text b"
  using LogFile_Write_one [of "fb_text b" now f] fb_read_eq [OF assms]
  by (auto simp: write_buffer_def)

lemma write_buffers_spec:
  assumes "\<forall>b \<in> set bs. fb_inv n b"
  shows "\<exists>f'. foldE (write_buffer now) bs f = Inr f' \<and> lf_text f' = lf_text f @ concat (map fb_text bs)"
  using assms
proof (induction bs arbitrary: f)
  case (Cons b bs)
  then obtain f1 where f1: "write_buffer now b f = Inr f1" "lf_text f1 = lf_text f @ fb_text b"
    using write_buffer_spec [of n b now f] by auto
  moreover obtain f2 where "foldE (write_buffer now) bs f1 = Inr f2"
      "lf_text f2 = lf_text f1 @ concat (map fb_text bs)"
    using Cons by auto
  ultimately show ?case by simp
qed simp

lemma roll_spec:
  assumes "env_ok n e"
  shows "\<exists>f cs. roll e a = Inr (a\<lparr>closedFiles := cs, logFile := f\<rparr>)
     \<and> concat (map lf_text cs) @ lf_text f = concat (map lf_text (closedFiles a)) @ lf_text (logFile a)"
proof (cases "writtenBytes (logFile a) > LoggerFileMaxSize")
  case True
  then show ?thesis
    using assms
    by (auto simp: roll_def RollFile_def LogFile_ctor_def env_ok_def LogFile_Flush_def Let_def intro!: exI)
next
  case False
  then show ?thesis by (intro exI [of _ "logFile a"] exI [of _ "closedFiles a"]) (simp add: roll_def)
qed

lemma reuse_ok:
  assumes "\<forall>b \<in> set bs. fb_inv n b" "env_ok n e" and "reuse e bs = (b, bs')"
  shows "fb_inv n b" "bs' = butlast bs" "\<forall>b \<in> set bs'. fb_inv n b"
  using assms new_buffer_ok(1) [OF assms(2)]
  by (auto simp: reuse_def split: if_splits dest: in_set_butlastD)

lemma Swap_spec:
  assumes "al_inv n a" and "al_pc a = Waiting"
  shows "\<exists>a' b. Swap a = Inr a' \<and> al_inv n a' \<and> al_pc a' = Writing \<and> al_buffer a = Some b
     \<and> active_buffers a' = buffers a @ [b] \<and> file_text a' = file_text a \<and> buffers a' = active_buffers a
     \<and> waiting_text a' = concat (map fb_text (active_buffers a)) \<and> active_text a' = waiting_text a"
proof -
  obtain b c x where b: "al_buffer a = Some b" "new_current a = Some c" "new_next a = Some x"
      "fb_inv n b" "fb_inv n c" "fb_inv n x"
    using assms by (auto simp: al_inv_def)
  show ?thesis
  proof (cases "nextBuffer a")
    case None
    show ?thesis
      by (intro exI [of _ "a\<lparr>active_buffers := buffers a @ [b], buffers := active_buffers a,
             al_buffer := Some (fb_reset c), new_current := None, nextBuffer := Some (fb_reset x),
             new_next := None, al_pc := Writing\<rparr>"] exI [of _ b])
        (use assms b None in \<open>simp add: Swap_def al_inv_def file_text_def waiting_text_def active_text_def\<close>)
  next
    case (Some nb)
    show ?thesis
      by (intro exI [of _ "a\<lparr>active_buffers := buffers a @ [b], buffers := active_buffers a,
             al_buffer := Some (fb_reset c), new_current := None, al_pc := Writing\<rparr>"] exI [of _ b])
        (use assms b Some in \<open>simp add: Swap_def al_inv_def file_text_def waiting_text_def active_text_def\<close>)
  qed
qed

lemma Write_round_spec:
  assumes "al_inv n a" "env_ok n e" and "al_pc a = Writing"
  shows "\<exists>a'. Write_round e a = Inr a' \<and> al_inv n a' \<and> al_pc a' = At_test
     \<and> active_buffers a' = butlast (butlast (active_buffers a))
     \<and> file_text a' = file_text a @ active_text a \<and> waiting_text a' = waiting_text a
     \<and> buffers a' = buffers a \<and> al_buffer a' = al_buffer a"
proof -
  have act: "\<forall>b \<in> set (active_buffers a). fb_inv n b" using assms(1) by (simp add: al_inv_def)
  obtain f where f: "foldE (write_buffer (env_now e)) (active_buffers a) (logFile a) = Inr f"
      "lf_text f = lf_text (logFile a) @ concat (map fb_text (active_buffers a))"
    using write_buffers_spec [OF act] by blast
  obtain f1 cs where r: "roll e (a\<lparr>logFile := f\<rparr>) = Inr (a\<lparr>closedFiles := cs, logFile := f1\<rparr>)"
      "concat (map lf_text cs) @ lf_text f1 = concat (map lf_text (closedFiles a)) @ lf_text f"
    using roll_spec [OF assms(2), of "a\<lparr>logFile := f\<rparr>"] by auto
  obtain c bs1 where c: "reuse e (active_buffers a) = (c, bs1)" by (cases "reuse e (active_buffers a)")
  obtain x bs2 where x: "reuse e bs1 = (x, bs2)" by (cases "reuse e bs1")
  note c' = reuse_ok [OF act assms(2) c]
  note x' = reuse_ok [OF c'(3) assms(2) x]
  show ?thesis
    using assms(1,3) f r c x c' x'
    by (auto simp: Write_round_def al_inv_def file_text_def active_text_def waiting_text_def)
qed

lemma Drain_spec:
  assumes "al_inv n a" and "al_pc a = At_test"
  shows "\<exists>a'. Drain e a = Inr a' \<and> al_inv n a' \<and> al_pc a' = Returned \<and> active_buffers a' = active_buffers a
     \<and> file_text a' = file_text a @ waiting_text a \<and> waiting_text a' = []"
proof -
  from assms(1) obtain b where b: "al_buffer a = Some b" "fb_inv n b" by (auto simp: al_inv_def)
  have bs: "\<forall>b \<in> set (buffers a). fb_inv n b" using assms(1) by (simp add: al_inv_def)
  obtain f where f: "foldE (write_buffer (env_now e)) (buffers a) (logFile a) = Inr f"
      "lf_text f = lf_text (logFile a) @ concat (map fb_text (buffers a))"
    using write_buffers_spec [OF bs] by blast
  obtain f2 where f2: "write_buffer (env_now e) b f = Inr f2" "lf_text f2 = lf_text f @ fb_text b"
    using write_buffer_spec [OF b(2)] by blast
  show ?thesis
    using assms b f f2
    by (auto simp: Drain_def al_inv_def file_text_def waiting_text_def LogFile_Flush_def Let_def comp_def)
qed


section \<open>Runs\<close>

text \<open>The lines a run appended, those that cannot fit a buffer left out\<close>

fun logged :: "nat \<Rightarrow> (al_env \<times> al_step) list \<Rightarrow> string" where
  "logged n [] = []"
| "logged n ((e, S_Append line) # ls) = (if length line < n then line else []) @ logged n ls"
| "logged n ((e, l) # ls) = logged n ls"

lemma logged_append: "logged n (ls @ ls') = logged n ls @ logged n ls'"
  by (induction n ls rule: logged.induct) simp_all

text \<open>A run on proper systems, with lines whose length is an \<open>int\<close>; a calm one, whose rounds
  never take more than two buffers\<close>

definition step_ok :: "nat \<Rightarrow> al_env \<times> al_step \<Rightarrow> bool" where
  "step_ok n x \<longleftrightarrow> env_ok n (fst x)
     \<and> (case snd x of S_Append line \<Rightarrow> int (length line) \<le> INT_MAX | _ \<Rightarrow> True)"

definition calm :: "al_env \<times> al_step \<Rightarrow> bool" where
  "calm x \<longleftrightarrow> (case snd x of S_Swap k \<Rightarrow> k \<le> 2 | _ \<Rightarrow> True)"

definition al_start :: "nat \<Rightarrow> AsyncLogger \<Rightarrow> bool" where
  "al_start n a \<longleftrightarrow> (\<exists>e path. env_ok n e \<and> AsyncLogger_ctor e path = Inr a)"

lemma al_start_inv: "al_start n a \<Longrightarrow> al_inv n a \<and> al_pc a = Not_started \<and> active_buffers a = []
     \<and> file_text a = [] \<and> waiting_text a = []"
  using new_buffer_ok
  by (auto simp: al_start_def AsyncLogger_ctor_def LogFile_ctor_def env_ok_def al_inv_def file_text_def
      waiting_text_def)

text \<open>Every enabled step succeeds and keeps the invariant.\<close>

lemma al_step_ok:
  assumes "al_inv n a" and "step_ok n (e, l)" and "enabled l a"
  shows "\<exists>a'. al_exec e l a = Inr a' \<and> al_inv n a'"
proof -
  have e: "env_ok n e" using assms(2) by (simp add: step_ok_def)
  show ?thesis
  proof (cases l)
    case (S_Append line)
    then show ?thesis using Append_spec [OF assms(1) e, of line] assms(2) by (auto simp: step_ok_def)
  next
    case S_Start
    then show ?thesis using assms new_buffer_ok(1) [OF e] by (simp add: Start_def al_inv_def)
  next
    case (S_Swap k)
    then show ?thesis using Swap_spec [OF assms(1)] assms(3) by auto
  next
    case S_Write
    then show ?thesis using Write_round_spec [OF assms(1) e] assms(3) by auto
  next
    case S_Drain
    then show ?thesis using Drain_spec [OF assms(1)] assms(3) by auto
  qed (use assms in \<open>simp_all add: Stop_def Enter_def Flush_def al_inv_def\<close>)
qed

lemma al_run_inv:
  assumes "al_run a0 ls a" and "al_inv n a0" and "\<forall>x \<in> set ls. step_ok n x"
  shows "al_inv n a"
  using assms
proof (induction rule: al_run.induct)
  case (al_snoc a ls a1 l e a2)
  then have "al_inv n a1" "step_ok n (e, l)" by simp_all
  from al_step_ok [OF this al_snoc(2)] al_snoc(3) show ?case by simp
qed

text \<open>Between rounds nothing is left to the back thread.\<close>

definition tidy :: "AsyncLogger \<Rightarrow> bool" where
  "tidy a \<longleftrightarrow> (if al_pc a = Writing then length (active_buffers a) \<le> 2 else active_buffers a = [])"

lemma butlast_butlast: "length xs \<le> 2 \<Longrightarrow> butlast (butlast xs) = []"
  by (cases xs rule: rev_cases; cases "butlast xs" rule: rev_cases) auto

lemma calm_step:
  assumes "al_inv n a" and "step_ok n (e, l)" and "enabled l a" and "al_exec e l a = Inr a'"
    and "tidy a" and "calm (e, l)"
  shows "tidy a' \<and> file_text a' @ active_text a' @ waiting_text a'
      = file_text a @ active_text a @ waiting_text a @ logged n [(e, l)]"
proof -
  have e: "env_ok n e" using assms(2) by (simp add: step_ok_def)
  show ?thesis
  proof (cases l)
    case (S_Append line)
    then show ?thesis using Append_spec [OF assms(1) e, of line] assms
      by (auto simp: step_ok_def tidy_def active_text_def)
  next
    case S_Start
    then show ?thesis using assms
      by (auto simp: Start_def tidy_def active_text_def waiting_text_def file_text_def)
  next
    case (S_Swap k)
    have "active_buffers a = []" "al_pc a = Waiting" using assms(3,5) S_Swap by (simp_all add: tidy_def)
    then show ?thesis using Swap_spec [OF assms(1)] assms S_Swap
      by (auto simp: calm_def tidy_def active_text_def)
  next
    case S_Write
    then show ?thesis using Write_round_spec [OF assms(1) e] assms
      by (auto simp: tidy_def active_text_def butlast_butlast)
  next
    case S_Drain
    then show ?thesis using Drain_spec [OF assms(1), of e] assms
      by (auto simp: tidy_def active_text_def)
  qed (use assms in \<open>auto simp: Stop_def Enter_def Flush_def LogFile_Flush_def tidy_def active_text_def
        waiting_text_def file_text_def\<close>)
qed

lemma calm_run:
  assumes "al_run a0 ls a" and "al_start n a0" and "\<forall>x \<in> set ls. step_ok n x \<and> calm x"
  shows "tidy a \<and> file_text a @ active_text a @ waiting_text a = logged n ls"
  using assms
proof (induction rule: al_run.induct)
  case (al_nil a)
  then show ?case using al_start_inv [of n a] by (simp add: tidy_def active_text_def)
next
  case (al_snoc a ls a1 l e a2)
  have inv: "al_inv n a1"
    using al_run_inv [OF al_snoc(1)] al_start_inv [of n a] al_snoc.prems by simp
  from calm_step [OF inv _ al_snoc(2,3)] al_snoc.IH al_snoc.prems show ?case
    by (simp add: logged_append)
qed

inductive_cases al_run_nilE: "al_run a [] a2"

lemma async_run: "al_run a ls a1 \<Longrightarrow> al_run a1 ls' a2 \<Longrightarrow> al_run a (ls @ ls') a2"
  by (induction ls' arbitrary: a2 rule: rev_induct)
     (auto elim!: al_run_snocE al_run_nilE intro: al_run.intros simp flip: append_assoc)

fun al_go :: "(al_env \<times> al_step) list \<Rightarrow> AsyncLogger \<Rightarrow> AsyncLogger option" where
  "al_go [] a = Some a"
| "al_go ((e, l) # ls) a =
     (if enabled l a then (case al_exec e l a of Inr a' \<Rightarrow> al_go ls a' | Inl _ \<Rightarrow> None) else None)"

lemma al_go_run: "al_go ls a = Some a' \<Longrightarrow> al_run a ls a'"
proof (induction ls a rule: al_go.induct)
  case (2 e l ls a)
  then obtain a1 where a1: "enabled l a" "al_exec e l a = Inr a1" "al_go ls a1 = Some a'"
    by (auto split: if_splits sum.splits)
  have "al_run a [(e, l)] a1" using al_snoc [OF al_nil a1(1,2)] by simp
  moreover have "al_run a1 ls a'" using 2 a1 by simp
  ultimately show ?case using async_run by fastforce
qed (auto intro: al_run.intros)

text \<open>One round of the back thread\<close>

lemma round_run:
  assumes "al_inv n a" "env_ok n e" "al_pc a = At_test" "running a" "al_buffer a = Some b"
  shows "\<exists>a'. al_run a [(e, S_Enter), (e, S_Swap (length (buffers a) + 1)), (e, S_Write)] a'
     \<and> al_inv n a' \<and> al_pc a' = At_test \<and> running a' \<and> buffers a' = active_buffers a
     \<and> active_buffers a' = butlast (buffers a) \<and> file_text a' = file_text a @ waiting_text a
     \<and> waiting_text a' = concat (map fb_text (active_buffers a))"
proof -
  define a1 where "a1 = a\<lparr>al_pc := Waiting\<rparr>"
  have a1: "al_inv n a1" "al_pc a1 = Waiting" using assms by (auto simp: a1_def al_inv_def)
  obtain a2 where a2: "Swap a1 = Inr a2" "al_inv n a2" "al_pc a2 = Writing"
      "active_buffers a2 = buffers a @ [b]" "file_text a2 = file_text a" "buffers a2 = active_buffers a"
      "waiting_text a2 = concat (map fb_text (active_buffers a))" "active_text a2 = waiting_text a"
    using Swap_spec [OF a1] assms(5) by (auto simp: a1_def file_text_def waiting_text_def)
  have run2: "running a2" using a2(1) assms(4)
    by (auto simp: a1_def Swap_def bindE_def Let_def split: sum.splits option.splits)
  obtain a3 where a3: "Write_round e a2 = Inr a3" "al_inv n a3" "al_pc a3 = At_test"
      "active_buffers a3 = butlast (butlast (active_buffers a2))"
      "file_text a3 = file_text a2 @ active_text a2" "waiting_text a3 = waiting_text a2"
      "buffers a3 = buffers a2"
    using Write_round_spec [OF a2(2) assms(2) a2(3)] by blast
  have "running a3" using a3(1) run2
    by (auto simp: Write_round_def roll_def bindE_def Let_def split: sum.splits prod.splits if_splits)
  moreover have "al_go [(e, S_Enter), (e, S_Swap (length (buffers a) + 1)), (e, S_Write)] a = Some a3"
    using assms a2(1,3) a3(1) by (simp add: Enter_def a1_def)
  ultimately show ?thesis
    using al_go_run a2 a3 by (intro exI [of _ a3]) simp
qed

lemma Append_full:
  assumes "al_inv n a" "env_ok n e" "al_buffer a = Some b" and "length line < n"
    and "fb_text b = [] \<or> n \<le> length (fb_text b) + length line"
  shows "\<exists>a' b'. Append e line a = Inr a' \<and> al_inv n a' \<and> al_pc a' = al_pc a
     \<and> active_buffers a' = active_buffers a \<and> file_text a' = file_text a
     \<and> buffers a' = (if fb_text b = [] then buffers a else buffers a @ [b])
     \<and> al_buffer a' = Some b' \<and> fb_text b' = line"
proof -
  have b: "fb_inv n b" and n: "int n \<le> INT_MAX" using assms by (auto simp: al_inv_def env_ok_def)
  have "int (length line) \<le> INT_MAX" using assms(4) n by simp
  then obtain a' where a': "Append e line a = Inr a'" "al_inv n a'" "al_pc a' = al_pc a"
      "active_buffers a' = active_buffers a" "file_text a' = file_text a"
      "waiting_text a' = waiting_text a @ line"
    using Append_spec [OF assms(1,2), of line] assms(4) by auto
  then obtain b' where b': "al_buffer a' = Some b'" by (auto simp: al_inv_def)
  have len: "to_int32 (int (length line)) = int (length line)" using assms(4) n by simp
  have "buffers a' = (if fb_text b = [] then buffers a else buffers a @ [b])"
    using a'(1) assms(3,4,5) fb_avail_eq [OF b]
    by (auto simp: Append_def len bindE_def Let_def split: sum.splits option.splits if_splits)
  then show ?thesis
    using a' b' assms(3) by (intro exI [of _ a'] exI [of _ b']) (auto simp: waiting_text_def split: if_splits)
qed


text \<open>A concrete system, and a logger constructed on it\<close>

definition example_env :: al_env where
  "example_env =
     \<lparr>env_fopen = (\<lambda>_. True),
      env_localtime = (\<lambda>_. \<lparr>tm_year = 125, tm_mon = 0, tm_mday = 9, tm_hour = 8, tm_min = 7, tm_sec = 6\<rparr>),
      env_now = \<lparr>micro_seconds = 5\<rparr>, env_mem = replicate 4 NUL\<rparr>"

definition example_logger :: AsyncLogger where
  "example_logger =
     (case AsyncLogger_ctor example_env ''a.log'' of Inr a \<Rightarrow> a)"

lemma example_env: "env_ok 4 example_env"
  by (simp add: env_ok_def example_env_def)

lemma example_start: "al_start 4 example_logger"
  unfolding al_start_def
  by (rule exI [of _ example_env], rule exI [of _ "''a.log''"])
     (simp add: example_env example_logger_def, simp add: AsyncLogger_ctor_def LogFile_ctor_def example_env_def)

section \<open>Properties of the asynchronous logger\<close>






text \<open>C26: When a round takes three buffers, text is written twice: the thread keeps only two of the
  written buffers as its spares, the third stays in its list, is exchanged back into the queue at the
  next round and written again. Three lines that each fill a buffer show it: the run below appends
  \<open>x\<close>, \<open>y\<close> and \<open>z\<close> and ends with \<open>x y z x\<close> in the file.\<close>

theorem async_log_duplicates:
  assumes "al_start n a0" and "env_ok n e"
    and "length x < n" "length y < n" "length z < n" and "x \<noteq> []" "y \<noteq> []"
    and "n \<le> length x + length y" "n \<le> length y + length z"
  shows "\<exists>ls a. al_run a0 ls a \<and> (\<forall>st \<in> set ls. step_ok n st)
     \<and> logged n ls = x @ y @ z \<and> file_text a = x @ y @ z @ x"
proof -
  note start = al_start_inv [OF assms(1)]
  have st: "int n \<le> INT_MAX" using assms(2) by (simp add: env_ok_def)
  obtain b0 where b0: "al_buffer a0 = Some b0" "fb_text b0 = []" "buffers a0 = []"
    using assms(1) new_buffer_ok(2) by (auto simp: al_start_def AsyncLogger_ctor_def LogFile_ctor_def env_ok_def)
  obtain a1 b1 where a1: "Append e x a0 = Inr a1" "al_inv n a1" "al_pc a1 = Not_started"
      "active_buffers a1 = []" "file_text a1 = []" "buffers a1 = []" "al_buffer a1 = Some b1" "fb_text b1 = x"
    using Append_full [OF _ assms(2) b0(1) assms(3)] start b0 by auto
  obtain a2 b2 where a2: "Append e y a1 = Inr a2" "al_inv n a2" "al_pc a2 = Not_started"
      "active_buffers a2 = []" "file_text a2 = []" "buffers a2 = [b1]" "al_buffer a2 = Some b2" "fb_text b2 = y"
    using Append_full [OF a1(2) assms(2) a1(7) assms(4)] a1 assms(6,8) by auto
  obtain a3 b3 where a3: "Append e z a2 = Inr a3" "al_inv n a3" "al_pc a3 = Not_started"
      "active_buffers a3 = []" "file_text a3 = []" "buffers a3 = [b1, b2]" "al_buffer a3 = Some b3" "fb_text b3 = z"
    using Append_full [OF a2(2) assms(2) a2(7) assms(5)] a2 assms(7,9) by auto
  obtain a4 where a4: "Start e a3 = Inr a4" "al_inv n a4" "al_pc a4 = At_test" "running a4"
      "active_buffers a4 = []" "file_text a4 = []" "buffers a4 = [b1, b2]" "al_buffer a4 = Some b3"
    using a3 new_buffer_ok(1) [OF assms(2)] by (simp add: Start_def al_inv_def file_text_def)
  have prefix: "al_run a0 [(e, S_Append x), (e, S_Append y), (e, S_Append z), (e, S_Start)] a4"
    using a1(1) a2(1) a3(1,3) a4(1) by (intro al_go_run) simp
  obtain a5 where a5: "al_run a4 [(e, S_Enter), (e, S_Swap 3), (e, S_Write)] a5" "al_inv n a5"
      "al_pc a5 = At_test" "running a5" "buffers a5 = []" "active_buffers a5 = [b1]"
      "file_text a5 = x @ y @ z" "waiting_text a5 = []"
    using round_run [OF a4(2) assms(2) a4(3,4,8)] a4 a1(8) a2(8) a3(8) 
    by (auto simp: waiting_text_def eval_nat_numeral)
  obtain b5 where b5: "al_buffer a5 = Some b5" using a5(2) by (auto simp: al_inv_def)
  obtain a6 where a6: "al_run a5 [(e, S_Enter), (e, S_Swap 1), (e, S_Write)] a6" "al_inv n a6"
      "al_pc a6 = At_test" "running a6" "buffers a6 = [b1]" "active_buffers a6 = []"
      "file_text a6 = x @ y @ z" "waiting_text a6 = x"
    using round_run [OF a5(2) assms(2) a5(3,4) b5] a5 a1(8) by auto
  obtain b6 where b6: "al_buffer a6 = Some b6" using a6(2) by (auto simp: al_inv_def)
  obtain a7 where a7: "al_run a6 [(e, S_Enter), (e, S_Swap 2), (e, S_Write)] a7"
      "file_text a7 = x @ y @ z @ x"
    using round_run [OF a6(2) assms(2) a6(3,4) b6] a6 by (auto simp: eval_nat_numeral)
  note run = async_run [OF async_run [OF async_run [OF prefix a5(1)] a6(1)] a7(1)]
  show ?thesis
    by (rule exI, rule exI, rule conjI [OF run]) (use a7(2) assms(2-5) st in \<open>simp add: step_ok_def\<close>)
qed


theorem async_log_duplicates_witness:
  "\<exists>a0 ls a. al_run a0 ls a \<and> logged 4 ls = ''aabbcc'' \<and> file_text a = ''aabbccaa''"
  using async_log_duplicates [OF example_start example_env, of "''aa''" "''bb''" "''cc''"] by auto

end
