(* ===== verification/Logger.thy ===== *)
theory Logger
  imports LogStream TimerStamp
begin

text \<open>
  The logger of \<open>utils/Logger.h\<close> and \<open>utils/Logger.cpp\<close> (classes \<open>Logger\<close> and \<open>Logger::Impl\<close>, the
  \<open>LOG_*\<close> macros) and the thread identity it prints (\<open>utils/CurrentThread.h\<close> and \<open>.cpp\<close>). A log
  statement constructs a logger, which writes the time, the thread and the level, lets the statement
  write its message, and writes the place in its destructor. The thread-local variables and the
  global ones are records of the state; the clock, \<open>localtime_r\<close> and \<open>gettid\<close> are parameters.
  The theory shows the exact line that is output, which statements are filtered, and what a fatal
  one does.
\<close>

section \<open>The current thread\<close>

record thread_locals =
  t_cachedTid :: int
  t_formattedTid :: "char list"
  t_formattedTidLength :: int
  t_time :: "char list"
  t_lastsecond :: int

text \<open>Thread-local variables start as zeros.\<close>

definition thread_start :: thread_locals where
  "thread_start =
     \<lparr>t_cachedTid = 0, t_formattedTid = replicate 32 NUL, t_formattedTidLength = 0,
      t_time = replicate 64 NUL, t_lastsecond = 0\<rparr>"

definition CacheTid :: "int \<Rightarrow> thread_locals \<Rightarrow> thread_locals" where
  "CacheTid gettid th =
     (if t_cachedTid th = 0
      then (let text = fmt_d 5 gettid @ '' ''
            in th\<lparr>t_cachedTid := gettid,
                  t_formattedTid := snprintf_into 32 text (t_formattedTid th),
                  t_formattedTidLength := int (length text)\<rparr>)
      else th)"

definition tid :: "int \<Rightarrow> thread_locals \<Rightarrow> int \<times> thread_locals" where
  "tid gettid th =
     (let th1 = (if t_cachedTid th = 0 then CacheTid gettid th else th) in (t_cachedTid th1, th1))"

section \<open>The logger\<close>

datatype LogLevel = DEBUG | INFO | WARN | ERROR | FATAL

fun level_num :: "LogLevel \<Rightarrow> nat" where
  "level_num DEBUG = 0"
| "level_num INFO = 1"
| "level_num WARN = 2"
| "level_num ERROR = 3"
| "level_num FATAL = 4"

fun logLevelString :: "LogLevel \<Rightarrow> string" where
  "logLevelString DEBUG = ''DEBUG ''"
| "logLevelString INFO = ''INFO  ''"
| "logLevelString WARN = ''WARN  ''"
| "logLevelString ERROR = ''ERROR ''"
| "logLevelString FATAL = ''FATAL ''"

definition GetBaseName :: "string \<Rightarrow> string" where
  "GetBaseName file = (case str_find_last CHR ''/'' file of Some slash \<Rightarrow> drop (slash + 1) file | None \<Rightarrow> file)"

record Logger =
  lg_level :: LogLevel
  lg_stream :: LogStream
  lg_line :: "32 word"
  lg_basename :: string

definition time_text :: "tm \<Rightarrow> string" where
  "time_text t =
     fmt_d 4 (tm_year t + 1900) @ fmt_0d 2 (tm_mon t + 1) @ fmt_0d 2 (tm_mday t) @ '' ''
       @ fmt_0d 2 (tm_hour t) @ '':'' @ fmt_0d 2 (tm_min t) @ '':'' @ fmt_0d 2 (tm_sec t) @ ''.''"

definition FormatTime :: "(int \<Rightarrow> tm) \<Rightarrow> TimerStamp \<Rightarrow> thread_locals \<times> LogStream
    \<Rightarrow> (thread_locals \<times> LogStream) result" where
  "FormatTime localtime now = (\<lambda>(th, s).
     (let seconds = micro_seconds now sdiv 1000000;
          microseconds = to_int32 (micro_seconds now smod 1000000);
          th1 = (if t_lastsecond th \<noteq> seconds
                 then th\<lparr>t_time := snprintf_into 64 (time_text (localtime seconds)) (t_time th),
                         t_lastsecond := seconds\<rparr>
                 else th)
      in bindE (Fmt_ctor (''.'' @ fmt_0d 6 microseconds @ ''Z  '')) (\<lambda>us.
         bindE (put_template \<lparr>t_str = t_time th1, t_len = 17\<rparr> s) (\<lambda>s1.
         bindE (put_template \<lparr>t_str = fmt_buf us, t_len = 9\<rparr> s1) (\<lambda>s2.
         Inr (th1, s2))))))"

definition Logger_ctor :: "(int \<Rightarrow> tm) \<Rightarrow> int \<Rightarrow> TimerStamp \<Rightarrow> char list \<Rightarrow> string \<Rightarrow> 32 word \<Rightarrow> LogLevel
    \<Rightarrow> thread_locals \<Rightarrow> (thread_locals \<times> Logger) result" where
  "Logger_ctor localtime gettid now mem file line level th =
     bindE (FormatTime localtime now (th, FixedBuffer_ctor mem)) (\<lambda>(th1, s1).
     let th2 = snd (tid gettid th1)
     in bindE (put_template \<lparr>t_str = t_formattedTid th2, t_len = t_formattedTidLength th2\<rparr> s1) (\<lambda>s2.
        bindE (put_template \<lparr>t_str = logLevelString level, t_len = 6\<rparr> s2) (\<lambda>s3.
        Inr (th2, \<lparr>lg_level = level, lg_stream = s3, lg_line = line, lg_basename = GetBaseName file\<rparr>))))"

definition Finish :: "Logger \<Rightarrow> Logger result" where
  "Finish l =
     bindE (put_cstr (Some '' - '') (lg_stream l)) (\<lambda>s1.
     bindE (put_cstr (Some (lg_basename l)) s1) (\<lambda>s2.
     bindE (put_cstr (Some '':'') s2) (\<lambda>s3.
     bindE (put_int (lg_line l) s3) (\<lambda>s4.
     bindE (put_cstr (Some [CHR 0x0A]) s4) (\<lambda>s5.
     Inr (l\<lparr>lg_stream := s5\<rparr>))))))"

text \<open>The global variables, with what the output function was called with, how often the flush
  function was called, and whether \<open>abort\<close> was reached\<close>

record log_globals =
  g_logLevel :: LogLevel
  g_output :: "string list"
  g_flush :: nat
  g_aborted :: bool

definition log_globals_start :: log_globals where
  "log_globals_start = \<lparr>g_logLevel = DEBUG, g_output = [], g_flush = 0, g_aborted = False\<rparr>"

definition setLogLevel :: "LogLevel \<Rightarrow> log_globals \<Rightarrow> log_globals" where
  "setLogLevel level g = g\<lparr>g_logLevel := level\<rparr>"

definition Logger_dtor :: "Logger \<Rightarrow> log_globals \<Rightarrow> log_globals result" where
  "Logger_dtor l g =
     bindE (Finish l) (\<lambda>l1.
     bindE (fb_read (lg_stream l1)) (\<lambda>text.
     let g1 = g\<lparr>g_output := g_output g @ [text]\<rparr>
     in Inr (if lg_level l1 = FATAL then g1\<lparr>g_flush := g_flush g1 + 1, g_aborted := True\<rparr> else g1)))"

text \<open>\<open>LOG_DEBUG << ...\<close> and the other macros: only the first two ask for the level.\<close>

definition log_enabled :: "LogLevel \<Rightarrow> log_globals \<Rightarrow> bool" where
  "log_enabled level g =
     (level = DEBUG \<or> level = INFO \<longrightarrow> level_num (g_logLevel g) \<le> level_num level)"

definition LOG :: "(int \<Rightarrow> tm) \<Rightarrow> int \<Rightarrow> TimerStamp \<Rightarrow> char list \<Rightarrow> string \<Rightarrow> 32 word \<Rightarrow> LogLevel
    \<Rightarrow> (LogStream \<Rightarrow> LogStream result) \<Rightarrow> thread_locals \<times> log_globals
    \<Rightarrow> (thread_locals \<times> log_globals) result" where
  "LOG localtime gettid now mem file line level message = (\<lambda>(th, g).
     if log_enabled level g then
       bindE (Logger_ctor localtime gettid now mem file line level th) (\<lambda>(th1, l).
       bindE (message (lg_stream l)) (\<lambda>s.
       bindE (Logger_dtor (l\<lparr>lg_stream := s\<rparr>) g) (\<lambda>g1. Inr (th1, g1))))
     else Inr (th, g))"

section \<open>What is written\<close>

text \<open>\<open>emits n s r t\<close>: the operation on the stream \<open>s\<close> succeeds with result \<open>r\<close>, which holds the
  text \<open>t\<close> more.\<close>

definition emits :: "nat \<Rightarrow> LogStream \<Rightarrow> LogStream result \<Rightarrow> string \<Rightarrow> bool" where
  "emits n s r t \<longleftrightarrow> (\<exists>s'. r = Inr s' \<and> fb_inv n s' \<and> fb_text s' = fb_text s @ t)"

lemma emitsE:
  assumes "emits n s r t"
  obtains s' where "r = Inr s'" "fb_inv n s'" "fb_text s' = fb_text s @ t"
  using assms by (auto simp: emits_def)

lemma emits_template:
  assumes "fb_inv n s" and "k \<le> length t" and "length (fb_text s) + k < n"
  shows "emits n s (put_template \<lparr>t_str = t, t_len = int k\<rparr> s) (take k t)"
proof -
  have "read_range 0 (int k) t = Inr (take k t)" "read_range 0 (int k) (take k t) = Inr (take k t)"
    using assms(2) by (simp_all add: read_range_def slice_full_prefix)
  then have "fb_append t (int k) s = fb_append (take k t) (int k) s" by (simp add: fb_append_def)
  moreover have "int (length (take k t)) = int k" using assms(2) by simp
  ultimately show ?thesis
    using fb_append_spec [OF assms(1), of "take k t" "int k"] assms
    by (simp add: emits_def put_template_def fits_def)
qed

lemma emits_cstr:
  assumes "fb_inv n s" and "NUL \<notin> set t" and "length (fb_text s) + length t < n"
  shows "emits n s (put_cstr (Some t) s) t"
proof -
  have "takeWhile (\<lambda>c. c \<noteq> NUL) t = t"
    by (rule takeWhile_eq_all_conv [THEN iffD2]) (use assms(2) in blast)
  then have "strlen t = length t" by (simp only: strlen_def)
  moreover have "int (length t) \<le> INT_MAX" using assms by (simp add: fb_inv_def)
  ultimately show ?thesis
    using fb_append_spec [OF assms(1), of t] assms(3)
    by (simp add: emits_def put_cstr_def fits_def)
qed

lemma emits_int:
  assumes "fb_inv n s" and "0 \<le> sint w" and "length (fb_text s) + 48 \<le> n"
  shows "emits n s (put_int w s) (to_string (nat (sint w)))"
proof -
  have "\<bar>sint w\<bar> < 10 ^ 20" by (rule sint_small) simp
  from formatInteger_spec [OF assms(1) this] show ?thesis
    unfolding emits_def put_int_def int_text_def to_string_def if_P [OF assms(2)] if_P [OF assms(3)] .
qed

lemma emits_string:
  assumes "fb_inv n s" and "length (fb_text s) + length t < n"
  shows "emits n s (put_string t s) t"
proof -
  have "int (length t) \<le> INT_MAX" using assms by (simp add: fb_inv_def)
  then show ?thesis
    using fb_append_spec [OF assms(1), of t] assms(2)
    by (simp add: emits_def put_string_def fits_def)
qed

section \<open>The line of a log statement\<close>

lemma emits_bind:
  assumes "emits n s r t" and "\<And>s'. fb_inv n s' \<Longrightarrow> fb_text s' = fb_text s @ t \<Longrightarrow> emits n s' (f s') u"
  shows "emits n s (bindE r f) (t @ u)"
  using assms by (fastforce simp: emits_def)

lemma emits_Finish:
  assumes "fb_inv n (lg_stream l)" and "NUL \<notin> set (lg_basename l)" and "0 \<le> sint (lg_line l)"
    and "length (fb_text (lg_stream l)) + length (lg_basename l) + 80 < n"
  shows "\<exists>s. Finish l = Inr (l\<lparr>lg_stream := s\<rparr>) \<and> fb_inv n s
     \<and> fb_text s = fb_text (lg_stream l)
          @ '' - '' @ lg_basename l @ '':'' @ to_string (nat (sint (lg_line l))) @ [CHR 0x0A]"
proof -
  let ?line = "to_string (nat (sint (lg_line l)))"
  let ?s = "lg_stream l"
  have "\<bar>sint (lg_line l)\<bar> < 10 ^ 20" by (rule sint_small) simp
  then have len: "length ?line \<le> 20"
    using length_int_text [of "sint (lg_line l)"] assms(3) unfolding int_text_def to_string_def by simp
  obtain s1 where s1: "put_cstr (Some '' - '') ?s = Inr s1" "fb_inv n s1" "fb_text s1 = fb_text ?s @ '' - ''"
    using emits_cstr [OF assms(1), of "'' - ''"] assms(4) by (auto elim: emitsE)
  obtain s2 where s2: "put_cstr (Some (lg_basename l)) s1 = Inr s2" "fb_inv n s2"
      "fb_text s2 = fb_text s1 @ lg_basename l"
    using emits_cstr [OF s1(2) assms(2)] s1(3) assms(4) by (auto elim: emitsE)
  obtain s3 where s3: "put_cstr (Some '':'') s2 = Inr s3" "fb_inv n s3" "fb_text s3 = fb_text s2 @ '':''"
    using emits_cstr [OF s2(2), of "'':''"] s1(3) s2(3) assms(4) by (auto elim: emitsE)
  obtain s4 where s4: "put_int (lg_line l) s3 = Inr s4" "fb_inv n s4" "fb_text s4 = fb_text s3 @ ?line"
    using emits_int [OF s3(2) assms(3)] s1(3) s2(3) s3(3) assms(4) by (auto elim: emitsE)
  obtain s5 where s5: "put_cstr (Some [CHR 0x0A]) s4 = Inr s5" "fb_inv n s5"
      "fb_text s5 = fb_text s4 @ [CHR 0x0A]"
    using emits_cstr [OF s4(2), of "[CHR 0x0A]"] s1(3) s2(3) s3(3) s4(3) assms(4) len
    by (auto elim: emitsE)
  show ?thesis
    using s1(1) s2(1) s3(1) s4(1) s5
    by (intro exI [of _ s5]) (simp add: Finish_def s1(3) s2(3) s3(3) s4(3))
qed

text \<open>The prefix of a line: the date of the cached second, the microseconds, the thread, the level.\<close>

definition line_head :: "thread_locals \<Rightarrow> int \<Rightarrow> LogLevel \<Rightarrow> string" where
  "line_head th us level =
     take 17 (t_time th) @ ''.'' @ fmt_0d 6 us @ ''Z ''
       @ take (nat (t_formattedTidLength th)) (t_formattedTid th) @ logLevelString level"

lemma length_logLevelString [simp]: "length (logLevelString level) = 6"
  by (cases level) simp_all

text \<open>The thread-local arrays have their sizes, and a cached thread text is inside its array.\<close>

definition thread_ok :: "thread_locals \<Rightarrow> bool" where
  "thread_ok th \<longleftrightarrow> length (t_time th) = 64 \<and> length (t_formattedTid th) = 32
     \<and> 0 \<le> t_formattedTidLength th \<and> t_formattedTidLength th < 32"

lemma thread_ok_start: "thread_ok thread_start"
  by (simp add: thread_ok_def thread_start_def)

lemma thread_ok_CacheTid:
  assumes "thread_ok th" and "0 \<le> g" "g \<le> INT_MAX"
  shows "thread_ok (CacheTid g th)"
proof -
  have "nat g < 10 ^ 10" using assms(3) by simp
  then have "length (to_string (nat g)) \<le> 10"
    using length_num_str [of "nat g" 10] by (simp add: to_string_def)
  then have "length (fmt_d 5 g @ '' '') < 32"
    using assms(2) by (simp add: fmt_d_def to_string_int_def Let_def)
  then show ?thesis
    using assms(1) by (auto simp: thread_ok_def CacheTid_def Let_def length_snprintf_into)
qed

lemma thread_ok_tid:
  assumes "thread_ok th" and "0 \<le> g" "g \<le> INT_MAX"
  shows "thread_ok (snd (tid g th))"
  using assms thread_ok_CacheTid [OF assms] by (simp add: tid_def Let_def)

lemma tid_time [simp]: "t_time (snd (tid g th)) = t_time th" "t_lastsecond (snd (tid g th)) = t_lastsecond th"
  by (simp_all add: tid_def CacheTid_def Let_def)

definition refresh_time :: "(int \<Rightarrow> tm) \<Rightarrow> int \<Rightarrow> thread_locals \<Rightarrow> thread_locals" where
  "refresh_time localtime seconds th =
     (if t_lastsecond th \<noteq> seconds
      then th\<lparr>t_time := snprintf_into 64 (time_text (localtime seconds)) (t_time th), t_lastsecond := seconds\<rparr>
      else th)"

lemma thread_ok_refresh: "thread_ok th \<Longrightarrow> thread_ok (refresh_time lt sec th)"
  by (simp add: thread_ok_def refresh_time_def length_snprintf_into)

lemma FormatTime_spec:
  assumes "fb_inv n s" and "thread_ok th" and "0 \<le> micro_seconds now" and "length (fb_text s) + 26 < n"
  shows "\<exists>s'. FormatTime lt now (th, s) = Inr (refresh_time lt (micro_seconds now div 1000000) th, s')
     \<and> fb_inv n s'
     \<and> fb_text s' = fb_text s @ take 17 (t_time (refresh_time lt (micro_seconds now div 1000000) th))
          @ ''.'' @ fmt_0d 6 (micro_seconds now mod 1000000) @ ''Z ''"
proof -
  let ?th = "refresh_time lt (micro_seconds now div 1000000) th"
  let ?us = "micro_seconds now mod 1000000"
  have d: "micro_seconds now sdiv 1000000 = micro_seconds now div 1000000"
    "micro_seconds now smod 1000000 = ?us"
    using assms(3) by (simp_all add: signed_divide_int_def signed_modulo_int_def sgn_if)
  have "?us < 1000000" "0 \<le> ?us" by simp_all
  then have us: "to_int32 ?us = ?us" "length (fmt_0d 6 ?us) = 6"
    using length_fmt_0d [of ?us 6] by simp_all
  let ?text = "''.'' @ fmt_0d 6 ?us @ ''Z  ''"
  have len: "length (t_time ?th) = 64" using thread_ok_refresh [OF assms(2)] by (simp add: thread_ok_def)
  obtain s1 where s1: "put_template \<lparr>t_str = t_time ?th, t_len = int 17\<rparr> s = Inr s1" "fb_inv n s1"
      "fb_text s1 = fb_text s @ take 17 (t_time ?th)"
    using emits_template [OF assms(1), of 17 "t_time ?th"] assms(4) len by (auto elim: emitsE)
  obtain s2 where s2: "put_template \<lparr>t_str = ?text, t_len = int 9\<rparr> s1 = Inr s2" "fb_inv n s2"
      "fb_text s2 = fb_text s1 @ take 9 ?text"
    using emits_template [OF s1(2), of 9 ?text] assms(4) len us(2) s1(3) by (auto elim: emitsE)
  have "take 9 ?text = ''.'' @ fmt_0d 6 ?us @ ''Z ''" using us(2) by simp
  moreover have "FormatTime lt now (th, s) = Inr (?th, s2)"
    using s1(1) s2(1) us unfolding FormatTime_def by (simp add: d Fmt_ctor_def refresh_time_def Let_def)
  ultimately show ?thesis using s1(3) s2 by simp
qed

lemma Logger_ctor_spec:
  assumes "thread_ok th" and "0 \<le> g" "g \<le> INT_MAX" and "0 \<le> micro_seconds now"
    and mem: "length mem = n" "100 < n" "int n \<le> INT_MAX"
    and th': "th' = snd (tid g (refresh_time lt (micro_seconds now div 1000000) th))"
  shows "\<exists>s. Logger_ctor lt g now mem file line level th
       = Inr (th', \<lparr>lg_level = level, lg_stream = s, lg_line = line, lg_basename = GetBaseName file\<rparr>)
     \<and> fb_inv n s \<and> fb_text s = line_head th' (micro_seconds now mod 1000000) level"
proof -
  let ?th = "refresh_time lt (micro_seconds now div 1000000) th"
  let ?us = "micro_seconds now mod 1000000"
  have "fb_inv n (FixedBuffer_ctor mem)" using fb_inv_ctor [of mem] mem by simp
  with FormatTime_spec [of n "FixedBuffer_ctor mem" th now lt] assms obtain s1 where
    s1: "FormatTime lt now (th, FixedBuffer_ctor mem) = Inr (?th, s1)" "fb_inv n s1"
      "fb_text s1 = take 17 (t_time ?th) @ ''.'' @ fmt_0d 6 ?us @ ''Z ''" by auto
  have ok: "thread_ok th'" using thread_ok_tid [OF thread_ok_refresh [OF assms(1)] assms(2,3)] th' by simp
  have us: "length (fmt_0d 6 ?us) = 6" using length_fmt_0d [of ?us 6] by simp
  let ?k = "nat (t_formattedTidLength th')"
  have k: "?k \<le> length (t_formattedTid th')" "?k < 32" "t_formattedTidLength th' = int ?k"
    using ok by (auto simp: thread_ok_def)
  obtain s2 where s2: "put_template \<lparr>t_str = t_formattedTid th', t_len = t_formattedTidLength th'\<rparr> s1 = Inr s2"
      "fb_inv n s2" "fb_text s2 = fb_text s1 @ take ?k (t_formattedTid th')"
  proof -
    have "length (fb_text s1) \<le> 26" using s1(3) us by simp
    then have "length (fb_text s1) + ?k < n" using k(2) mem(2) by linarith
    from emits_template [OF s1(2) k(1) this] show ?thesis
      unfolding k(3) [symmetric] by (elim emitsE) (rule that)
  qed
  obtain s3 where s3: "put_template \<lparr>t_str = logLevelString level, t_len = int 6\<rparr> s2 = Inr s3"
      "fb_inv n s3" "fb_text s3 = fb_text s2 @ take 6 (logLevelString level)"
  proof -
    have "length (fb_text s2) \<le> 58" using s1(3) s2(3) us k(2) by simp
    then have "length (fb_text s2) + 6 < n" using mem(2) by linarith
    then have "emits n s2 (put_template \<lparr>t_str = logLevelString level, t_len = int 6\<rparr> s2)
        (take 6 (logLevelString level))"
      by (intro emits_template [OF s2(2)]) simp_all
    then show ?thesis by (elim emitsE) (rule that)
  qed
  have "t_time th' = t_time ?th" using th' by simp
  then show ?thesis
    using s1 s2 s3 unfolding Logger_ctor_def
    by (simp add: th' [symmetric] Let_def line_head_def)
qed


section \<open>Properties of the logger\<close>



text \<open>Below the global level, a debug or info statement does nothing at all: no logger is
  constructed, nothing is output and the thread-local state stays; warnings and worse are never
  filtered, whatever the level.\<close>

lemma log_statement_filtered:
  "LOG lt g now mem file line level message (th, gl) = Inr (th, gl)
     \<longleftrightarrow> (level = DEBUG \<or> level = INFO) \<and> level_num level < level_num (g_logLevel gl)"
proof (cases "log_enabled level gl")
  case False
  then show ?thesis by (auto simp: LOG_def log_enabled_def)
next
  case True
  have "g_output gl' \<noteq> g_output gl" if "Logger_dtor l gl = Inr gl'" for l gl'
    using that by (auto simp: Logger_dtor_def bindE_def Let_def split: sum.splits if_splits)
  then have "LOG lt g now mem file line level message (th, gl) \<noteq> Inr (th, gl)"
    using True by (fastforce simp: LOG_def bindE_def split: sum.splits prod.splits)
  then show ?thesis using True by (auto simp: log_enabled_def)
qed

end
