(* ===== verification/Channel.thy ===== *)
theory Channel
  imports Prelude
begin

text \<open>
  The event channel and the epoll wrapper: \<open>tcp/Channel.h\<close>, \<open>tcp/Channel.cpp\<close> (class \<open>Channel\<close>),
  \<open>tcp/Epoller.h\<close>, \<open>tcp/Epoller.cpp\<close> (class \<open>Epoller\<close>). The event masks are words of the widths
  they have in the code: \<open>short\<close> in the channel, 32 bits in the kernel. The kernel's interest list is
  a map from descriptors to masks, changed by \<open>epoll_ctl\<close>. The theory shows that the kernel watches
  what the channels ask for, and what the 16-bit masks lose.
\<close>

unbundle bit_operations_syntax

section \<open>Event masks\<close>

definition EPOLLIN :: "32 word" where "EPOLLIN = 0x001"
definition EPOLLPRI :: "32 word" where "EPOLLPRI = 0x002"
definition EPOLLOUT :: "32 word" where "EPOLLOUT = 0x004"
definition EPOLLERR :: "32 word" where "EPOLLERR = 0x008"
definition EPOLLHUP :: "32 word" where "EPOLLHUP = 0x010"
definition EPOLLRDHUP :: "32 word" where "EPOLLRDHUP = 0x2000"
definition EPOLLET :: "32 word" where "EPOLLET = 0x80000000"

lemmas epoll_bits = EPOLLIN_def EPOLLPRI_def EPOLLOUT_def EPOLLERR_def EPOLLHUP_def EPOLLRDHUP_def EPOLLET_def

text \<open>A \<open>short\<close> is promoted with its sign before a bitwise operation, and the result is cut to 16 bits.\<close>

definition short_or :: "16 word \<Rightarrow> 32 word \<Rightarrow> 16 word" where
  "short_or a m = ucast (scast a OR m)"

definition short_and :: "16 word \<Rightarrow> 32 word \<Rightarrow> 16 word" where
  "short_and a m = ucast (scast a AND m)"

section \<open>The epoll instance\<close>

type_synonym epoll = "int \<rightharpoonup> 32 word"

text \<open>\<open>epoll_ctl\<close>: adding fails for a descriptor that is there, changing and deleting fail for one
  that is not; the flag tells whether the call succeeded.\<close>

definition epoll_add :: "int \<Rightarrow> 32 word \<Rightarrow> epoll \<Rightarrow> bool \<times> epoll" where
  "epoll_add fd ev ep = (if ep fd = None then (True, ep(fd \<mapsto> ev)) else (False, ep))"

definition epoll_mod :: "int \<Rightarrow> 32 word \<Rightarrow> epoll \<Rightarrow> bool \<times> epoll" where
  "epoll_mod fd ev ep = (if ep fd \<noteq> None then (True, ep(fd \<mapsto> ev)) else (False, ep))"

definition epoll_del :: "int \<Rightarrow> epoll \<Rightarrow> bool \<times> epoll" where
  "epoll_del fd ep = (if ep fd \<noteq> None then (True, ep(fd := None)) else (False, ep))"

section \<open>The channel\<close>

record Channel =
  ch_fd :: int
  listen_events :: "16 word"
  ready_events :: "16 word"
  in_epoll :: bool
  tied :: bool

text \<open>The constructor leaves \<open>tied_\<close> as it is.\<close>

definition Channel_ctor :: "bool \<Rightarrow> int \<Rightarrow> Channel" where
  "Channel_ctor t fd =
     \<lparr>ch_fd = fd, listen_events = 0, ready_events = 0, in_epoll = False, tied = t\<rparr>"

definition Tie :: "Channel \<Rightarrow> Channel" where
  "Tie ch = ch\<lparr>tied := True\<rparr>"

definition UpdateChannel :: "Channel \<times> epoll \<Rightarrow> Channel \<times> epoll" where
  "UpdateChannel = (\<lambda>(ch, ep).
     let ev = scast (listen_events ch) :: 32 word
     in if \<not> in_epoll ch then (ch\<lparr>in_epoll := True\<rparr>, snd (epoll_add (ch_fd ch) ev ep))
        else (ch, snd (epoll_mod (ch_fd ch) ev ep)))"

definition DeleteChannel :: "Channel \<times> epoll \<Rightarrow> Channel \<times> epoll" where
  "DeleteChannel = (\<lambda>(ch, ep). (ch\<lparr>in_epoll := False\<rparr>, snd (epoll_del (ch_fd ch) ep)))"

definition EnableRead :: "Channel \<times> epoll \<Rightarrow> Channel \<times> epoll" where
  "EnableRead = (\<lambda>(ch, ep).
     UpdateChannel (ch\<lparr>listen_events := short_or (listen_events ch) (EPOLLIN OR EPOLLPRI)\<rparr>, ep))"

definition EnableWrite :: "Channel \<times> epoll \<Rightarrow> Channel \<times> epoll" where
  "EnableWrite = (\<lambda>(ch, ep).
     UpdateChannel (ch\<lparr>listen_events := short_or (listen_events ch) EPOLLOUT\<rparr>, ep))"

definition DisableRead :: "Channel \<times> epoll \<Rightarrow> Channel \<times> epoll" where
  "DisableRead = (\<lambda>(ch, ep).
     UpdateChannel (ch\<lparr>listen_events := short_and (listen_events ch) (NOT (EPOLLIN OR EPOLLPRI))\<rparr>, ep))"

definition DisableWrite :: "Channel \<times> epoll \<Rightarrow> Channel \<times> epoll" where
  "DisableWrite = (\<lambda>(ch, ep).
     UpdateChannel (ch\<lparr>listen_events := short_and (listen_events ch) (NOT EPOLLOUT)\<rparr>, ep))"

definition EnableET :: "Channel \<times> epoll \<Rightarrow> Channel \<times> epoll" where
  "EnableET = (\<lambda>(ch, ep).
     UpdateChannel (ch\<lparr>listen_events := short_or (listen_events ch) EPOLLET\<rparr>, ep))"

definition SetReadyEvents :: "32 word \<Rightarrow> Channel \<Rightarrow> Channel" where
  "SetReadyEvents ev ch = ch\<lparr>ready_events := ucast ev\<rparr>"

text \<open>The callbacks act on a state of their own; a missing one is skipped. With or without a tie the
  events are handled in the same way: the tie only keeps the owner alive meanwhile.\<close>

definition HandleEventWithGuard :: "('s \<Rightarrow> 's result) option \<Rightarrow> ('s \<Rightarrow> 's result) option \<Rightarrow> Channel \<Rightarrow> 's \<Rightarrow> 's result" where
  "HandleEventWithGuard read_cb write_cb ch s =
     bindE (if short_and (ready_events ch) (EPOLLIN OR EPOLLPRI OR EPOLLRDHUP) \<noteq> 0
            then (case read_cb of Some f \<Rightarrow> f s | None \<Rightarrow> Inr s) else Inr s) (\<lambda>s1.
     if short_and (ready_events ch) EPOLLOUT \<noteq> 0
     then (case write_cb of Some f \<Rightarrow> f s1 | None \<Rightarrow> Inr s1) else Inr s1)"

definition HandleEvent :: "('s \<Rightarrow> 's result) option \<Rightarrow> ('s \<Rightarrow> 's result) option \<Rightarrow> Channel \<Rightarrow> 's \<Rightarrow> 's result" where
  "HandleEvent read_cb write_cb ch s =
     (if tied ch then HandleEventWithGuard read_cb write_cb ch s else HandleEventWithGuard read_cb write_cb ch s)"

text \<open>What \<open>Poll\<close> does with the events the kernel reports, each a channel's descriptor and a mask\<close>

definition Poll :: "(int \<times> 32 word) list \<Rightarrow> (int \<Rightarrow> Channel) \<Rightarrow> int list \<times> (int \<Rightarrow> Channel)" where
  "Poll events chs =
     (map fst events, fold (\<lambda>(fd, ev) chs. chs(fd := SetReadyEvents ev (chs fd))) events chs)"

lemmas channel_ops = EnableRead_def EnableWrite_def DisableRead_def DisableWrite_def EnableET_def

section \<open>Lemmas\<close>

text \<open>A channel and the kernel agree: the descriptor is watched exactly when the flag says so, with the
  mask of the channel.\<close>

definition in_sync :: "Channel \<times> epoll \<Rightarrow> bool" where
  "in_sync = (\<lambda>(ch, ep). ep (ch_fd ch) = (if in_epoll ch then Some (scast (listen_events ch)) else None))"

lemma UpdateChannel_sync:
  assumes "ep (ch_fd ch) \<noteq> None \<longleftrightarrow> in_epoll ch"
  shows "UpdateChannel (ch, ep)
     = (ch\<lparr>in_epoll := True\<rparr>, ep(ch_fd ch \<mapsto> scast (listen_events ch)))"
  using assms by (auto simp: UpdateChannel_def epoll_add_def epoll_mod_def)

lemma in_sync_dom: "in_sync (ch, ep) \<Longrightarrow> ep (ch_fd ch) \<noteq> None \<longleftrightarrow> in_epoll ch"
  by (simp add: in_sync_def)

text \<open>The bits of the masks and of 16-bit results\<close>

lemma epoll_bit:
  "bit EPOLLIN n \<longleftrightarrow> n = 0" "bit EPOLLPRI n \<longleftrightarrow> n = 1" "bit EPOLLOUT n \<longleftrightarrow> n = 2"
  "bit EPOLLERR n \<longleftrightarrow> n = 3" "bit EPOLLHUP n \<longleftrightarrow> n = 4" "bit EPOLLRDHUP n \<longleftrightarrow> n = 13"
  "bit EPOLLET n \<longleftrightarrow> n = 31"
proof -
  have p: "EPOLLIN = 2 ^ 0" "EPOLLPRI = 2 ^ 1" "EPOLLOUT = 2 ^ 2" "EPOLLERR = 2 ^ 3" "EPOLLHUP = 2 ^ 4"
    "EPOLLRDHUP = 2 ^ 13" "EPOLLET = 2 ^ 31"
    by (simp_all add: epoll_bits)
  show "bit EPOLLIN n \<longleftrightarrow> n = 0" "bit EPOLLPRI n \<longleftrightarrow> n = 1" "bit EPOLLOUT n \<longleftrightarrow> n = 2"
    "bit EPOLLERR n \<longleftrightarrow> n = 3" "bit EPOLLHUP n \<longleftrightarrow> n = 4" "bit EPOLLRDHUP n \<longleftrightarrow> n = 13"
    "bit EPOLLET n \<longleftrightarrow> n = 31"
    unfolding p bit_exp_iff by auto
qed

lemma bit_promoted: "n < 16 \<Longrightarrow> bit (scast (a :: 16 word) :: 32 word) n \<longleftrightarrow> bit a n"
  by (cases "n = 15") (auto simp: bit_simps min_def)

lemma bit_short_or: "bit (short_or a m) n \<longleftrightarrow> n < 16 \<and> (bit a n \<or> bit m n)"
proof (cases "n < 16")
  case True
  then show ?thesis
    unfolding short_or_def bit_unsigned_iff bit_or_iff bit_promoted [OF True] by simp
next
  case False
  then have "\<not> bit (short_or a m) n" using bit_imp_le_length [of "short_or a m" n] by auto
  with False show ?thesis by simp
qed

lemma bit_short_and: "bit (short_and a m) n \<longleftrightarrow> n < 16 \<and> bit a n \<and> bit m n"
proof (cases "n < 16")
  case True
  then show ?thesis
    unfolding short_and_def bit_unsigned_iff bit_and_iff bit_promoted [OF True] by simp
next
  case False
  then have "\<not> bit (short_and a m) n" using bit_imp_le_length [of "short_and a m" n] by auto
  with False show ?thesis by simp
qed

lemma short_eq_iff: "(a :: 16 word) = b \<longleftrightarrow> (\<forall>n < 16. bit a n \<longleftrightarrow> bit b n)"
  by (auto intro: bit_word_eqI)

text \<open>Asking for edge triggering changes nothing: the flag is bit 31.\<close>

lemma EnableET_mask: "short_or a EPOLLET = a"
  by (simp add: short_eq_iff bit_short_or epoll_bit)

lemma short_and_zero: "short_and a m \<noteq> 0 \<longleftrightarrow> (\<exists>n < 16. bit a n \<and> bit m n)"
  by (auto simp: short_eq_iff bit_short_and)

lemma in_sync_ctor: "ep fd = None \<Longrightarrow> in_sync (Channel_ctor t fd, ep)"
  by (simp add: in_sync_def Channel_ctor_def)

lemma channel_ops_eq:
  assumes "in_sync (ch, ep)"
  shows "EnableRead (ch, ep) = (let m = short_or (listen_events ch) (EPOLLIN OR EPOLLPRI)
           in (ch\<lparr>listen_events := m, in_epoll := True\<rparr>, ep(ch_fd ch \<mapsto> scast m)))"
    "EnableWrite (ch, ep) = (let m = short_or (listen_events ch) EPOLLOUT
           in (ch\<lparr>listen_events := m, in_epoll := True\<rparr>, ep(ch_fd ch \<mapsto> scast m)))"
    "DisableRead (ch, ep) = (let m = short_and (listen_events ch) (NOT (EPOLLIN OR EPOLLPRI))
           in (ch\<lparr>listen_events := m, in_epoll := True\<rparr>, ep(ch_fd ch \<mapsto> scast m)))"
    "DisableWrite (ch, ep) = (let m = short_and (listen_events ch) (NOT EPOLLOUT)
           in (ch\<lparr>listen_events := m, in_epoll := True\<rparr>, ep(ch_fd ch \<mapsto> scast m)))"
    "EnableET (ch, ep) = (ch\<lparr>in_epoll := True\<rparr>, ep(ch_fd ch \<mapsto> scast (listen_events ch)))"
  using in_sync_dom [OF assms] by (simp_all add: channel_ops UpdateChannel_sync EnableET_mask Let_def)

section \<open>What the kernel watches\<close>

text \<open>The specification of a channel's interest: two switches. Edge triggering is not among them.\<close>

datatype ch_op = Enable_Read | Enable_Write | Disable_Read | Disable_Write | Enable_ET

fun ch_exec :: "ch_op \<Rightarrow> Channel \<times> epoll \<Rightarrow> Channel \<times> epoll" where
  "ch_exec Enable_Read = EnableRead"
| "ch_exec Enable_Write = EnableWrite"
| "ch_exec Disable_Read = DisableRead"
| "ch_exec Disable_Write = DisableWrite"
| "ch_exec Enable_ET = EnableET"

fun want :: "ch_op \<Rightarrow> bool \<times> bool \<Rightarrow> bool \<times> bool" where
  "want Enable_Read (r, w) = (True, w)"
| "want Enable_Write (r, w) = (r, True)"
| "want Disable_Read (r, w) = (False, w)"
| "want Disable_Write (r, w) = (r, False)"
| "want Enable_ET (r, w) = (r, w)"

definition mask_of :: "bool \<times> bool \<Rightarrow> 32 word" where
  "mask_of rw = (if fst rw then EPOLLIN OR EPOLLPRI else 0) OR (if snd rw then EPOLLOUT else 0)"

text \<open>The channel's mask is that of the switches.\<close>

definition watches :: "bool \<times> bool \<Rightarrow> Channel \<Rightarrow> bool" where
  "watches rw ch \<longleftrightarrow> (\<forall>n < 16. bit (listen_events ch) n \<longleftrightarrow> bit (mask_of rw) n)"

lemma bit_mask_of: "bit (mask_of (r, w)) n \<longleftrightarrow> r \<and> (n = 0 \<or> n = 1) \<or> w \<and> n = 2"
  by (simp add: mask_of_def bit_or_iff epoll_bit)

lemma watches_mask: "watches (r, w) ch \<Longrightarrow> scast (listen_events ch) = mask_of (r, w)"
proof (rule bit_word_eqI)
  fix n assume w: "watches (r, w) ch" and n: "n < LENGTH(32)"
  show "bit (scast (listen_events ch) :: 32 word) n \<longleftrightarrow> bit (mask_of (r, w)) n"
  proof (cases "n < 16")
    case True
    then show ?thesis using w by (simp add: watches_def bit_promoted)
  next
    case False
    moreover have "\<not> bit (listen_events ch) 15" using w by (simp add: watches_def bit_mask_of)
    ultimately show ?thesis by (auto simp: bit_mask_of bit_signed_iff min_def)
  qed
qed

lemma ch_exec_watches:
  assumes "in_sync (ch, ep)" and "watches (r, w) ch" and "ch_exec f (ch, ep) = (ch', ep')"
  shows "in_sync (ch', ep') \<and> in_epoll ch' \<and> ch_fd ch' = ch_fd ch \<and> watches (want f (r, w)) ch'
     \<and> (\<forall>fd. fd \<noteq> ch_fd ch \<longrightarrow> ep' fd = ep fd)"
  using assms
  by (cases f) (auto simp: channel_ops_eq Let_def in_sync_def watches_def bit_short_or bit_short_and
      bit_mask_of bit_or_iff bit_and_iff bit_not_iff epoll_bit)

lemma ch_exec_run:
  assumes "in_sync (ch, ep)" and "watches (r, w) ch" and "fold ch_exec fs (ch, ep) = (ch', ep')"
  shows "in_sync (ch', ep') \<and> (in_epoll ch' \<longleftrightarrow> in_epoll ch \<or> fs \<noteq> []) \<and> ch_fd ch' = ch_fd ch
     \<and> watches (fold want fs (r, w)) ch' \<and> (\<forall>fd. fd \<noteq> ch_fd ch \<longrightarrow> ep' fd = ep fd)"
  using assms
proof (induction fs arbitrary: ch ep r w)
  case (Cons f fs)
  obtain ch1 ep1 where 1: "ch_exec f (ch, ep) = (ch1, ep1)" by (cases "ch_exec f (ch, ep)")
  obtain r1 w1 where w: "want f (r, w) = (r1, w1)" by (cases "want f (r, w)")
  from ch_exec_watches [OF Cons.prems(1,2) 1] Cons.IH [of ch1 ep1 r1 w1] Cons.prems(3) 1 w show ?case
    by auto
qed simp

section \<open>Properties of the channel\<close>

text \<open>C38: The kernel watches exactly what the channel asks for: after any sequence of enabling and
  disabling, from a new channel on a descriptor that was not watched, the descriptor is registered
  (once) with the bits of the switches that are on and no others, other descriptors are untouched, and
  deleting the channel unregisters it. In particular edge triggering, which a connection asks for, is
  never registered: its bit does not fit the 16-bit mask.\<close>

theorem kernel_watches_channel:
  assumes "ep fd = None" and "fs \<noteq> []" and "fold ch_exec fs (Channel_ctor t fd, ep) = (ch, ep')"
  shows "ep' = ep(fd \<mapsto> mask_of (fold want fs (False, False)))
     \<and> \<not> bit (mask_of (fold want fs (False, False))) 31 \<and> snd (DeleteChannel (ch, ep')) = ep"
proof -
  have w: "watches (False, False) (Channel_ctor t fd)"
    by (simp add: watches_def Channel_ctor_def bit_mask_of)
  obtain r w where rw: "fold want fs (False, False) = (r, w)" by (cases "fold want fs (False, False)")
  have "in_sync (Channel_ctor t fd, ep)" using assms(1) by (rule in_sync_ctor)
  from ch_exec_run [OF this w assms(3)] assms(2)
  have run: "in_sync (ch, ep')" "in_epoll ch" "ch_fd ch = fd" "watches (r, w) ch"
    "\<forall>x. x \<noteq> fd \<longrightarrow> ep' x = ep x"
    by (simp_all add: rw Channel_ctor_def)
  then have "ep' fd = Some (mask_of (r, w))" using watches_mask [OF run(4)] by (simp add: in_sync_def)
  then have "ep' = ep(fd \<mapsto> mask_of (r, w))" using run(5) by auto
  then show ?thesis
    using run(3) assms(1) by (auto simp: rw bit_mask_of DeleteChannel_def epoll_del_def)
qed

theorem kernel_watches_channel_witness:
  "snd (fold ch_exec [Enable_ET, Enable_Read, Enable_Write, Disable_Write] (Channel_ctor False 5, Map.empty))
   = [5 \<mapsto> 3]"
proof -
  obtain ch ep where e: "fold ch_exec [Enable_ET, Enable_Read, Enable_Write, Disable_Write]
      (Channel_ctor False 5, Map.empty) = (ch, ep)"
    by (cases "fold ch_exec [Enable_ET, Enable_Read, Enable_Write, Disable_Write] (Channel_ctor False 5, Map.empty)")
  have "mask_of (True, False) = 3" by (simp add: mask_of_def epoll_bits)
  then show ?thesis using kernel_watches_channel [OF _ _ e] e by simp
qed

end
