(* ===== verification/TcpConnection.thy ===== *)
theory TcpConnection
  imports HttpContext Buffer Channel TimerStamp
begin

text \<open>
  A connection: \<open>tcp/TcpConnection.h\<close> and \<open>tcp/TcpConnection.cpp\<close> (class \<open>TcpConnection\<close>). The socket is
  what the system will answer to the next calls of \<open>read\<close> and \<open>write\<close>, and the bytes it has accepted so
  far; the epoll instance is that of the connection's loop. A callback to the server's close handler
  is counted, the message and connection callbacks are parameters that act on the connection and a
  world of their own. The theory shows that bytes are neither lost nor reordered on their way
  through the connection, and what happens when the system reports an error.
\<close>

section \<open>The socket\<close>

datatype errno = EINTR | EAGAIN | Other_errno

text \<open>The outcome of a \<open>read\<close>: a number of bytes (none at the end of the stream), or an error; of a
  \<open>write\<close>: how many bytes were accepted at most, or an error. When no outcome is left, nothing has
  arrived and nothing can be sent: the call answers \<open>EAGAIN\<close>.\<close>

datatype read_result = R_data string | R_error errno
datatype write_result = W_sent nat | W_error errno

record socket =
  incoming :: "read_result list"
  accepts :: "write_result list"
  sent :: string

definition next_write :: "socket \<Rightarrow> write_result \<times> socket" where
  "next_write k = (case accepts k of [] \<Rightarrow> (W_error EAGAIN, k) | w # ws \<Rightarrow> (w, k\<lparr>accepts := ws\<rparr>))"

section \<open>The class\<close>

datatype ConnectionState = Invalid | Connected | Disconected

record TcpConnection =
  connfd :: int
  connid :: int
  conn_state :: ConnectionState
  channel :: Channel
  loop_epoll :: epoll
  read_buf :: Buffer
  send_buf :: Buffer
  conn_context :: HttpContext
  act_time :: TimerStamp
  close_callback :: bool
  close_calls :: nat
  sock :: socket

text \<open>Applying an operation of the channel, which updates the epoll instance\<close>

definition on_channel :: "(Channel \<times> epoll \<Rightarrow> Channel \<times> epoll) \<Rightarrow> TcpConnection \<Rightarrow> TcpConnection" where
  "on_channel f c =
     (case f (channel c, loop_epoll c) of (ch, ep) \<Rightarrow> c\<lparr>channel := ch, loop_epoll := ep\<rparr>)"

text \<open>The constructor: the state is not initialised, nor are a member of the parser and one of the
  channel. The channel's callbacks are \<open>HandleMessage\<close> and \<open>HandleWrite\<close>.\<close>

definition TcpConnection_ctor ::
    "ConnectionState \<Rightarrow> bool \<Rightarrow> bool \<Rightarrow> epoll \<Rightarrow> socket \<Rightarrow> int \<Rightarrow> int \<Rightarrow> TcpConnection" where
  "TcpConnection_ctor st t hdrs ep k fd cid =
     on_channel EnableET
       \<lparr>connfd = fd, connid = cid, conn_state = st, channel = Channel_ctor t fd, loop_epoll = ep,
        read_buf = Buffer_ctor, send_buf = Buffer_ctor, conn_context = HttpContext_ctor hdrs,
        act_time = TimerStamp_ctor0, close_callback = False, close_calls = 0, sock = k\<rparr>"

type_synonym 'w conn_callback = "'w \<times> TcpConnection \<Rightarrow> ('w \<times> TcpConnection) result"

definition ConnectionEstablished :: "'w conn_callback option \<Rightarrow> 'w conn_callback" where
  "ConnectionEstablished on_connect = (\<lambda>(w, c).
     let c1 = on_channel EnableRead (c\<lparr>conn_state := Connected, channel := Tie (channel c)\<rparr>)
     in case on_connect of Some f \<Rightarrow> f (w, c1) | None \<Rightarrow> Inr (w, c1))"

definition ConnectionDestructor :: "TcpConnection \<Rightarrow> TcpConnection" where
  "ConnectionDestructor c = on_channel DeleteChannel c"

definition set_close_callback :: "TcpConnection \<Rightarrow> TcpConnection" where
  "set_close_callback c = c\<lparr>close_callback := True\<rparr>"

definition HandleClose :: "TcpConnection \<Rightarrow> TcpConnection" where
  "HandleClose c =
     (if conn_state c \<noteq> Disconected
      then (let c1 = c\<lparr>conn_state := Disconected\<rparr>
            in if close_callback c1 then c1\<lparr>close_calls := close_calls c1 + 1\<rparr> else c1)
      else c)"

text \<open>The reading loop: the bytes are read into an array of 1024 zeros.\<close>

fun read_loop :: "read_result list \<Rightarrow> TcpConnection \<Rightarrow> (read_result list \<times> TcpConnection) result" where
  "read_loop [] c = Inr ([], c)"
| "read_loop (R_data s # rs) c =
     (if s \<noteq> [] then
        (let arr = s @ replicate (1024 - length s) NUL
         in bindE (Append_n arr (int (length s)) (read_buf c)) (\<lambda>b.
            read_loop rs (c\<lparr>read_buf := b\<rparr>)))
      else Inr (rs, HandleClose c))"
| "read_loop (R_error EINTR # rs) c = read_loop rs c"
| "read_loop (R_error EAGAIN # rs) c = Inr (rs, c)"
| "read_loop (R_error Other_errno # rs) c = Inr (rs, HandleClose c)"

definition ReadNonBlocking :: "TcpConnection \<Rightarrow> TcpConnection result" where
  "ReadNonBlocking c =
     bindE (read_loop (incoming (sock c)) c) (\<lambda>(rs, c1).
     Inr (c1\<lparr>sock := (sock c1)\<lparr>incoming := rs\<rparr>\<rparr>))"

text \<open>One \<open>write\<close> of the readable bytes; every error but \<open>EAGAIN\<close> goes on as a length of -1.\<close>

definition WriteNonBlocking :: "TcpConnection \<Rightarrow> TcpConnection result" where
  "WriteNonBlocking c =
     (let sz = readablebytes (send_buf c); (outcome, k) = next_write (sock c)
      in case outcome of
           W_sent n \<Rightarrow>
             (let m = min (int n) sz
              in bindE (PeekAsString m (send_buf c)) (\<lambda>s.
                 bindE (Retrieve m (send_buf c)) (\<lambda>b.
                 Inr (c\<lparr>send_buf := b, sock := k\<lparr>sent := sent k @ s\<rparr>\<rparr>))))
         | W_error e \<Rightarrow>
             bindE (Retrieve (if e = EAGAIN then 0 else - 1) (send_buf c)) (\<lambda>b.
             Inr (c\<lparr>send_buf := b, sock := k\<rparr>)))"

definition HandleMessage :: "'w conn_callback option \<Rightarrow> 'w conn_callback" where
  "HandleMessage on_message = (\<lambda>(w, c).
     bindE (ReadNonBlocking c) (\<lambda>c1.
     case on_message of
       Some f \<Rightarrow> f (w, c1)
     | None \<Rightarrow> Inr (w, c1\<lparr>read_buf := RetrieveAll (read_buf c1)\<rparr>)))"

definition HandleWrite :: "TcpConnection \<Rightarrow> TcpConnection result" where
  "HandleWrite c =
     bindE (WriteNonBlocking c) (\<lambda>c1.
     Inr (if readablebytes (send_buf c1) = 0 then on_channel DisableWrite c1 else c1))"

definition Send_n :: "string \<Rightarrow> int \<Rightarrow> TcpConnection \<Rightarrow> TcpConnection result" where
  "Send_n msg len c =
     bindE (Append_n msg len (send_buf c)) (\<lambda>b.
     bindE (WriteNonBlocking (c\<lparr>send_buf := b\<rparr>)) (\<lambda>c1.
     Inr (if readablebytes (send_buf c1) > 0 then on_channel EnableWrite c1 else c1)))"

definition Send_string :: "string \<Rightarrow> TcpConnection \<Rightarrow> TcpConnection result" where
  "Send_string msg c = Send_n msg (to_int32 (int (length msg))) c"

definition Send_cstr :: "string \<Rightarrow> TcpConnection \<Rightarrow> TcpConnection result" where
  "Send_cstr msg c = Send_n msg (to_int32 (int (strlen msg))) c"

text \<open>The channel's callbacks, as the constructor sets them, when the kernel reports events on the socket\<close>

definition on_ready :: "'w conn_callback \<Rightarrow> 32 word \<Rightarrow> 'w conn_callback" where
  "on_ready on_message ev = (\<lambda>(w, c).
     let ch = SetReadyEvents ev (channel c)
     in HandleEvent (Some (HandleMessage (Some on_message)))
          (Some (\<lambda>(w, c). bindE (HandleWrite c) (\<lambda>c1. Inr (w, c1)))) ch (w, c\<lparr>channel := ch\<rparr>))"

definition SetActTime :: "TimerStamp \<Rightarrow> TcpConnection \<Rightarrow> TcpConnection" where
  "SetActTime ts c = c\<lparr>act_time := ts\<rparr>"

section \<open>Invariant\<close>

text \<open>Both buffers are well-formed, the kernel watches what the channel asks for, and as long as bytes
  are waiting to be sent, it watches for writability.\<close>

definition conn_inv :: "TcpConnection \<Rightarrow> bool" where
  "conn_inv c \<longleftrightarrow> binv (read_buf c) \<and> binv (send_buf c)
     \<and> ch_fd (channel c) = connfd c \<and> in_epoll (channel c) \<and> in_sync (channel c, loop_epoll c)
     \<and> (\<exists>w. watches (True, w) (channel c) \<and> (contents (send_buf c) \<noteq> [] \<longrightarrow> w))"

text \<open>Everything that was handed to the connection to be sent, and is sent or still waiting\<close>

definition outgoing :: "TcpConnection \<Rightarrow> string" where
  "outgoing c = sent (sock c) @ contents (send_buf c)"

text \<open>What the system accepts is never an error other than \<open>EAGAIN\<close>.\<close>

definition writes_ok :: "TcpConnection \<Rightarrow> bool" where
  "writes_ok c \<longleftrightarrow> (\<forall>e. W_error e \<in> set (accepts (sock c)) \<longrightarrow> e = EAGAIN)"

lemma on_channel_simps [simp]:
  "read_buf (on_channel f c) = read_buf c" "send_buf (on_channel f c) = send_buf c"
  "sock (on_channel f c) = sock c" "conn_state (on_channel f c) = conn_state c"
  "conn_context (on_channel f c) = conn_context c" "close_calls (on_channel f c) = close_calls c"
  "connfd (on_channel f c) = connfd c" "connid (on_channel f c) = connid c"
  "act_time (on_channel f c) = act_time c" "close_callback (on_channel f c) = close_callback c"
  by (simp_all add: on_channel_def split: prod.split)

lemma HandleClose_simps [simp]:
  "read_buf (HandleClose c) = read_buf c" "send_buf (HandleClose c) = send_buf c"
  "sock (HandleClose c) = sock c" "channel (HandleClose c) = channel c"
  "loop_epoll (HandleClose c) = loop_epoll c" "conn_context (HandleClose c) = conn_context c"
  "conn_state (HandleClose c) = Disconected" "connfd (HandleClose c) = connfd c"
  "close_callback (HandleClose c) = close_callback c" "connid (HandleClose c) = connid c"
  "act_time (HandleClose c) = act_time c"
  by (simp_all add: HandleClose_def Let_def)

lemma on_channel_exec:
  assumes "in_sync (channel c, loop_epoll c)" and "watches (r, w) (channel c)"
  shows "in_sync (channel (on_channel (ch_exec f) c), loop_epoll (on_channel (ch_exec f) c))
     \<and> watches (want f (r, w)) (channel (on_channel (ch_exec f) c))
     \<and> ch_fd (channel (on_channel (ch_exec f) c)) = ch_fd (channel c)
     \<and> in_epoll (channel (on_channel (ch_exec f) c))
     \<and> (\<forall>fd. fd \<noteq> ch_fd (channel c) \<longrightarrow> loop_epoll (on_channel (ch_exec f) c) fd = loop_epoll c fd)"
proof -
  obtain ch ep where x: "ch_exec f (channel c, loop_epoll c) = (ch, ep)"
    by (cases "ch_exec f (channel c, loop_epoll c)")
  with ch_exec_watches [OF assms x] show ?thesis by (simp add: on_channel_def)
qed

section \<open>Writing\<close>

text \<open>How many bytes a write takes at most\<close>

fun write_amount :: "write_result \<Rightarrow> nat" where
  "write_amount (W_sent n) = n"
| "write_amount (W_error e) = 0"

text \<open>A write moves some of the waiting bytes, from the front, to the socket.\<close>

lemma WriteNonBlocking_spec:
  assumes "binv (send_buf c)" and "writes_ok c"
  shows "\<exists>b k. WriteNonBlocking c = Inr (c\<lparr>send_buf := b, sock := k\<rparr>) \<and> binv b
     \<and> sent k @ contents b = outgoing c \<and> write_index b \<le> write_index (send_buf c)
     \<and> incoming k = incoming (sock c) \<and> accepts k = List.tl (accepts (sock c))
     \<and> contents b = drop (write_amount (fst (next_write (sock c)))) (contents (send_buf c))"
proof -
  let ?b = "send_buf c"
  have len: "readablebytes ?b = int (length (contents ?b))" using length_contents [OF assms(1)] by simp
  obtain o1 k where k: "next_write (sock c) = (o1, k)" by (cases "next_write (sock c)")
  have k': "sent k = sent (sock c)" "incoming k = incoming (sock c)"
    "accepts k = List.tl (accepts (sock c))"
    using k by (auto simp: next_write_def split: list.splits)
  show ?thesis
  proof (cases o1)
    case (W_sent n)
    define m where "m = min (int n) (readablebytes ?b)"
    have m: "0 \<le> m" "m \<le> readablebytes ?b" using len by (simp_all add: m_def)
    obtain b where b: "RetrieveAsString m ?b = Inr (take (nat m) (contents ?b), b)" "binv b"
        "contents b = drop (nat m) (contents ?b)" "write_index b \<le> write_index ?b"
      using RetrieveAsString_spec [OF assms(1) m] by blast
    then have "PeekAsString m ?b = Inr (take (nat m) (contents ?b))" "Retrieve m ?b = Inr b"
      by (auto simp: RetrieveAsString_def bindE_def split: sum.splits)
    then have "WriteNonBlocking c
        = Inr (c\<lparr>send_buf := b, sock := k\<lparr>sent := sent k @ take (nat m) (contents ?b)\<rparr>\<rparr>)"
      by (simp add: WriteNonBlocking_def k W_sent Let_def m_def [symmetric])
    moreover have "drop (nat m) (contents ?b) = drop n (contents ?b)"
      using len by (simp add: m_def min_def)
    moreover from this have "take (nat m) (contents ?b) @ drop n (contents ?b) = contents ?b"
      by (metis append_take_drop_id)
    ultimately show ?thesis
      using b k' by (intro exI [of _ b] exI [of _ "k\<lparr>sent := sent k @ take (nat m) (contents ?b)\<rparr>"])
        (simp add: outgoing_def k W_sent)
  next
    case (W_error e)
    have "e = EAGAIN"
      using k assms(2) W_error by (auto simp: next_write_def writes_ok_def split: list.splits)
    moreover obtain b where "Retrieve 0 ?b = Inr b" "binv b" "contents b = contents ?b"
        "write_index b \<le> write_index ?b"
      using Retrieve_spec [OF assms(1), of 0] len by auto
    ultimately show ?thesis
      using k' by (intro exI [of _ b] exI [of _ k]) (simp add: WriteNonBlocking_def k W_error Let_def outgoing_def)
  qed
qed

text \<open>What reading and writing leave alone\<close>

definition same_but_io :: "TcpConnection \<Rightarrow> TcpConnection \<Rightarrow> bool" where
  "same_but_io c c' \<longleftrightarrow> conn_context c' = conn_context c \<and> connfd c' = connfd c \<and> connid c' = connid c
     \<and> act_time c' = act_time c \<and> conn_state c' = conn_state c \<and> close_calls c' = close_calls c
     \<and> read_buf c' = read_buf c \<and> incoming (sock c') = incoming (sock c)"

lemma watching_cases:
  assumes "in_sync (channel c, loop_epoll c)" "watches (True, w) (channel c)"
    and "binv (read_buf c)" "binv (send_buf c)" "ch_fd (channel c) = connfd c" "in_epoll (channel c)"
  shows "contents (send_buf c) = [] \<or> w \<Longrightarrow> conn_inv c"
    and "conn_inv (on_channel EnableWrite c)"
    and "contents (send_buf c) = [] \<Longrightarrow> conn_inv (on_channel DisableWrite c)"
  using assms on_channel_exec [OF assms(1,2), of Enable_Write] on_channel_exec [OF assms(1,2), of Disable_Write]
  by (auto simp: conn_inv_def)

lemma in_set_tlD: "w \<in> set (List.tl ws) \<Longrightarrow> w \<in> set ws"
  by (cases ws) auto

lemma HandleWrite_spec:
  assumes "conn_inv c" and "writes_ok c"
  shows "\<exists>c'. HandleWrite c = Inr c' \<and> conn_inv c' \<and> writes_ok c' \<and> outgoing c' = outgoing c
     \<and> same_but_io c c' \<and> write_index (send_buf c') \<le> write_index (send_buf c)"
proof -
  obtain w where w: "in_sync (channel c, loop_epoll c)" "watches (True, w) (channel c)"
      "binv (read_buf c)" "binv (send_buf c)" "contents (send_buf c) \<noteq> [] \<longrightarrow> w"
      "ch_fd (channel c) = connfd c" "in_epoll (channel c)"
    using assms(1) by (auto simp: conn_inv_def)
  obtain b k where c1: "WriteNonBlocking c = Inr (c\<lparr>send_buf := b, sock := k\<rparr>)" "binv b"
      "sent k @ contents b = outgoing c" "write_index b \<le> write_index (send_buf c)" "incoming k = incoming (sock c)"
      "accepts k = List.tl (accepts (sock c))"
      "contents b = drop (write_amount (fst (next_write (sock c)))) (contents (send_buf c))"
    using WriteNonBlocking_spec [OF w(4) assms(2)] by blast
  let ?c = "c\<lparr>send_buf := b, sock := k\<rparr>"
  have e: "readablebytes b = 0 \<longleftrightarrow> contents b = []" using length_contents [OF c1(2)] by auto
  have "contents b = [] \<or> w" using w(5) c1(7) by fastforce
  then have "conn_inv (if readablebytes b = 0 then on_channel DisableWrite ?c else ?c)"
    using watching_cases [of ?c w] w c1(2) e by simp
  then show ?thesis
    using c1 assms(2) by (auto dest: in_set_tlD simp: HandleWrite_def same_but_io_def outgoing_def writes_ok_def)
qed

lemma Send_spec:
  assumes "conn_inv c" and "writes_ok c" and "write_index (send_buf c) + int (length msg) + 8 \<le> INT_MAX"
  shows "\<exists>c'. Send_string msg c = Inr c' \<and> conn_inv c' \<and> writes_ok c' \<and> outgoing c' = outgoing c @ msg
     \<and> same_but_io c c' \<and> write_index (send_buf c') \<le> write_index (send_buf c) + int (length msg)"
proof -
  obtain w where w: "in_sync (channel c, loop_epoll c)" "watches (True, w) (channel c)"
      "binv (read_buf c)" "binv (send_buf c)" "contents (send_buf c) \<noteq> [] \<longrightarrow> w"
      "ch_fd (channel c) = connfd c" "in_epoll (channel c)"
    using assms(1) by (auto simp: conn_inv_def)
  have len: "to_int32 (int (length msg)) = int (length msg)"
    using assms(3) w(4) by (simp add: binv_def)
  obtain a where a: "Append_n msg (int (length msg)) (send_buf c) = Inr a" "binv a"
      "contents a = contents (send_buf c) @ msg" "write_index a \<le> write_index (send_buf c) + int (length msg)"
    using Append_n_spec [OF w(4) assms(3)] by (auto simp: appended_def)
  let ?a = "c\<lparr>send_buf := a\<rparr>"
  have "writes_ok ?a" using assms(2) by (simp add: writes_ok_def)
  then obtain b k where c1: "WriteNonBlocking ?a = Inr (?a\<lparr>send_buf := b, sock := k\<rparr>)" "binv b"
      "sent k @ contents b = outgoing ?a" "write_index b \<le> write_index a" "incoming k = incoming (sock c)"
      "accepts k = List.tl (accepts (sock c))"
    using WriteNonBlocking_spec [of ?a] a(2) by auto
  let ?c = "c\<lparr>send_buf := b, sock := k\<rparr>"
  have e: "readablebytes b > 0 \<longleftrightarrow> contents b \<noteq> []"
    using length_contents [OF c1(2), symmetric] by simp
  then have "conn_inv (if readablebytes b > 0 then on_channel EnableWrite ?c else ?c)"
    using watching_cases [of ?c w] w c1(2) by simp
  then show ?thesis
    using c1 a len assms(2)
    by (auto dest: in_set_tlD simp: Send_string_def Send_n_def same_but_io_def outgoing_def writes_ok_def)
qed

lemma Send_cstr_eq: "NUL \<notin> set msg \<Longrightarrow> Send_cstr msg c = Send_string msg c"
proof -
  assume "NUL \<notin> set msg"
  then have "takeWhile (\<lambda>x. x \<noteq> NUL) msg = msg"
    by (intro takeWhile_eq_all_conv [THEN iffD2]) blast
  then have "strlen msg = length msg" by (simp only: strlen_def)
  then show ?thesis by (simp add: Send_cstr_def Send_string_def)
qed

section \<open>Reading\<close>

text \<open>The bytes that have arrived up to where reading stops, and whether it stops because the
  connection is closed or broken\<close>

fun arrived :: "read_result list \<Rightarrow> string \<times> bool" where
  "arrived [] = ([], False)"
| "arrived (R_data s # rs) = (if s = [] then ([], True) else (s @ fst (arrived rs), snd (arrived rs)))"
| "arrived (R_error EINTR # rs) = arrived rs"
| "arrived (R_error EAGAIN # rs) = ([], False)"
| "arrived (R_error Other_errno # rs) = ([], True)"

definition reads_ok :: "TcpConnection \<Rightarrow> bool" where
  "reads_ok c \<longleftrightarrow> (\<forall>s. R_data s \<in> set (incoming (sock c)) \<longrightarrow> length s \<le> 1024)"

lemma Append_array:
  assumes "binv b" and "length s \<le> 1024" and "write_index b + int (length s) + 8 \<le> INT_MAX"
  shows "\<exists>b'. Append_n (s @ replicate (1024 - length s) NUL) (int (length s)) b = Inr b' \<and> appended s b b'"
proof -
  have "read_range 0 (int (length s)) (s @ replicate (1024 - length s) NUL) = Inr s"
    "read_range 0 (int (length s)) s = Inr s"
    by (simp_all add: read_range_def slice_full_prefix)
  then have "Append_n (s @ replicate (1024 - length s) NUL) (int (length s)) b = Append_n s (int (length s)) b"
    by (simp add: Append_n_def)
  then show ?thesis using Append_n_spec [OF assms(1,3)] by simp
qed

lemma read_loop_spec:
  assumes "binv (read_buf c)" and "\<forall>s. R_data s \<in> set rs \<longrightarrow> length s \<le> 1024"
    and "write_index (read_buf c) + int (length (fst (arrived rs))) + 8 \<le> INT_MAX"
  shows "\<exists>rs' b. read_loop rs c
       = Inr (rs', if snd (arrived rs) then HandleClose (c\<lparr>read_buf := b\<rparr>) else c\<lparr>read_buf := b\<rparr>)
     \<and> binv b \<and> contents b = contents (read_buf c) @ fst (arrived rs)
     \<and> write_index b \<le> write_index (read_buf c) + int (length (fst (arrived rs)))
     \<and> set rs' \<subseteq> set rs"
  using assms
proof (induction rs c rule: read_loop.induct)
  case (2 s rs c)
  show ?case
  proof (cases "s = []")
    case False
    have l: "length s \<le> 1024" using "2.prems"(2) by simp
    have room: "write_index (read_buf c) + int (length s) + 8 \<le> INT_MAX"
      using "2.prems"(3) False by simp
    obtain b1 where b1: "Append_n (s @ replicate (1024 - length s) NUL) (int (length s)) (read_buf c) = Inr b1"
        "binv b1" "contents b1 = contents (read_buf c) @ s"
        "write_index b1 \<le> write_index (read_buf c) + int (length s)"
      using Append_array [OF "2.prems"(1) l room] by (auto simp: appended_def)
    define c1 where "c1 = c\<lparr>read_buf := b1\<rparr>"
    have rb: "read_buf c1 = b1" by (simp add: c1_def)
    have p: "\<forall>s. R_data s \<in> set rs \<longrightarrow> length s \<le> 1024" using "2.prems"(2) by simp
    have q: "write_index (read_buf c1) + int (length (fst (arrived rs))) + 8 \<le> INT_MAX"
      using "2.prems"(3) False b1(4) by (simp add: rb)
    have bi: "binv (read_buf c1)" using b1(2) by (simp add: rb)
    obtain rs' b where *: "read_loop rs c1
         = Inr (rs', if snd (arrived rs) then HandleClose (c1\<lparr>read_buf := b\<rparr>) else c1\<lparr>read_buf := b\<rparr>)"
        "binv b" "contents b = contents (read_buf c1) @ fst (arrived rs)"
        "write_index b \<le> write_index (read_buf c1) + int (length (fst (arrived rs)))" "set rs' \<subseteq> set rs"
      using "2.IH" [OF False refl b1(1)] bi p q unfolding c1_def by blast
    have "read_loop (R_data s # rs) c
         = Inr (rs', if snd (arrived rs) then HandleClose (c\<lparr>read_buf := b\<rparr>) else c\<lparr>read_buf := b\<rparr>)"
      using *(1) False b1(1) by (simp add: c1_def Let_def)
    then show ?thesis using False b1 * unfolding rb by (intro exI [of _ rs'] exI [of _ b]) auto
  qed (use "2.prems" in \<open>auto intro: exI [of _ "read_buf c"]\<close>)
next
  case (3 rs c)
  then show ?case by fastforce
next
  case (1 c)
  then show ?case by (intro exI [of _ "[]"] exI [of _ "read_buf c"]) simp
next
  case (4 rs c)
  then show ?case by (intro exI [of _ rs] exI [of _ "read_buf c"]) auto
next
  case (5 rs c)
  then show ?case by (intro exI [of _ rs] exI [of _ "read_buf c"]) auto
qed

section \<open>Runs of a connection\<close>

text \<open>The bytes among the outcomes of reading that are still to come; reading moves bytes from there to
  the buffer.\<close>

fun data_of :: "read_result list \<Rightarrow> string" where
  "data_of [] = []"
| "data_of (R_data s # rs) = s @ data_of rs"
| "data_of (R_error e # rs) = data_of rs"

lemma arrived_data: "\<exists>t. data_of rs = fst (arrived rs) @ t"
  by (induction rs rule: arrived.induct) auto

lemma read_loop_data:
  assumes "read_loop rs c = Inr (rs', c')"
  shows "data_of rs = fst (arrived rs) @ data_of rs'"
  using assms by (induction rs c rule: read_loop.induct)
    (auto simp: Let_def bindE_def split: if_splits sum.splits)

text \<open>The connection's operations as they are called from outside: by the program, by the loop when the
  socket is ready, and by the server's timer.\<close>

datatype conn_op = Op_Send string | Op_HandleWrite | Op_Read | Op_HandleClose

fun conn_exec :: "conn_op \<Rightarrow> TcpConnection \<Rightarrow> TcpConnection result" where
  "conn_exec (Op_Send m) c = Send_string m c"
| "conn_exec Op_HandleWrite c = HandleWrite c"
| "conn_exec Op_Read c = ReadNonBlocking c"
| "conn_exec Op_HandleClose c = Inr (HandleClose c)"

fun op_msg :: "conn_op \<Rightarrow> string" where
  "op_msg (Op_Send m) = m"
| "op_msg _ = []"

text \<open>The close callback is called exactly when the connection leaves the state it is in for
  \<open>Disconected\<close>.\<close>

definition closed_once :: "TcpConnection \<Rightarrow> bool" where
  "closed_once c \<longleftrightarrow> close_callback c \<and> close_calls c = (if conn_state c = Disconected then 1 else 0)"

definition conn_ok :: "TcpConnection \<Rightarrow> bool" where
  "conn_ok c \<longleftrightarrow> conn_inv c \<and> writes_ok c \<and> reads_ok c \<and> closed_once c"

text \<open>Room for the bytes still to be sent and received, so that no index reaches the limit of an
  \<open>int\<close>\<close>

definition conn_room :: "nat \<Rightarrow> TcpConnection \<Rightarrow> bool" where
  "conn_room n c \<longleftrightarrow> write_index (send_buf c) + int n + 8 \<le> INT_MAX
     \<and> write_index (read_buf c) + int (length (data_of (incoming (sock c)))) + 8 \<le> INT_MAX"

text \<open>Everything that arrived and was not taken out, with what is to come\<close>

definition ingoing :: "TcpConnection \<Rightarrow> string" where
  "ingoing c = contents (read_buf c) @ data_of (incoming (sock c))"

lemma HandleClose_ok:
  assumes "conn_ok c"
  shows "conn_ok (HandleClose c)" "outgoing (HandleClose c) = outgoing c" "ingoing (HandleClose c) = ingoing c"
  using assms by (auto simp: conn_ok_def conn_inv_def writes_ok_def reads_ok_def closed_once_def
      outgoing_def ingoing_def HandleClose_def Let_def)

lemma conn_ok_same:
  assumes "conn_ok c" "same_but_io c c'" "conn_inv c'" "writes_ok c'" "close_callback c' = close_callback c"
  shows "conn_ok c'"
  using assms by (simp add: conn_ok_def same_but_io_def reads_ok_def closed_once_def)

lemma close_callback_io:
  "WriteNonBlocking c = Inr c' \<Longrightarrow> close_callback c' = close_callback c"
  "HandleWrite c = Inr c' \<Longrightarrow> close_callback c' = close_callback c"
  "Send_string m c = Inr c' \<Longrightarrow> close_callback c' = close_callback c"
proof -
  show w: "close_callback c' = close_callback c" if "WriteNonBlocking c = Inr c'" for c c'
    using that by (auto simp: WriteNonBlocking_def Let_def bindE_def split: prod.splits write_result.splits sum.splits)
  show "HandleWrite c = Inr c' \<Longrightarrow> close_callback c' = close_callback c"
    using w by (auto simp: HandleWrite_def bindE_def split: sum.splits if_splits)
  show "Send_string m c = Inr c' \<Longrightarrow> close_callback c' = close_callback c"
    using w by (fastforce simp: Send_string_def Send_n_def bindE_def split: sum.splits if_splits)
qed

lemma ReadNonBlocking_spec:
  assumes "conn_ok c" and "conn_room n c"
  shows "\<exists>b k. ReadNonBlocking c = Inr (let c1 = c\<lparr>read_buf := b, sock := k\<rparr>
         in if snd (arrived (incoming (sock c))) then HandleClose c1 else c1)
     \<and> binv b \<and> contents b = contents (read_buf c) @ fst (arrived (incoming (sock c)))
     \<and> data_of (incoming (sock c)) = fst (arrived (incoming (sock c))) @ data_of (incoming k)
     \<and> write_index b \<le> write_index (read_buf c) + int (length (fst (arrived (incoming (sock c)))))
     \<and> set (incoming k) \<subseteq> set (incoming (sock c)) \<and> sent k = sent (sock c) \<and> accepts k = accepts (sock c)"
proof -
  obtain t where t: "data_of (incoming (sock c)) = fst (arrived (incoming (sock c))) @ t"
    using arrived_data by blast
  obtain rs' b where b: "read_loop (incoming (sock c)) c
       = Inr (rs', if snd (arrived (incoming (sock c))) then HandleClose (c\<lparr>read_buf := b\<rparr>) else c\<lparr>read_buf := b\<rparr>)"
      "binv b" "contents b = contents (read_buf c) @ fst (arrived (incoming (sock c)))"
      "write_index b \<le> write_index (read_buf c) + int (length (fst (arrived (incoming (sock c)))))"
      "set rs' \<subseteq> set (incoming (sock c))"
    using read_loop_spec [of c "incoming (sock c)"] assms t
    by (auto simp: conn_ok_def conn_inv_def reads_ok_def conn_room_def)
  have "ReadNonBlocking c = Inr (let c1 = c\<lparr>read_buf := b, sock := (sock c)\<lparr>incoming := rs'\<rparr>\<rparr>
         in if snd (arrived (incoming (sock c))) then HandleClose c1 else c1)"
    using b(1) by (simp add: ReadNonBlocking_def HandleClose_def Let_def)
  with b read_loop_data [OF b(1)] show ?thesis
    by (intro exI [of _ b] exI [of _ "(sock c)\<lparr>incoming := rs'\<rparr>"]) auto
qed

lemma conn_exec_step:
  assumes "conn_ok c" and "conn_room (length (op_msg f) + n) c"
  shows "\<exists>c'. conn_exec f c = Inr c' \<and> conn_ok c' \<and> conn_room n c'
     \<and> outgoing c' = outgoing c @ op_msg f \<and> ingoing c' = ingoing c"
proof (cases f)
  case (Op_Send m)
  have ok: "conn_inv c" "writes_ok c" using assms(1) by (simp_all add: conn_ok_def)
  have room: "write_index (send_buf c) + int (length m) + 8 \<le> INT_MAX"
    using assms(2) by (simp add: conn_room_def Op_Send)
  obtain c' where c': "Send_string m c = Inr c'" "conn_inv c'" "writes_ok c'" "outgoing c' = outgoing c @ m"
      "same_but_io c c'" "write_index (send_buf c') \<le> write_index (send_buf c) + int (length m)"
    using Send_spec [OF ok room] by blast
  have "conn_ok c'" using conn_ok_same [OF assms(1) c'(5,2,3) close_callback_io(3) [OF c'(1)]] .
  then show ?thesis using c' assms(2) Op_Send by (auto simp: conn_room_def same_but_io_def ingoing_def)
next
  case Op_HandleWrite
  have ok: "conn_inv c" "writes_ok c" using assms(1) by (simp_all add: conn_ok_def)
  obtain c' where c': "HandleWrite c = Inr c'" "conn_inv c'" "writes_ok c'" "outgoing c' = outgoing c"
      "same_but_io c c'" "write_index (send_buf c') \<le> write_index (send_buf c)"
    using HandleWrite_spec [OF ok] by blast
  have "conn_ok c'" using conn_ok_same [OF assms(1) c'(5,2,3) close_callback_io(2) [OF c'(1)]] .
  then show ?thesis using c' assms(2) Op_HandleWrite by (auto simp: conn_room_def same_but_io_def ingoing_def)
next
  case Op_Read
  obtain b k where b: "ReadNonBlocking c = Inr (let c1 = c\<lparr>read_buf := b, sock := k\<rparr>
         in if snd (arrived (incoming (sock c))) then HandleClose c1 else c1)" "binv b"
      "contents b = contents (read_buf c) @ fst (arrived (incoming (sock c)))"
      "data_of (incoming (sock c)) = fst (arrived (incoming (sock c))) @ data_of (incoming k)"
      "write_index b \<le> write_index (read_buf c) + int (length (fst (arrived (incoming (sock c)))))"
      "set (incoming k) \<subseteq> set (incoming (sock c))" "sent k = sent (sock c)" "accepts k = accepts (sock c)"
    using ReadNonBlocking_spec [OF assms] by blast
  let ?c = "c\<lparr>read_buf := b, sock := k\<rparr>"
  have ok: "conn_ok ?c"
    using assms(1) b(2,6,8) by (auto simp: conn_ok_def conn_inv_def writes_ok_def reads_ok_def closed_once_def)
  have "conn_room n ?c" using assms(2) b(4,5) by (auto simp: conn_room_def Op_Read)
  moreover have "conn_room n (HandleClose c) = conn_room n c" for c by (simp add: conn_room_def)
  moreover have "outgoing ?c = outgoing c" "ingoing ?c = ingoing c"
    using b(3,4,7) by (simp_all add: outgoing_def ingoing_def)
  ultimately show ?thesis using HandleClose_ok [OF ok] ok b(1) Op_Read by (auto simp: Let_def)
next
  case Op_HandleClose
  moreover have "conn_room n (HandleClose c) = conn_room n c" for c by (simp add: conn_room_def)
  ultimately show ?thesis using HandleClose_ok [OF assms(1)] assms(2) by simp
qed

lemma conn_exec_run:
  assumes "conn_ok c" and "conn_room (length (concat (map op_msg fs))) c"
  shows "\<exists>c'. foldE conn_exec fs c = Inr c' \<and> conn_ok c'
     \<and> outgoing c' = outgoing c @ concat (map op_msg fs) \<and> ingoing c' = ingoing c"
  using assms
proof (induction fs arbitrary: c)
  case (Cons f fs)
  then have "conn_room (length (op_msg f) + length (concat (map op_msg fs))) c" by simp
  from conn_exec_step [OF Cons.prems(1) this] obtain c1 where
    c1: "conn_exec f c = Inr c1" "conn_ok c1" "conn_room (length (concat (map op_msg fs))) c1"
      "outgoing c1 = outgoing c @ op_msg f" "ingoing c1 = ingoing c" by blast
  from Cons.IH [OF c1(2,3)] c1 show ?case by auto
qed simp

text \<open>What an operation leaves as it is: the identity of the connection, its state unless it is closed, and
  what the kernel watches for other descriptors\<close>

definition same_place :: "TcpConnection \<Rightarrow> TcpConnection \<Rightarrow> bool" where
  "same_place c c' \<longleftrightarrow> connfd c' = connfd c \<and> connid c' = connid c \<and> ch_fd (channel c') = ch_fd (channel c)
     \<and> (conn_state c' = conn_state c \<or> conn_state c' = Disconected)
     \<and> (\<forall>fd. fd \<noteq> ch_fd (channel c) \<longrightarrow> loop_epoll c' fd = loop_epoll c fd)"

lemma same_place_HandleClose [simp]: "same_place c (HandleClose c)"
  by (simp add: same_place_def)

lemma same_place_trans: "same_place a b \<Longrightarrow> same_place b c \<Longrightarrow> same_place a c"
  by (auto simp: same_place_def)

lemma UpdateChannel_other:
  "ch_fd (fst (UpdateChannel (ch, ep))) = ch_fd ch" "fd \<noteq> ch_fd ch \<Longrightarrow> snd (UpdateChannel (ch, ep)) fd = ep fd"
  by (simp_all add: UpdateChannel_def Let_def epoll_add_def epoll_mod_def)

lemma same_place_on_channel: "same_place c (on_channel EnableWrite c)" "same_place c (on_channel DisableWrite c)"
  by (simp_all add: same_place_def on_channel_def EnableWrite_def DisableWrite_def case_prod_beta UpdateChannel_other)

lemma same_place_write:
  assumes "WriteNonBlocking c = Inr c'"
  shows "same_place c c'"
proof -
  obtain o1 k where k: "next_write (sock c) = (o1, k)" by (cases "next_write (sock c)")
  have "\<exists>b k'. c' = c\<lparr>send_buf := b, sock := k'\<rparr>"
  proof (cases o1)
    case (W_sent n)
    then show ?thesis using assms k by (auto simp: WriteNonBlocking_def Let_def result_simps)
  next
    case (W_error e)
    then show ?thesis using assms k by (auto simp: WriteNonBlocking_def Let_def result_simps)
  qed
  then show ?thesis by (auto simp: same_place_def)
qed

lemma same_place_fields [simp]:
  "same_place (c\<lparr>read_buf := b\<rparr>) d = same_place c d" "same_place (c\<lparr>send_buf := b\<rparr>) d = same_place c d"
  "same_place c (d\<lparr>sock := k\<rparr>) = same_place c d" "same_place c c"
  by (simp_all add: same_place_def)

lemma same_place_read_loop: "read_loop rs c = Inr (rs', c') \<Longrightarrow> same_place c c'"
proof (induction rs c arbitrary: rs' c' rule: read_loop.induct)
  case (2 s rs c)
  show ?case
  proof (cases "s = []")
    case True
    then show ?thesis using "2.prems" by auto
  next
    case False
    then obtain b where "Append_n (s @ replicate (1024 - length s) NUL) (int (length s)) (read_buf c) = Inr b"
        "read_loop rs (c\<lparr>read_buf := b\<rparr>) = Inr (rs', c')"
      using "2.prems" by (auto simp: result_simps)
    then show ?thesis using "2.IH" [of _ b] False by simp
  qed
qed auto

lemma conn_exec_same_place:
  assumes "conn_exec f c = Inr c'"
  shows "same_place c c'"
proof (cases f)
  case (Op_Send m)
  then have "Send_n m (to_int32 (int (length m))) c = Inr c'" using assms by (simp add: Send_string_def)
  then obtain b c1 where "WriteNonBlocking (c\<lparr>send_buf := b\<rparr>) = Inr c1"
      "Inr (if readablebytes (send_buf c1) > 0 then on_channel EnableWrite c1 else c1) = (Inr c' :: TcpConnection result)"
    unfolding Send_n_def bindE_eq_Inr by blast
  moreover from this(1) have "same_place c c1" using same_place_write [of "c\<lparr>send_buf := b\<rparr>" c1] by simp
  ultimately show ?thesis using same_place_trans [OF _ same_place_on_channel(1), of c c1] by (simp split: if_splits)
next
  case Op_HandleWrite
  then have "HandleWrite c = Inr c'" using assms by simp
  then obtain c1 where "WriteNonBlocking c = Inr c1"
      "Inr (if readablebytes (send_buf c1) = 0 then on_channel DisableWrite c1 else c1) = (Inr c' :: TcpConnection result)"
    unfolding HandleWrite_def bindE_eq_Inr by blast
  then show ?thesis using same_place_write [of c c1] same_place_trans [OF _ same_place_on_channel(2), of c c1] by (simp split: if_splits)
next
  case Op_Read
  then obtain rs c1 where "read_loop (incoming (sock c)) c = Inr (rs, c1)" "c' = c1\<lparr>sock := (sock c1)\<lparr>incoming := rs\<rparr>\<rparr>"
    using assms by (auto simp: ReadNonBlocking_def result_simps)
  then show ?thesis using same_place_read_loop [of "incoming (sock c)" c rs c1] by simp
qed (use assms in auto)

text \<open>A connection as the server sets it up, on a socket whose descriptor is not watched yet: the close
  callback is set, and \<open>ConnectionEstablished\<close> has run (its callback, if any, leaves the connection
  as it is).\<close>

definition established :: "ConnectionState \<Rightarrow> bool \<Rightarrow> bool \<Rightarrow> epoll \<Rightarrow> socket \<Rightarrow> int \<Rightarrow> int \<Rightarrow> TcpConnection" where
  "established st t hdrs ep k fd cid =
     (case ConnectionEstablished None ((), set_close_callback (TcpConnection_ctor st t hdrs ep k fd cid)) of
        Inr (w, c) \<Rightarrow> c | Inl e \<Rightarrow> undefined)"

definition socket_ok :: "socket \<Rightarrow> bool" where
  "socket_ok k \<longleftrightarrow> sent k = [] \<and> (\<forall>e. W_error e \<in> set (accepts k) \<longrightarrow> e = EAGAIN)
     \<and> (\<forall>s. R_data s \<in> set (incoming k) \<longrightarrow> length s \<le> 1024)"

lemma Tie_simps [simp]:
  "ch_fd (Tie ch) = ch_fd ch" "in_sync (Tie ch, ep) = in_sync (ch, ep)" "watches rw (Tie ch) = watches rw ch"
  by (simp_all add: Tie_def in_sync_def watches_def)

lemma established_eq:
  "established st t hdrs ep k fd cid =
     on_channel EnableRead ((set_close_callback (TcpConnection_ctor st t hdrs ep k fd cid))\<lparr>conn_state := Connected,
       channel := Tie (channel (TcpConnection_ctor st t hdrs ep k fd cid))\<rparr>)"
  by (simp add: set_close_callback_def established_def ConnectionEstablished_def Let_def)

lemma ctor_watches:
  assumes "ep fd = None"
  shows "in_sync (channel (TcpConnection_ctor st t hdrs ep k fd cid), loop_epoll (TcpConnection_ctor st t hdrs ep k fd cid))"
    "watches (False, False) (channel (TcpConnection_ctor st t hdrs ep k fd cid))"
    "ch_fd (channel (TcpConnection_ctor st t hdrs ep k fd cid)) = fd"
proof -
  let ?c = "\<lparr>connfd = fd, connid = cid, conn_state = st, channel = Channel_ctor t fd, loop_epoll = ep,
        read_buf = Buffer_ctor, send_buf = Buffer_ctor, conn_context = HttpContext_ctor hdrs,
        act_time = TimerStamp_ctor0, close_callback = False, close_calls = 0, sock = k\<rparr>"
  have "in_sync (channel ?c, loop_epoll ?c)" using in_sync_ctor [of ep fd, OF assms] by simp
  moreover have "watches (False, False) (channel ?c)" by (simp add: watches_def Channel_ctor_def bit_mask_of)
  moreover have "TcpConnection_ctor st t hdrs ep k fd cid = on_channel (ch_exec Enable_ET) ?c"
    by (simp add: TcpConnection_ctor_def)
  moreover have "ch_fd (channel ?c) = fd" by (simp add: Channel_ctor_def)
  ultimately show "in_sync (channel (TcpConnection_ctor st t hdrs ep k fd cid), loop_epoll (TcpConnection_ctor st t hdrs ep k fd cid))"
    "watches (False, False) (channel (TcpConnection_ctor st t hdrs ep k fd cid))"
    "ch_fd (channel (TcpConnection_ctor st t hdrs ep k fd cid)) = fd"
    using on_channel_exec [of ?c False False Enable_ET] by simp_all
qed

lemma ctor_simps [simp]:
  "read_buf (TcpConnection_ctor st t hdrs ep k fd cid) = Buffer_ctor"
  "send_buf (TcpConnection_ctor st t hdrs ep k fd cid) = Buffer_ctor"
  "sock (TcpConnection_ctor st t hdrs ep k fd cid) = k" "connfd (TcpConnection_ctor st t hdrs ep k fd cid) = fd"
  "close_calls (TcpConnection_ctor st t hdrs ep k fd cid) = 0"
  "conn_context (TcpConnection_ctor st t hdrs ep k fd cid) = HttpContext_ctor hdrs"
  by (simp_all add: TcpConnection_ctor_def)

lemma established_ok:
  assumes "ep fd = None" and "socket_ok k"
  shows "conn_ok (established st t hdrs ep k fd cid)" "outgoing (established st t hdrs ep k fd cid) = []"
    "ingoing (established st t hdrs ep k fd cid) = data_of (incoming k)"
    "conn_room n (established st t hdrs ep k fd cid)
     \<longleftrightarrow> int n + 16 \<le> INT_MAX \<and> int (length (data_of (incoming k))) + 16 \<le> INT_MAX"
    "conn_state (established st t hdrs ep k fd cid) = Connected"
    "connfd (established st t hdrs ep k fd cid) = fd"
proof -
  let ?c = "(set_close_callback (TcpConnection_ctor st t hdrs ep k fd cid))\<lparr>conn_state := Connected,
       channel := Tie (channel (TcpConnection_ctor st t hdrs ep k fd cid))\<rparr>"
  let ?e = "established st t hdrs ep k fd cid"
  have e: "?e = on_channel (ch_exec Enable_Read) ?c" by (simp add: established_eq)
  have "watches (True, False) (channel ?e) \<and> in_sync (channel ?e, loop_epoll ?e) \<and> ch_fd (channel ?e) = fd
     \<and> in_epoll (channel ?e)"
    using on_channel_exec [of ?c False False Enable_Read] ctor_watches [of ep fd, OF assms(1)] unfolding e
    by (simp add: set_close_callback_def)
  then show "conn_ok ?e"
    using assms(2) by (auto simp: conn_ok_def conn_inv_def writes_ok_def reads_ok_def closed_once_def
        socket_ok_def e set_close_callback_def)
  show "outgoing ?e = []" "ingoing ?e = data_of (incoming k)" "conn_state ?e = Connected" "connfd ?e = fd"
    "conn_room n ?e \<longleftrightarrow> int n + 16 \<le> INT_MAX \<and> int (length (data_of (incoming k))) + 16 \<le> INT_MAX"
    using assms(2) by (auto simp: e set_close_callback_def outgoing_def ingoing_def socket_ok_def conn_room_def
        Buffer_ctor_def kPrePendIndex_def contents_def)
qed

text \<open>How a new connection fares over any sequence of operations\<close>

lemma established_run:
  assumes "ep fd = None" and "socket_ok k"
    and "int (length (concat (map op_msg fs))) + 16 \<le> INT_MAX"
    and "int (length (data_of (incoming k))) + 16 \<le> INT_MAX"
  shows "\<exists>c'. foldE conn_exec fs (established st t hdrs ep k fd cid) = Inr c' \<and> conn_ok c'
     \<and> outgoing c' = concat (map op_msg fs) \<and> ingoing c' = data_of (incoming k)"
  using conn_exec_run [OF established_ok(1) [of ep fd, OF assms(1,2)]] established_ok [of ep fd, OF assms(1,2)] assms(3,4)
  by (metis append_Nil)

text \<open>What the kernel watches for the connection\<close>

lemma conn_inv_mask:
  assumes "conn_inv c"
  shows "\<exists>w. loop_epoll c (connfd c) = Some (mask_of (True, w)) \<and> (contents (send_buf c) \<noteq> [] \<longrightarrow> w)"
proof -
  obtain w where w: "watches (True, w) (channel c)" "contents (send_buf c) \<noteq> [] \<longrightarrow> w"
    using assms by (auto simp: conn_inv_def)
  have "loop_epoll c (connfd c) = Some (scast (listen_events (channel c)))"
    using assms by (auto simp: conn_inv_def in_sync_def)
  then have "loop_epoll c (connfd c) = Some (mask_of (True, w))" by (simp only: watches_mask [OF w(1)])
  with w(2) show ?thesis by blast
qed

text \<open>A writability event takes one outcome of the socket.\<close>

lemma HandleWrite_amount:
  assumes "conn_inv c" and "writes_ok c" and "accepts (sock c) = a # as" and "HandleWrite c = Inr c'"
  shows "accepts (sock c') = as \<and> contents (send_buf c') = drop (write_amount a) (contents (send_buf c))"
proof -
  have "binv (send_buf c)" using assms(1) by (simp add: conn_inv_def)
  from WriteNonBlocking_spec [OF this assms(2)] assms(3,4) show ?thesis
    by (auto simp: HandleWrite_def next_write_def split: if_splits)
qed

lemma HandleWrite_off:
  assumes "conn_inv c" and "writes_ok c" and "HandleWrite c = Inr c'" and "contents (send_buf c') = []"
  shows "watches (True, False) (channel c')"
proof -
  have inv: "binv (send_buf c)" using assms(1) by (simp add: conn_inv_def)
  obtain b k where bk: "WriteNonBlocking c = Inr (c\<lparr>send_buf := b, sock := k\<rparr>)" "binv b"
    using WriteNonBlocking_spec [OF inv assms(2)] by blast
  let ?c = "c\<lparr>send_buf := b, sock := k\<rparr>"
  have "contents b = []" using assms(3,4) bk(1) by (auto simp: HandleWrite_def split: if_splits)
  then have "c' = on_channel (ch_exec Disable_Write) ?c"
    using assms(3) bk length_contents [OF bk(2)] by (simp add: HandleWrite_def)
  moreover obtain w where "watches (True, w) (channel ?c)" "in_sync (channel ?c, loop_epoll ?c)"
    using assms(1) by (auto simp: conn_inv_def)
  ultimately show ?thesis using on_channel_exec [of ?c True w Disable_Write] by simp
qed

lemma HandleWrite_run:
  assumes "conn_inv c" and "writes_ok c" and "accepts (sock c) = as @ rest"
  shows "\<exists>c'. foldE conn_exec (replicate (length as) Op_HandleWrite) c = Inr c' \<and> conn_inv c' \<and> writes_ok c'
     \<and> contents (send_buf c') = drop (sum_list (map write_amount as)) (contents (send_buf c))
     \<and> outgoing c' = outgoing c \<and> (as \<noteq> [] \<and> contents (send_buf c') = [] \<longrightarrow> watches (True, False) (channel c'))"
  using assms
proof (induction as arbitrary: c)
  case (Cons a as)
  obtain c1 where c1: "HandleWrite c = Inr c1" "conn_inv c1" "writes_ok c1" "outgoing c1 = outgoing c"
    using HandleWrite_spec [OF Cons.prems(1,2)] by blast
  have a: "accepts (sock c1) = as @ rest" "contents (send_buf c1) = drop (write_amount a) (contents (send_buf c))"
    using HandleWrite_amount [OF Cons.prems(1,2) _ c1(1), of a "as @ rest"] Cons.prems(3) by simp_all
  obtain c' where c': "foldE conn_exec (replicate (length as) Op_HandleWrite) c1 = Inr c'" "conn_inv c'" "writes_ok c'"
      "contents (send_buf c') = drop (sum_list (map write_amount as)) (contents (send_buf c1))"
      "outgoing c' = outgoing c1" "as \<noteq> [] \<and> contents (send_buf c') = [] \<longrightarrow> watches (True, False) (channel c')"
    using Cons.IH [OF c1(2,3) a(1)] by blast
  have "as = [] \<longrightarrow> c' = c1" using c'(1) by auto
  then have "contents (send_buf c') = [] \<longrightarrow> watches (True, False) (channel c')"
    using c'(6) HandleWrite_off [OF Cons.prems(1,2) c1(1)] by (cases "as = []") auto
  with c1 a c' show ?case by (intro exI [of _ c']) (simp add: add.commute)
qed simp

section \<open>Properties of the connection\<close>

text \<open>C4: Nothing is lost, doubled or reordered on the way through a connection: for any sequence of
  sends, writability events, reads and closes, and whatever the socket answers (short writes, \<open>EAGAIN\<close>,
  \<open>EINTR\<close> or failures on reading, the end of the stream), no operation fails, what was sent and what is
  waiting are together the messages in their order, what was read and what is still to come are
  together the bytes of the peer, and the close callback is called exactly once if the connection
  closes, and never otherwise.\<close>

theorem connection_keeps_bytes:
  assumes "ep fd = None" and "socket_ok k"
    and "int (length (concat (map op_msg fs))) + 16 \<le> INT_MAX"
    and "int (length (data_of (incoming k))) + 16 \<le> INT_MAX"
  shows "\<exists>c. foldE conn_exec fs (established st t hdrs ep k fd cid) = Inr c
     \<and> sent (sock c) @ contents (send_buf c) = concat (map op_msg fs)
     \<and> contents (read_buf c) @ data_of (incoming (sock c)) = data_of (incoming k)
     \<and> close_calls c = (if conn_state c = Disconected then 1 else 0)"
  using established_run [of ep fd, OF assms, of st t hdrs cid]
  unfolding outgoing_def ingoing_def conn_ok_def closed_once_def by blast

theorem connection_keeps_bytes_witness:
  "\<exists>c. foldE conn_exec [Op_Send ''hello '', Op_Read, Op_Send ''world'', Op_HandleWrite, Op_HandleClose]
         (established Invalid False False Map.empty
            \<lparr>incoming = [R_error EINTR, R_data ''GET'', R_error EAGAIN], accepts = [W_sent 2, W_error EAGAIN], sent = []\<rparr> 7 1)
         = Inr c
     \<and> sent (sock c) @ contents (send_buf c) = ''hello world''
     \<and> contents (read_buf c) @ data_of (incoming (sock c)) = ''GET''"
  using connection_keeps_bytes [of Map.empty 7
      "\<lparr>incoming = [R_error EINTR, R_data ''GET'', R_error EAGAIN], accepts = [W_sent 2, W_error EAGAIN], sent = []\<rparr>"
      "[Op_Send ''hello '', Op_Read, Op_Send ''world'', Op_HandleWrite, Op_HandleClose]" Invalid False False 1]
  by (auto simp: socket_ok_def)



text \<open>C13: What waits to be sent is sent in the end: when the next writes take the waiting bytes
  together, in whatever portions and however many of them answer \<open>EAGAIN\<close> in between, the
  writability events send everything in order, and the kernel is no longer asked for writability.\<close>

theorem waiting_bytes_sent:
  assumes "conn_inv c" and "writes_ok c" and "accepts (sock c) = as @ rest" and "as \<noteq> []"
    and "length (contents (send_buf c)) \<le> sum_list (map write_amount as)"
  shows "\<exists>c'. foldE conn_exec (replicate (length as) Op_HandleWrite) c = Inr c'
     \<and> contents (send_buf c') = [] \<and> sent (sock c') = sent (sock c) @ contents (send_buf c)
     \<and> loop_epoll c' (connfd c') = Some (mask_of (True, False))"
proof -
  obtain c' where c': "foldE conn_exec (replicate (length as) Op_HandleWrite) c = Inr c'" "conn_inv c'"
      "contents (send_buf c') = []" "outgoing c' = outgoing c" "watches (True, False) (channel c')"
    using HandleWrite_run [OF assms(1-3)] assms(4,5) by auto
  have "loop_epoll c' (connfd c') = Some (scast (listen_events (channel c')))"
    using c'(2) by (auto simp: conn_inv_def in_sync_def)
  then have "loop_epoll c' (connfd c') = Some (mask_of (True, False))"
    by (simp only: watches_mask [OF c'(5)])
  with c' show ?thesis by (intro exI [of _ c']) (simp add: outgoing_def)
qed

theorem waiting_bytes_sent_witness:
  "\<exists>c c'. Send_string ''hello'' (established Invalid False False Map.empty
            \<lparr>incoming = [], accepts = [W_sent 3, W_error EAGAIN, W_sent 2, W_sent 9], sent = []\<rparr> 7 1) = Inr c
     \<and> foldE conn_exec (replicate 3 Op_HandleWrite) c = Inr c' \<and> sent (sock c') = ''hello''"
proof -
  let ?k = "\<lparr>incoming = [], accepts = [W_sent 3, W_error EAGAIN, W_sent 2, W_sent 9], sent = []\<rparr>"
  let ?c = "established Invalid False False Map.empty ?k 7 1"
  have k: "socket_ok ?k" by (simp add: socket_ok_def)
  have ok: "conn_ok ?c" "conn_room 5 ?c" "outgoing ?c = []"
    using established_ok [of Map.empty 7, OF _ k] by simp_all
  have r: "conn_room (length (op_msg (Op_Send ''hello'')) + 0) ?c" using ok(2) by (simp add: eval_nat_numeral)
  obtain c where c: "Send_string ''hello'' ?c = Inr c" "conn_inv c" "writes_ok c" "outgoing c = ''hello''"
    using conn_exec_step [OF ok(1) r] ok(3) by (auto simp: conn_ok_def)
  have "(case Send_string ''hello'' ?c of Inr c \<Rightarrow> (accepts (sock c), contents (send_buf c)) | Inl e \<Rightarrow> ([], []))
      = ([W_error EAGAIN, W_sent 2, W_sent 9], ''lo'')"
    by code_simp
  then have "accepts (sock c) = [W_error EAGAIN, W_sent 2, W_sent 9] @ []" "contents (send_buf c) = ''lo''"
    using c(1) by simp_all
  then show ?thesis
    using waiting_bytes_sent [OF c(2,3), of "[W_error EAGAIN, W_sent 2, W_sent 9]" "[]"] c(1,4)
    by (auto simp: outgoing_def eval_nat_numeral)
qed

text \<open>An error other than \<open>EAGAIN\<close> moves the read index back by one.\<close>

lemma WriteNonBlocking_error:
  assumes "conn_inv c" and "9 \<le> read_index (send_buf c)" and "accepts (sock c) = W_error e # ws" and "e \<noteq> EAGAIN"
  shows "\<exists>b. WriteNonBlocking c = Inr (c\<lparr>send_buf := b, sock := (sock c)\<lparr>accepts := ws\<rparr>\<rparr>) \<and> binv b
     \<and> contents b = buf (send_buf c) ! nat (read_index (send_buf c) - 1) # contents (send_buf c)"
proof -
  let ?b = "send_buf c"
  have inv: "binv ?b" using assms(1) by (simp add: conn_inv_def)
  then have ix: "nat (read_index ?b - 1) < length (buf ?b)" "nat (read_index ?b) = Suc (nat (read_index ?b - 1))"
    using assms(2) by (auto simp: binv_def)
  have "slice (read_index ?b - 1) (read_index ?b) (buf ?b) = [buf ?b ! nat (read_index ?b - 1)]"
    using ix assms(2) by (simp add: slice_def take_Suc_conv_app_nth Cons_nth_drop_Suc [symmetric])
  moreover obtain b' where b': "Retrieve (- 1) ?b = Inr b'" "buf b' = buf ?b" "write_index b' = write_index ?b"
      "contents b' = slice (read_index ?b - 1) (read_index ?b) (buf ?b) @ contents ?b"
    using Retrieve_negative [OF inv, of 1] assms(2) by auto
  moreover have "binv b'"
    using b'(1) inv assms(2) by (auto simp: Retrieve_def binv_def RetrieveAll_def kPrePendIndex_def result_simps split: if_splits)
  ultimately show ?thesis
    using assms(3,4) by (intro exI [of _ b']) (simp add: WriteNonBlocking_def next_write_def Let_def)
qed

text \<open>C37: A write that fails with an error other than \<open>EAGAIN\<close>, for instance because a signal arrived, is
  logged and then taken for a write of \<open>-1\<close> bytes: the byte before the waiting ones, which the client
  already has, is sent once more with the next write.\<close>

theorem write_error_resends:
  assumes "conn_inv c" and "9 \<le> read_index (send_buf c)"
    and "accepts (sock c) = [W_error e, W_sent n]" and "e \<noteq> EAGAIN" and "length (contents (send_buf c)) < n"
  shows "\<exists>c'. foldE conn_exec [Op_HandleWrite, Op_HandleWrite] c = Inr c'
     \<and> sent (sock c') = sent (sock c) @ buf (send_buf c) ! nat (read_index (send_buf c) - 1) # contents (send_buf c)"
proof -
  obtain b where b: "WriteNonBlocking c = Inr (c\<lparr>send_buf := b, sock := (sock c)\<lparr>accepts := [W_sent n]\<rparr>\<rparr>)"
      "binv b" "contents b = buf (send_buf c) ! nat (read_index (send_buf c) - 1) # contents (send_buf c)"
    using WriteNonBlocking_error [OF assms(1-4)] by blast
  let ?c = "c\<lparr>send_buf := b, sock := (sock c)\<lparr>accepts := [W_sent n]\<rparr>\<rparr>"
  have "readablebytes b \<noteq> 0" using length_contents [OF b(2)] b(3) by auto
  then have "HandleWrite c = Inr ?c" using b(1) by (simp add: HandleWrite_def)
  moreover obtain b2 k2 where 2: "WriteNonBlocking ?c = Inr (?c\<lparr>send_buf := b2, sock := k2\<rparr>)"
      "sent k2 @ contents b2 = outgoing ?c" "contents b2 = drop n (contents b)"
    using WriteNonBlocking_spec [of ?c] b(2) by (auto simp: writes_ok_def next_write_def)
  moreover have "contents b2 = []" using 2(3) b(3) assms(5) by simp
  ultimately show ?thesis using b(3) by (auto simp: HandleWrite_def outgoing_def)
qed

theorem write_error_resends_witness:
  "\<exists>c c'. Send_string ''hello'' (established Invalid False False Map.empty
            \<lparr>incoming = [], accepts = [W_sent 3], sent = []\<rparr> 7 1) = Inr c
     \<and> foldE conn_exec [Op_HandleWrite, Op_HandleWrite] (c\<lparr>sock := (sock c)\<lparr>accepts := [W_error EINTR, W_sent 9]\<rparr>\<rparr>)
       = Inr c' \<and> sent (sock c') = ''hel'' @ ''l'' @ ''lo''"
proof -
  let ?c = "established Invalid False False Map.empty \<lparr>incoming = [], accepts = [W_sent 3], sent = []\<rparr> 7 1"
  have k: "socket_ok \<lparr>incoming = [], accepts = [W_sent 3], sent = []\<rparr>" by (simp add: socket_ok_def)
  have ok: "conn_ok ?c" "conn_room 5 ?c" "outgoing ?c = []"
    using established_ok [of Map.empty 7, OF _ k] by simp_all
  have r: "conn_room (length (op_msg (Op_Send ''hello'')) + 0) ?c" using ok(2) by (simp add: eval_nat_numeral)
  obtain c where c: "Send_string ''hello'' ?c = Inr c" "conn_inv c"
    using conn_exec_step [OF ok(1) r] ok(3) by (auto simp: conn_ok_def)
  have "(case Send_string ''hello'' ?c of
           Inr c \<Rightarrow> (sent (sock c), contents (send_buf c), read_index (send_buf c), buf (send_buf c) ! 10)
         | Inl e \<Rightarrow> ([], [], 0, NUL)) = (''hel'', ''lo'', 11, CHR ''l'')"
    by code_simp
  then have s: "sent (sock c) = ''hel''" "contents (send_buf c) = ''lo''" "read_index (send_buf c) = 11"
      "buf (send_buf c) ! 10 = CHR ''l''"
    using c(1) by simp_all
  have "conn_inv (c\<lparr>sock := (sock c)\<lparr>accepts := [W_error EINTR, W_sent 9]\<rparr>\<rparr>)"
    using c(2) by (simp add: conn_inv_def)
  from write_error_resends [OF this, of EINTR 9] s c(1) show ?thesis by auto
qed

end
