(* ===== verification/ThreadPool.thy ===== *)
theory ThreadPool
  imports Prelude "HOL-Library.Multiset"
begin

text \<open>
  The threads of the event loops: \<open>tcp/EventLoopThread.h\<close>, \<open>tcp/EventLoopThread.cpp\<close> (class
  \<open>EventLoopThread\<close>: starting a thread and waiting until its loop is there) and
  \<open>tcp/EventLoopThreadPool.h\<close>, \<open>tcp/EventLoopThreadPool.cpp\<close> (class \<open>EventLoopThreadPool\<close>: the loops and
  their round robin). A loop is named by a value of a type \<open>'l\<close>. The theory shows that the starting
  thread always gets the loop, and that connections are dealt out evenly.
\<close>

section \<open>Starting a thread\<close>

text \<open>The starting thread: before the thread is created; about to test \<open>loop_\<close> under the lock; waiting on
  the condition; returned. The new thread: not there; about to make its loop; about to publish it
  under the lock; looping (which it does for ever).\<close>

datatype main_pc = M_start | M_test | M_waiting | M_returned
datatype child_pc = C_none | C_create | C_publish | C_looping

record 'l EventLoopThread =
  loop :: "'l option"
  main_pc :: main_pc
  child_pc :: child_pc
  made :: "'l option"
  result :: "'l option"

definition EventLoopThread_ctor :: "'l EventLoopThread" where
  "EventLoopThread_ctor = \<lparr>loop = None, main_pc = M_start, child_pc = C_none, made = None, result = None\<rparr>"

text \<open>The steps. Creating the thread; testing \<open>loop_\<close>, which either returns it or waits (giving up the lock
  in the same step); waking up without a notification, which a condition variable may do; making the
  loop; publishing it and notifying.\<close>

datatype 'l elt_label = E_Spawn | E_Test | E_Spurious | E_Create 'l | E_Publish

inductive elt_step :: "'l EventLoopThread \<Rightarrow> 'l elt_label \<Rightarrow> 'l EventLoopThread \<Rightarrow> bool" where
  spawn: "main_pc s = M_start \<Longrightarrow> elt_step s E_Spawn (s\<lparr>main_pc := M_test, child_pc := C_create\<rparr>)"
| test_wait: "main_pc s = M_test \<Longrightarrow> loop s = None \<Longrightarrow> elt_step s E_Test (s\<lparr>main_pc := M_waiting\<rparr>)"
| test_return: "main_pc s = M_test \<Longrightarrow> loop s = Some l \<Longrightarrow> elt_step s E_Test (s\<lparr>main_pc := M_returned, result := Some l\<rparr>)"
| spurious: "main_pc s = M_waiting \<Longrightarrow> elt_step s E_Spurious (s\<lparr>main_pc := M_test\<rparr>)"
| create: "child_pc s = C_create \<Longrightarrow> elt_step s (E_Create l) (s\<lparr>child_pc := C_publish, made := Some l\<rparr>)"
| publish: "child_pc s = C_publish \<Longrightarrow> elt_step s E_Publish
     (s\<lparr>loop := made s, child_pc := C_looping, main_pc := (if main_pc s = M_waiting then M_test else main_pc s)\<rparr>)"

inductive_simps elt_step_simps:
  "elt_step s E_Spawn s'" "elt_step s E_Test s'" "elt_step s E_Spurious s'" "elt_step s (E_Create l) s'" "elt_step s E_Publish s'"

inductive_cases elt_stepE: "elt_step s x s'"

inductive elt_run :: "'l EventLoopThread \<Rightarrow> 'l elt_label list \<Rightarrow> 'l EventLoopThread \<Rightarrow> bool" where
  elt_nil: "elt_run s [] s"
| elt_cons: "elt_step s x s1 \<Longrightarrow> elt_run s1 xs s2 \<Longrightarrow> elt_run s (x # xs) s2"

definition elt_inv :: "'l EventLoopThread \<Rightarrow> bool" where
  "elt_inv s \<longleftrightarrow> (main_pc s = M_start \<longleftrightarrow> child_pc s = C_none)
     \<and> (main_pc s = M_waiting \<longrightarrow> child_pc s = C_create \<or> child_pc s = C_publish)
     \<and> (child_pc s = C_looping \<longleftrightarrow> loop s \<noteq> None) \<and> (loop s \<noteq> None \<longrightarrow> loop s = made s)
     \<and> (child_pc s = C_publish \<or> child_pc s = C_looping \<longleftrightarrow> made s \<noteq> None)
     \<and> (if main_pc s = M_returned then result s = made s \<and> loop s \<noteq> None else result s = None)"

lemma elt_step_inv: "elt_step s x s' \<Longrightarrow> elt_inv s \<Longrightarrow> elt_inv s'"
  by (erule elt_stepE) (cases "child_pc s"; auto simp: elt_inv_def)+

lemma elt_run_inv: "elt_run s xs s' \<Longrightarrow> elt_inv s \<Longrightarrow> elt_inv s'"
  by (induction rule: elt_run.induct) (auto dest: elt_step_inv)

lemma elt_ctor_inv [simp]: "elt_inv EventLoopThread_ctor"
  by (simp add: elt_inv_def EventLoopThread_ctor_def)

section \<open>The pool\<close>

record 'l EventLoopThreadPool =
  main_reactor :: 'l
  loops :: "'l list"
  thread_nums :: int
  next_index :: int

definition EventLoopThreadPool_ctor :: "'l \<Rightarrow> int \<Rightarrow> 'l EventLoopThreadPool" where
  "EventLoopThreadPool_ctor main sz = \<lparr>main_reactor = main, loops = [], thread_nums = sz, next_index = 0\<rparr>"

definition SetThreadNum :: "int \<Rightarrow> 'l EventLoopThreadPool \<Rightarrow> 'l EventLoopThreadPool" where
  "SetThreadNum sz p = p\<lparr>thread_nums := sz\<rparr>"

text \<open>The loops that the threads return, in the order they are started\<close>

definition Start_pool :: "(nat \<Rightarrow> 'l) \<Rightarrow> 'l EventLoopThreadPool \<Rightarrow> 'l EventLoopThreadPool" where
  "Start_pool started p = p\<lparr>loops := loops p @ map started [0..<nat (thread_nums p)]\<rparr>"

text \<open>Access to a \<open>vector\<close> without a check\<close>

definition vec_at :: "int \<Rightarrow> 'a list \<Rightarrow> 'a result" where
  "vec_at i xs = (if 0 \<le> i \<and> i < int (length xs) then Inr (xs ! nat i) else Inl Undefined_behaviour)"

definition GetNextLoop :: "'l EventLoopThreadPool \<Rightarrow> ('l \<times> 'l EventLoopThreadPool) result" where
  "GetNextLoop p =
     (if loops p \<noteq> [] then
        bindE (vec_at (next_index p) (loops p)) (\<lambda>l.
        bindE (int_expr (next_index p + 1)) (\<lambda>n.
        Inr (l, p\<lparr>next_index := n smod to_int32 (int (length (loops p)))\<rparr>)))
      else Inr (main_reactor p, p))"

section \<open>Progress of the start\<close>

fun main_rank :: "main_pc \<Rightarrow> nat" where
  "main_rank M_start = 1" | "main_rank M_test = 1" | "main_rank M_waiting = 0" | "main_rank M_returned = 0"

fun child_rank :: "child_pc \<Rightarrow> nat" where
  "child_rank C_none = 3" | "child_rank C_create = 2" | "child_rank C_publish = 1" | "child_rank C_looping = 0"

definition elt_rank :: "'l EventLoopThread \<Rightarrow> nat" where
  "elt_rank s = 2 * child_rank (child_pc s) + main_rank (main_pc s)"

lemma elt_step_rank: "elt_step s x s' \<Longrightarrow> elt_inv s \<Longrightarrow> x \<noteq> E_Spurious \<Longrightarrow> elt_rank s' < elt_rank s"
  by (erule elt_stepE) (auto simp: elt_rank_def elt_inv_def)

lemma elt_run_rank:
  "elt_run s xs s' \<Longrightarrow> elt_inv s \<Longrightarrow> E_Spurious \<notin> set xs \<Longrightarrow> elt_rank s' + length xs \<le> elt_rank s"
  by (induction rule: elt_run.induct) (fastforce dest: elt_step_rank elt_step_inv)+

lemma elt_enabled:
  assumes "elt_inv s" and "main_pc s \<noteq> M_returned"
  shows "\<exists>x s'. x \<noteq> E_Spurious \<and> elt_step s x s'"
proof (cases "main_pc s")
  case M_start
  then show ?thesis using spawn [OF M_start] by (intro exI [of _ E_Spawn]) auto
next
  case M_test
  then show ?thesis using test_wait [OF M_test] test_return [OF M_test]
    by (intro exI [of _ E_Test]) (cases "loop s"; auto)
next
  case M_waiting
  then have "child_pc s = C_create \<or> child_pc s = C_publish" using assms(1) by (simp add: elt_inv_def)
  then show ?thesis
  proof
    assume "child_pc s = C_create"
    from create [OF this] show ?thesis by (intro exI [of _ "E_Create undefined"]) auto
  next
    assume "child_pc s = C_publish"
    from publish [OF this] show ?thesis by (intro exI [of _ E_Publish]) auto
  qed
qed (use assms in simp)

section \<open>Dealing out\<close>

definition pool_ok :: "'l EventLoopThreadPool \<Rightarrow> bool" where
  "pool_ok p \<longleftrightarrow> (if loops p = [] then next_index p = 0 else 0 \<le> next_index p \<and> next_index p < int (length (loops p)))
     \<and> int (length (loops p)) \<le> INT_MAX"

lemma GetNextLoop_ok:
  assumes "pool_ok p" and "loops p \<noteq> []"
  shows "GetNextLoop p = Inr (loops p ! nat (next_index p), p\<lparr>next_index := (next_index p + 1) mod int (length (loops p))\<rparr>)"
proof -
  have n: "0 \<le> next_index p" "next_index p < int (length (loops p))" "int (length (loops p)) \<le> INT_MAX"
    using assms by (simp_all add: pool_ok_def)
  then have i: "int_expr (next_index p + 1) = Inr (next_index p + 1)" by (intro int_expr_ok) simp_all
  have "to_int32 (int (length (loops p))) = int (length (loops p))" using n(3) by simp
  then have "(next_index p + 1) smod to_int32 (int (length (loops p))) = (next_index p + 1) mod int (length (loops p))"
    using n assms(2) by (simp add: signed_modulo_int_def sgn_if)
  then show ?thesis using n i assms(2) by (simp add: GetNextLoop_def vec_at_def)
qed

lemma GetNextLoop_keeps:
  assumes "pool_ok p"
  shows "\<exists>l p'. GetNextLoop p = Inr (l, p') \<and> pool_ok p' \<and> loops p' = loops p \<and> main_reactor p' = main_reactor p
     \<and> l \<in> (if loops p = [] then {main_reactor p} else set (loops p))"
proof (cases "loops p = []")
  case True
  then show ?thesis using assms by (simp add: GetNextLoop_def)
next
  case False
  then have "nat (next_index p) < length (loops p)" using assms by (auto simp: pool_ok_def)
  then show ?thesis using GetNextLoop_ok [OF assms False] assms False by (simp add: pool_ok_def)
qed

fun take_loops :: "nat \<Rightarrow> 'l EventLoopThreadPool \<Rightarrow> ('l list \<times> 'l EventLoopThreadPool) result" where
  "take_loops 0 p = Inr ([], p)"
| "take_loops (Suc n) p =
     bindE (GetNextLoop p) (\<lambda>(l, p1).
     bindE (take_loops n p1) (\<lambda>(ls, p2). Inr (l # ls, p2)))"

lemma take_loops_ok:
  assumes "pool_ok p" and "loops p \<noteq> []"
  shows "\<exists>ls. take_loops n p = Inr (ls, p\<lparr>next_index := (next_index p + int n) mod int (length (loops p))\<rparr>)
     \<and> length ls = n \<and> (\<forall>i < n. ls ! i = loops p ! nat ((next_index p + int i) mod int (length (loops p))))"
  using assms
proof (induction n arbitrary: p)
  case 0
  then have "next_index p mod int (length (loops p)) = next_index p" by (simp add: pool_ok_def)
  then show ?case by simp
next
  case (Suc n)
  let ?len = "int (length (loops p))"
  let ?p = "p\<lparr>next_index := (next_index p + 1) mod ?len\<rparr>"
  have ok: "pool_ok ?p" "loops ?p \<noteq> []" using Suc.prems by (simp_all add: pool_ok_def)
  obtain ls where ls: "take_loops n ?p = Inr (ls, ?p\<lparr>next_index := (next_index ?p + int n) mod ?len\<rparr>)" "length ls = n"
      "\<forall>i < n. ls ! i = loops p ! nat ((next_index ?p + int i) mod ?len)"
    using Suc.IH [OF ok] by auto
  have m: "((next_index p + 1) mod ?len + int i) mod ?len = (next_index p + int (Suc i)) mod ?len" for i
    by (simp add: mod_add_left_eq add.assoc)
  have z: "next_index p mod ?len = next_index p" using Suc.prems by (simp add: pool_ok_def)
  have "(loops p ! nat (next_index p) # ls) ! i = loops p ! nat ((next_index p + int i) mod ?len)" if "i < Suc n" for i
    using that ls(3) m z by (cases i) simp_all
  then show ?case using ls(1,2) m GetNextLoop_ok [OF Suc.prems] by (intro exI [of _ "loops p ! nat (next_index p) # ls"]) simp
qed

text \<open>Adding an offset turns the indices round.\<close>

lemma image_mod_shift:
  assumes "0 < n"
  shows "(\<lambda>i. nat ((k + int i) mod int n)) ` {..<n} = {..<n}"
proof (rule card_subset_eq)
  show "(\<lambda>i. nat ((k + int i) mod int n)) ` {..<n} \<subseteq> {..<n}" using assms by (auto simp: nat_less_iff)
  have "inj_on (\<lambda>i. nat ((k + int i) mod int n)) {..<n}"
  proof (rule inj_onI)
    fix i j assume ij: "i \<in> {..<n}" "j \<in> {..<n}" "nat ((k + int i) mod int n) = nat ((k + int j) mod int n)"
    then have "(k + int i) mod int n = (k + int j) mod int n" using assms by (simp add: eq_nat_nat_iff)
    then have "int i mod int n = int j mod int n" by (metis add_diff_cancel_left' mod_diff_cong)
    then show "i = j" using ij(1,2) by simp
  qed
  then show "card ((\<lambda>i. nat ((k + int i) mod int n)) ` {..<n}) = card {..<n}" by (rule card_image)
qed simp

lemma full_round:
  assumes "length ls = length xs" and "\<forall>i < length xs. ls ! i = xs ! nat ((k + int i) mod int (length xs))"
  shows "mset ls = mset xs"
proof (cases "xs = []")
  case False
  let ?f = "\<lambda>i. nat ((k + int i) mod int (length xs))"
  have b: "bij_betw ?f {..<length xs} {..<length xs}"
    unfolding bij_betw_def
    using image_mod_shift [of "length xs" k] False by (metis eq_card_imp_inj_on finite_lessThan length_greater_0_conv)
  have "ls = map (\<lambda>i. xs ! ?f i) [0..<length xs]" using assms by (intro nth_equalityI) simp_all
  then have "mset ls = image_mset (\<lambda>i. xs ! ?f i) (mset_set {..<length xs})"
    by (simp add: lessThan_atLeast0)
  also have "\<dots> = image_mset ((!) xs) (image_mset ?f (mset_set {..<length xs}))" by (simp add: multiset.map_comp comp_def)
  also have "image_mset ?f (mset_set {..<length xs}) = mset_set {..<length xs}"
    using b by (metis bij_betw_def image_mset_mset_set)
  also have "image_mset ((!) xs) (mset_set {..<length xs}) = mset xs"
    by (metis lessThan_atLeast0 map_nth mset_map mset_upt)
  finally show ?thesis .
qed (use assms in simp)

section \<open>The interface the server uses\<close>

text \<open>A supply of loops: it hands out one of a fixed, non-empty set at a time and never fails.\<close>

locale loop_supply =
  fixes ok :: "'s \<Rightarrow> bool"
    and supplied :: "'s \<Rightarrow> 'l set"
    and get :: "'s \<Rightarrow> ('l \<times> 's) result"
  assumes get_ok: "ok s \<Longrightarrow> \<exists>l s'. get s = Inr (l, s') \<and> ok s' \<and> supplied s' = supplied s \<and> l \<in> supplied s"
begin

fun get_many :: "nat \<Rightarrow> 's \<Rightarrow> ('l list \<times> 's) result" where
  "get_many 0 s = Inr ([], s)"
| "get_many (Suc n) s = bindE (get s) (\<lambda>(l, s1). bindE (get_many n s1) (\<lambda>(ls, s2). Inr (l # ls, s2)))"

lemma get_many_ok:
  "ok s \<Longrightarrow> \<exists>ls s'. get_many n s = Inr (ls, s') \<and> length ls = n \<and> set ls \<subseteq> supplied s \<and> ok s'"
proof (induction n arbitrary: s)
  case (Suc n)
  obtain l s1 where 1: "get s = Inr (l, s1)" "ok s1" "supplied s1 = supplied s" "l \<in> supplied s"
    using get_ok [OF Suc.prems] by blast
  from Suc.IH [OF 1(2)] 1 show ?case by auto
qed simp

end

definition pool_loops :: "'l EventLoopThreadPool \<Rightarrow> 'l set" where
  "pool_loops p = (if loops p = [] then {main_reactor p} else set (loops p))"

interpretation pool: loop_supply pool_ok pool_loops GetNextLoop
  by unfold_locales (use GetNextLoop_keeps in \<open>fastforce simp: pool_loops_def\<close>)

section \<open>Properties\<close>

text \<open>C40: Starting a loop's thread always succeeds: in every interleaving, with any number of wakeups
  without a notification, there is at most a bounded number of other steps, as long as the starting
  thread has not returned one of them is possible, and when it returns, it returns the loop that the
  thread has made and published, never a null pointer.\<close>

theorem StartLoop_returns_loop:
  assumes "elt_run EventLoopThread_ctor xs s"
  shows "(E_Spurious \<notin> set xs \<longrightarrow> length xs \<le> 7)
     \<and> (main_pc s = M_returned \<or> (\<exists>x s'. x \<noteq> E_Spurious \<and> elt_step s x s'))
     \<and> (main_pc s = M_returned \<longrightarrow> (\<exists>l. result s = Some l \<and> made s = Some l \<and> loop s = Some l))"
proof (intro conjI)
  have inv: "elt_inv s" using elt_run_inv [OF assms] by simp
  show "E_Spurious \<notin> set xs \<longrightarrow> length xs \<le> 7"
    using elt_run_rank [OF assms elt_ctor_inv] by (auto simp: elt_rank_def EventLoopThread_ctor_def)
  show "main_pc s = M_returned \<or> (\<exists>x s'. x \<noteq> E_Spurious \<and> elt_step s x s')"
    using elt_enabled [OF inv] by blast
  show "main_pc s = M_returned \<longrightarrow> (\<exists>l. result s = Some l \<and> made s = Some l \<and> loop s = Some l)"
    using inv by (auto simp: elt_inv_def)
qed

theorem StartLoop_returns_loop_witness:
  "\<exists>s. elt_run EventLoopThread_ctor [E_Spawn, E_Test, E_Create (5 :: nat), E_Spurious, E_Test, E_Publish, E_Test] s
     \<and> main_pc s = M_returned \<and> result s = Some 5"
proof -
  let ?xs = "[E_Spawn, E_Test, E_Create (5 :: nat), E_Spurious, E_Test, E_Publish, E_Test]"
  let ?s = "\<lparr>loop = Some 5, main_pc = M_returned, child_pc = C_looping, made = Some 5, result = Some (5 :: nat)\<rparr>"
  have run: "elt_run EventLoopThread_ctor ?xs ?s"
    unfolding EventLoopThread_ctor_def
    by (rule elt_cons elt_nil, (simp add: elt_step_simps)?)+
  from StartLoop_returns_loop [OF run] run show ?thesis by (intro exI [of _ ?s]) simp
qed

text \<open>C39: Connections are dealt out evenly: once the loops are started, the \<open>i\<close>-th call from now returns the
  loop \<open>i\<close> places after the next one, round and round, so that any \<open>n\<close> calls in a row, where \<open>n\<close> is
  the number of loops, return every loop exactly once; and the next index stays in the vector.\<close>

theorem loops_dealt_evenly:
  assumes "pool_ok p" and "loops p \<noteq> []"
  shows "\<exists>ls p'. take_loops n p = Inr (ls, p') \<and> length ls = n \<and> pool_ok p'
     \<and> (\<forall>i < n. ls ! i = loops p ! nat ((next_index p + int i) mod int (length (loops p))))
     \<and> (\<forall>i. i + length (loops p) \<le> n \<longrightarrow> mset (take (length (loops p)) (drop i ls)) = mset (loops p))"
proof -
  let ?n = "length (loops p)"
  let ?p = "p\<lparr>next_index := (next_index p + int n) mod int ?n\<rparr>"
  obtain ls where ls: "take_loops n p = Inr (ls, ?p)" "length ls = n"
      "\<forall>i < n. ls ! i = loops p ! nat ((next_index p + int i) mod int ?n)"
    using take_loops_ok [OF assms] by blast
  have "mset (take ?n (drop i ls)) = mset (loops p)" if "i + ?n \<le> n" for i
    using that ls(2,3) by (intro full_round [of _ _ "next_index p + int i"]) (auto simp: add.assoc)
  moreover have "pool_ok ?p" using assms by (simp add: pool_ok_def)
  ultimately show ?thesis using ls by blast
qed

theorem loops_dealt_evenly_witness:
  "\<exists>ls p'. take_loops 5 (Start_pool (\<lambda>i. i) (EventLoopThreadPool_ctor 99 3)) = Inr (ls, p') \<and> length ls = 5
     \<and> mset (take 3 (drop 1 ls)) = mset [0, 1, 2]"
proof -
  let ?p = "Start_pool (\<lambda>i. i) (EventLoopThreadPool_ctor (99 :: nat) 3)"
  have p: "pool_ok ?p" "loops ?p = [0, 1, 2]"
    by (simp_all add: pool_ok_def Start_pool_def EventLoopThreadPool_ctor_def upt_rec)
  have ne: "loops ?p \<noteq> []" using p(2) by simp
  obtain ls p' where ls: "take_loops 5 ?p = Inr (ls, p')" "length ls = 5"
      "\<forall>i. i + length (loops ?p) \<le> 5 \<longrightarrow> mset (take (length (loops ?p)) (drop i ls)) = mset (loops ?p)"
    using loops_dealt_evenly [OF p(1) ne, of 5] by blast
  from ls(3) [rule_format, of 1] have "mset (take 3 (drop 1 ls)) = mset [0, 1, 2]"
    unfolding p(2) by (simp add: numeral_3_eq_3)
  with ls(1,2) show ?thesis by blast
qed

end
