(* ===== verification/TcpServer.thy ===== *)
theory TcpServer
  imports TcpConnection ThreadPool
begin

text \<open>
  The server of connections: \<open>tcp/TcpServer.h\<close>, \<open>tcp/TcpServer.cpp\<close> (class \<open>TcpServer\<close>) and
  \<open>tcp/Acceptor.h\<close>, \<open>tcp/Acceptor.cpp\<close> (class \<open>Acceptor\<close>). Connections are shared objects: the map of the
  server, the functions queued on the main loop and those queued on the loop of a connection hold
  references, and when the last one goes the object is destroyed and its descriptor closed. The
  theory shows that this always happens, exactly once, that no assertion fails on the way, and that
  the map is right whenever descriptors are reused.
\<close>

section \<open>The acceptor\<close>

record Acceptor =
  listenfd :: int
  acceptor_channel :: Channel
  acceptor_epoll :: epoll

text \<open>The results of \<open>socket\<close>, \<open>bind\<close> and \<open>listen\<close> are arguments; failures of the last two are only printed.\<close>

definition Create :: "int \<Rightarrow> int \<Rightarrow> int result" where
  "Create sockfd lfd = bindE (assertE (lfd = - 1)) (\<lambda>_. Inr sockfd)"

definition Bind :: "int \<Rightarrow> int \<Rightarrow> int" where
  "Bind ret lfd = lfd"

definition Listen :: "int \<Rightarrow> int \<Rightarrow> int result" where
  "Listen ret lfd = bindE (assertE (lfd \<noteq> - 1)) (\<lambda>_. Inr lfd)"

definition Acceptor_ctor :: "bool \<Rightarrow> epoll \<Rightarrow> int \<Rightarrow> int \<Rightarrow> int \<Rightarrow> Acceptor result" where
  "Acceptor_ctor t ep sockfd bind_ret listen_ret =
     bindE (Create sockfd (- 1)) (\<lambda>lfd.
     bindE (Listen listen_ret (Bind bind_ret lfd)) (\<lambda>lfd.
     case EnableRead (Channel_ctor t lfd, ep) of (ch, ep1) \<Rightarrow>
       Inr \<lparr>listenfd = lfd, acceptor_channel = ch, acceptor_epoll = ep1\<rparr>))"

text \<open>The descriptor that \<open>accept4\<close> returns is given to the callback, also when it is -1 and the failure has
  been printed.\<close>

definition AcceptConnection :: "(int \<Rightarrow> 's \<Rightarrow> 's result) option \<Rightarrow> int \<Rightarrow> int \<Rightarrow> 's \<Rightarrow> 's result" where
  "AcceptConnection new_connection lfd clnt_fd s =
     bindE (assertE (lfd \<noteq> - 1)) (\<lambda>_.
     case new_connection of Some f \<Rightarrow> f clnt_fd s | None \<Rightarrow> Inr s)"

definition Acceptor_dtor :: "Acceptor \<Rightarrow> Acceptor" where
  "Acceptor_dtor a =
     (case DeleteChannel (acceptor_channel a, acceptor_epoll a) of (ch, ep) \<Rightarrow> a\<lparr>acceptor_channel := ch, acceptor_epoll := ep\<rparr>)"

text \<open>The acceptor watches its socket as long as it lives; without a socket it fails.\<close>

lemma Acceptor_life:
  assumes "ep sockfd = None"
  shows "Acceptor_ctor t ep (- 1) b l = Inl Assertion_failed"
    "sockfd \<noteq> - 1 \<Longrightarrow> \<exists>a. Acceptor_ctor t ep sockfd b l = Inr a \<and> listenfd a = sockfd
       \<and> acceptor_epoll a = ep(sockfd \<mapsto> 3) \<and> acceptor_epoll (Acceptor_dtor a) = ep"
proof -
  have m: "(scast (short_or 0 (EPOLLIN OR EPOLLPRI)) :: 32 word) = 3" by (simp add: short_or_def epoll_bits)
  show "Acceptor_ctor t ep (- 1) b l = Inl Assertion_failed"
    by (simp add: Acceptor_ctor_def Create_def Bind_def Listen_def assertE_def)
  show "\<exists>a. Acceptor_ctor t ep sockfd b l = Inr a \<and> listenfd a = sockfd
       \<and> acceptor_epoll a = ep(sockfd \<mapsto> 3) \<and> acceptor_epoll (Acceptor_dtor a) = ep" if "sockfd \<noteq> - 1"
    using that assms by (auto simp: Acceptor_ctor_def Create_def Bind_def Listen_def assertE_def EnableRead_def UpdateChannel_def
      Channel_ctor_def epoll_add_def Let_def m Acceptor_dtor_def DeleteChannel_def epoll_del_def fun_upd_idem)
qed

section \<open>The server\<close>

record 'l TcpServer =
  thread_pool :: "'l EventLoopThreadPool"
  next_conn_id :: int
  connectionsMap :: "int \<rightharpoonup> nat"
  objects :: "nat \<rightharpoonup> 'l \<times> TcpConnection"
  epolls :: "'l \<Rightarrow> epoll"
  main_tasks :: "nat list"
  loop_tasks :: "'l \<Rightarrow> nat list"
  open_fds :: "int set"

definition TcpServer_ctor :: "'l \<Rightarrow> 'l TcpServer" where
  "TcpServer_ctor main =
     \<lparr>thread_pool = EventLoopThreadPool_ctor main 10, next_conn_id = 1, connectionsMap = Map.empty,
      objects = Map.empty, epolls = (\<lambda>l. Map.empty), main_tasks = [], loop_tasks = (\<lambda>l. []), open_fds = {}\<rparr>"

definition SetThreadNum_server :: "int \<Rightarrow> 'l TcpServer \<Rightarrow> 'l TcpServer" where
  "SetThreadNum_server num s = s\<lparr>thread_pool := SetThreadNum num (thread_pool s)\<rparr>"

definition Start_server :: "(nat \<Rightarrow> 'l) \<Rightarrow> 'l TcpServer \<Rightarrow> 'l TcpServer" where
  "Start_server started s = s\<lparr>thread_pool := Start_pool started (thread_pool s)\<rparr>"

text \<open>What the constructor of a connection finds: memory it does not initialise, the socket, and the address
  of the new object\<close>

record conn_env =
  env_state :: ConnectionState
  env_tied :: bool
  env_headers :: bool
  env_socket :: socket
  env_address :: nat

definition HandleNewConnection ::
    "'w conn_callback option \<Rightarrow> conn_env \<Rightarrow> int \<Rightarrow> 'w \<times> 'l TcpServer \<Rightarrow> ('w \<times> 'l TcpServer) result" where
  "HandleNewConnection on_connect e fd = (\<lambda>(w, s).
     bindE (assertE (fd \<noteq> - 1)) (\<lambda>_.
     bindE (GetNextLoop (thread_pool s)) (\<lambda>(sub_reactor, tp).
     let conn = set_close_callback (TcpConnection_ctor (env_state e) (env_tied e) (env_headers e)
                  (epolls s sub_reactor) (env_socket e) fd (next_conn_id s));
         n = next_conn_id s + 1;
         n1 = (if n = 1000 then 1 else n)
     in bindE (ConnectionEstablished on_connect (w, conn)) (\<lambda>(w1, conn1).
        Inr (w1, s\<lparr>thread_pool := tp, next_conn_id := n1,
          connectionsMap := (connectionsMap s)(fd \<mapsto> env_address e),
          objects := (objects s)(env_address e \<mapsto> (sub_reactor, conn1)),
          epolls := (epolls s)(sub_reactor := loop_epoll conn1)\<rparr>)))))"

text \<open>Use of a pointer to a connection\<close>

definition object_at :: "nat \<Rightarrow> 'l TcpServer \<Rightarrow> ('l \<times> TcpConnection) result" where
  "object_at p s = (case objects s p of Some x \<Rightarrow> Inr x | None \<Rightarrow> Inl Undefined_behaviour)"

definition HandleCloseInLoop :: "nat \<Rightarrow> 'l TcpServer \<Rightarrow> 'l TcpServer result" where
  "HandleCloseInLoop conn s =
     bindE (object_at conn s) (\<lambda>(lp, c).
     bindE (assertE (connectionsMap s (connfd c) \<noteq> None)) (\<lambda>_.
     Inr (s\<lparr>connectionsMap := (connectionsMap s)(connfd c := None),
            loop_tasks := (loop_tasks s)(lp := loop_tasks s lp @ [conn])\<rparr>)))"

text \<open>The server's close callback, which runs in the thread of the connection's loop: \<open>RunOneFunc\<close> of the main
  loop calls the function at once when that is the main thread.\<close>

definition HandleClose_server :: "'l \<Rightarrow> nat \<Rightarrow> 'l TcpServer \<Rightarrow> 'l TcpServer result" where
  "HandleClose_server lp conn s =
     (if lp = main_reactor (thread_pool s) then HandleCloseInLoop conn s
      else Inr (s\<lparr>main_tasks := main_tasks s @ [conn]\<rparr>))"

text \<open>A handler of a connection in the thread of its loop, on the interest list of that loop, with the close
  callback it makes\<close>

definition on_object :: "'w conn_callback \<Rightarrow> nat \<Rightarrow> 'w \<times> 'l TcpServer \<Rightarrow> ('w \<times> 'l TcpServer) result" where
  "on_object f conn = (\<lambda>(w, s).
     bindE (object_at conn s) (\<lambda>(lp, c).
     bindE (f (w, c\<lparr>loop_epoll := epolls s lp\<rparr>)) (\<lambda>(w1, c1).
     let s1 = s\<lparr>objects := (objects s)(conn \<mapsto> (lp, c1)), epolls := (epolls s)(lp := loop_epoll c1)\<rparr>
     in bindE (if close_calls c1 \<noteq> close_calls c then HandleClose_server lp conn s1 else Inr s1) (\<lambda>s2. Inr (w1, s2)))))"

text \<open>An operation of a connection; taking out what has been read\<close>

definition run_conn_op :: "conn_op \<Rightarrow> nat \<Rightarrow> 'w \<times> 'l TcpServer \<Rightarrow> ('w \<times> 'l TcpServer) result" where
  "run_conn_op f = on_object (\<lambda>(w, c). bindE (conn_exec f c) (\<lambda>c1. Inr (w, c1)))"

definition consume :: "nat \<Rightarrow> 'l TcpServer \<Rightarrow> 'l TcpServer result" where
  "consume conn s =
     bindE (object_at conn s) (\<lambda>(lp, c).
     Inr (s\<lparr>objects := (objects s)(conn \<mapsto> (lp, c\<lparr>read_buf := RetrieveAll (read_buf c)\<rparr>))\<rparr>))"

text \<open>A reference to an object is gone: when it was the last one the object is destroyed, which closes its
  descriptor.\<close>

definition referenced :: "nat \<Rightarrow> 'l TcpServer \<Rightarrow> 'l \<Rightarrow> int \<Rightarrow> bool" where
  "referenced p s l fd \<longleftrightarrow> connectionsMap s fd = Some p \<or> p \<in> set (main_tasks s) \<or> p \<in> set (loop_tasks s l)"

definition release :: "nat \<Rightarrow> 'l TcpServer \<Rightarrow> 'l TcpServer" where
  "release p s =
     (case objects s p of
        None \<Rightarrow> s
      | Some (l, c) \<Rightarrow>
          if referenced p s l (connfd c) then s
          else s\<lparr>objects := (objects s)(p := None), open_fds := open_fds s - {connfd c}\<rparr>)"

text \<open>The functions the loops run: the main loop's \<open>HandleCloseInLoop\<close>, another loop's
  \<open>ConnectionDestructor\<close>; the function object, with its reference, is destroyed afterwards.\<close>

definition run_main_task :: "'l TcpServer \<Rightarrow> 'l TcpServer result" where
  "run_main_task s =
     (case main_tasks s of
        [] \<Rightarrow> Inr s
      | p # ps \<Rightarrow> bindE (HandleCloseInLoop p (s\<lparr>main_tasks := ps\<rparr>)) (\<lambda>s1. Inr (release p s1)))"

definition run_loop_task :: "'l \<Rightarrow> 'l TcpServer \<Rightarrow> 'l TcpServer result" where
  "run_loop_task l s =
     (case loop_tasks s l of
        [] \<Rightarrow> Inr s
      | p # ps \<Rightarrow>
          bindE (object_at p s) (\<lambda>(lp, c).
          let c1 = ConnectionDestructor (c\<lparr>loop_epoll := epolls s lp\<rparr>);
              s1 = s\<lparr>objects := (objects s)(p \<mapsto> (lp, c1)), epolls := (epolls s)(lp := loop_epoll c1),
                     loop_tasks := (loop_tasks s)(l := ps)\<rparr>
          in Inr (release p s1)))"

section \<open>Interleavings\<close>

text \<open>A client is accepted (the kernel gives a descriptor that is not open); a connection reads, sends, writes
  or closes, within the size its buffers may have, or the program takes out what it has read; the main
  loop or another one runs the next function of its list.\<close>

datatype 'l server_step = V_Accept conn_env int | V_Op nat conn_op | V_Consume nat | V_Main | V_Loop 'l

fun server_enabled :: "'l server_step \<Rightarrow> 'l TcpServer \<Rightarrow> bool" where
  "server_enabled (V_Accept e fd) s \<longleftrightarrow> 0 \<le> fd \<and> fd \<notin> open_fds s \<and> objects s (env_address e) = None
     \<and> socket_ok (env_socket e)"
| "server_enabled (V_Op p f) s \<longleftrightarrow> (case objects s p of Some (l, c) \<Rightarrow> f = Op_HandleClose \<or> conn_room (length (op_msg f)) c | None \<Rightarrow> False)"
| "server_enabled (V_Consume p) s \<longleftrightarrow> objects s p \<noteq> None"
| "server_enabled V_Main s \<longleftrightarrow> main_tasks s \<noteq> []"
| "server_enabled (V_Loop l) s \<longleftrightarrow> loop_tasks s l \<noteq> []"

fun server_exec :: "'w conn_callback option \<Rightarrow> 'l server_step \<Rightarrow> 'w \<times> 'l TcpServer \<Rightarrow> ('w \<times> 'l TcpServer) result" where
  "server_exec on_connect (V_Accept e fd) (w, s) =
     AcceptConnection (Some (HandleNewConnection on_connect e)) 3 fd (w, s\<lparr>open_fds := insert fd (open_fds s)\<rparr>)"
| "server_exec on_connect (V_Op p f) (w, s) = run_conn_op f p (w, s)"
| "server_exec on_connect (V_Consume p) (w, s) = bindE (consume p s) (\<lambda>s1. Inr (w, s1))"
| "server_exec on_connect V_Main (w, s) = bindE (run_main_task s) (\<lambda>s1. Inr (w, s1))"
| "server_exec on_connect (V_Loop l) (w, s) = bindE (run_loop_task l s) (\<lambda>s1. Inr (w, s1))"

inductive server_run ::
    "'w conn_callback option \<Rightarrow> 'w \<times> 'l TcpServer \<Rightarrow> 'l server_step list \<Rightarrow> 'w \<times> 'l TcpServer \<Rightarrow> bool"
  for on_connect where
  server_nil: "server_run on_connect s [] s"
| server_cons: "server_enabled x (snd s) \<Longrightarrow> server_exec on_connect x s = Inr s1 \<Longrightarrow> server_run on_connect s1 xs s2
    \<Longrightarrow> server_run on_connect s (x # xs) s2"

section \<open>Invariant\<close>

text \<open>Where the references to a live connection are, by how far it has been closed\<close>

definition open_conn :: "nat \<Rightarrow> 'l TcpServer \<Rightarrow> int \<Rightarrow> bool" where
  "open_conn p s fd \<longleftrightarrow> connectionsMap s fd = Some p \<and> p \<notin> set (main_tasks s) \<and> (\<forall>l. p \<notin> set (loop_tasks s l))"

definition closing_conn :: "nat \<Rightarrow> 'l TcpServer \<Rightarrow> int \<Rightarrow> bool" where
  "closing_conn p s fd \<longleftrightarrow> connectionsMap s fd = Some p \<and> p \<in> set (main_tasks s) \<and> (\<forall>l. p \<notin> set (loop_tasks s l))"

definition ending_conn :: "nat \<Rightarrow> 'l TcpServer \<Rightarrow> 'l \<Rightarrow> int \<Rightarrow> bool" where
  "ending_conn p s l fd \<longleftrightarrow> connectionsMap s fd = None \<and> p \<notin> set (main_tasks s) \<and> p \<in> set (loop_tasks s l)
     \<and> (\<forall>l'. l' \<noteq> l \<longrightarrow> p \<notin> set (loop_tasks s l'))"

definition object_ok :: "nat \<Rightarrow> 'l TcpServer \<Rightarrow> 'l \<Rightarrow> TcpConnection \<Rightarrow> bool" where
  "object_ok p s l c \<longleftrightarrow> connfd c \<in> open_fds s \<and> 1 \<le> connid c \<and> connid c \<le> 999 \<and> conn_ok (c\<lparr>loop_epoll := epolls s l\<rparr>)
     \<and> (if conn_state c \<noteq> Disconected then open_conn p s (connfd c)
        else closing_conn p s (connfd c) \<or> ending_conn p s l (connfd c))"

definition server_inv :: "'l TcpServer \<Rightarrow> bool" where
  "server_inv s \<longleftrightarrow> pool_ok (thread_pool s) \<and> 1 \<le> next_conn_id s \<and> next_conn_id s \<le> 999
     \<and> (\<forall>p l c. objects s p = Some (l, c) \<longrightarrow> object_ok p s l c)
     \<and> (\<forall>p q l c l' c'. objects s p = Some (l, c) \<longrightarrow> objects s q = Some (l', c') \<longrightarrow> connfd c = connfd c' \<longrightarrow> p = q)
     \<and> (\<forall>fd p. connectionsMap s fd = Some p \<longrightarrow> (\<exists>l c. objects s p = Some (l, c) \<and> connfd c = fd))
     \<and> (\<forall>p \<in> set (main_tasks s). objects s p \<noteq> None) \<and> distinct (main_tasks s)
     \<and> (\<forall>l. \<forall>p \<in> set (loop_tasks s l). \<exists>c. objects s p = Some (l, c)) \<and> (\<forall>l. distinct (loop_tasks s l))
     \<and> (\<forall>fd \<in> open_fds s. \<exists>p l c. objects s p = Some (l, c) \<and> connfd c = fd)
     \<and> (\<forall>l fd. epolls s l fd \<noteq> None \<longrightarrow> (\<exists>p c. objects s p = Some (l, c) \<and> connfd c = fd))
     \<and> finite (dom (objects s))"

lemmas server_parts = open_conn_def closing_conn_def ending_conn_def object_ok_def

lemma TcpServer_ctor_inv: "server_inv (Start_server started (TcpServer_ctor main))"
  by (simp add: server_inv_def TcpServer_ctor_def Start_server_def Start_pool_def EventLoopThreadPool_ctor_def pool_ok_def)

text \<open>A callback for new connections that leaves the connection as it is\<close>

definition quiet :: "'w conn_callback option \<Rightarrow> bool" where
  "quiet on_connect \<longleftrightarrow> (\<forall>f. on_connect = Some f \<longrightarrow> (\<forall>w c. \<exists>w'. f (w, c) = Inr (w', c)))"

lemma established_more:
  assumes "ep fd = None"
  shows "connfd (established st t h ep k fd cid) = fd" "connid (established st t h ep k fd cid) = cid"
    "conn_state (established st t h ep k fd cid) = Connected" "closed_once (established st t h ep k fd cid)"
    "ch_fd (channel (established st t h ep k fd cid)) = fd"
    "loop_epoll (established st t h ep k fd cid) fd \<noteq> None"
    "fd' \<noteq> fd \<Longrightarrow> loop_epoll (established st t h ep k fd cid) fd' = ep fd'"
proof -
  let ?e = "established st t h ep k fd cid" and ?t = "TcpConnection_ctor st t h ep k fd cid"
  let ?c = "(set_close_callback ?t)\<lparr>conn_state := Connected, channel := Tie (channel ?t)\<rparr>"
  have e: "?e = on_channel (ch_exec Enable_Read) ?c" by (simp add: established_eq)
  show "connfd ?e = fd" "connid ?e = cid" "conn_state ?e = Connected" "closed_once ?e"
    by (simp_all add: e set_close_callback_def closed_once_def TcpConnection_ctor_def)
  have x: "in_sync (channel ?e, loop_epoll ?e) \<and> ch_fd (channel ?e) = fd \<and> in_epoll (channel ?e)
      \<and> (\<forall>fd'. fd' \<noteq> fd \<longrightarrow> loop_epoll ?e fd' = loop_epoll ?t fd')"
    using on_channel_exec [of ?c False False Enable_Read] ctor_watches [of ep fd, OF assms] unfolding e
    by (simp add: set_close_callback_def)
  then show "ch_fd (channel ?e) = fd" "loop_epoll ?e fd \<noteq> None" by (auto simp: in_sync_def)
  show "fd' \<noteq> fd \<Longrightarrow> loop_epoll ?e fd' = ep fd'"
    using x by (auto simp: TcpConnection_ctor_def on_channel_def EnableET_def UpdateChannel_def epoll_add_def Channel_ctor_def
        split: if_splits)
qed

section \<open>Every step keeps the invariant\<close>

lemma server_invD:
  assumes "server_inv s"
  shows "pool_ok (thread_pool s)" "1 \<le> next_conn_id s" "next_conn_id s \<le> 999"
    "objects s p = Some (l, c) \<Longrightarrow> object_ok p s l c"
    "objects s p = Some (l, c) \<Longrightarrow> objects s q = Some (l', c') \<Longrightarrow> connfd c = connfd c' \<Longrightarrow> p = q"
    "connectionsMap s fd = Some p \<Longrightarrow> \<exists>l c. objects s p = Some (l, c) \<and> connfd c = fd"
    "p \<in> set (main_tasks s) \<Longrightarrow> objects s p \<noteq> None" "distinct (main_tasks s)"
    "p \<in> set (loop_tasks s l) \<Longrightarrow> \<exists>c. objects s p = Some (l, c)" "distinct (loop_tasks s l)"
    "fd \<in> open_fds s \<Longrightarrow> \<exists>p l c. objects s p = Some (l, c) \<and> connfd c = fd"
    "epolls s l fd \<noteq> None \<Longrightarrow> \<exists>p c. objects s p = Some (l, c) \<and> connfd c = fd"
    "finite (dom (objects s))"
  using assms unfolding server_inv_def by blast+

text \<open>The part of the interest list a connection depends on\<close>

lemma conn_ok_epoll:
  assumes "ch_fd (channel c) = connfd c" and "ep' (connfd c) = ep (connfd c)"
  shows "conn_ok (c\<lparr>loop_epoll := ep'\<rparr>) = conn_ok (c\<lparr>loop_epoll := ep\<rparr>)"
  using assms by (simp add: conn_ok_def conn_inv_def writes_ok_def reads_ok_def closed_once_def in_sync_def)

lemma object_ok_fields:
  assumes "object_ok p s l c"
  shows "closed_once c" "ch_fd (channel c) = connfd c" "epolls s l (connfd c) \<noteq> None" "conn_ok (c\<lparr>loop_epoll := epolls s l\<rparr>)"
  using assms by (auto simp: object_ok_def conn_ok_def conn_inv_def closed_once_def in_sync_def)

text \<open>An object the step does not touch\<close>

lemma object_ok_cong:
  assumes "object_ok p s l c" "connfd c \<in> open_fds s'" "connectionsMap s' (connfd c) = connectionsMap s (connfd c)"
    "p \<in> set (main_tasks s') \<longleftrightarrow> p \<in> set (main_tasks s)" "\<And>l. p \<in> set (loop_tasks s' l) \<longleftrightarrow> p \<in> set (loop_tasks s l)"
    "epolls s' l (connfd c) = epolls s l (connfd c)"
  shows "object_ok p s' l c"
proof -
  have "open_conn p s' (connfd c) = open_conn p s (connfd c)" "closing_conn p s' (connfd c) = closing_conn p s (connfd c)"
    "ending_conn p s' l (connfd c) = ending_conn p s l (connfd c)"
    using assms(3-5) by (simp_all add: server_parts)
  moreover have "conn_ok (c\<lparr>loop_epoll := epolls s' l\<rparr>)"
    using object_ok_fields [OF assms(1)] conn_ok_epoll [of c "epolls s' l" "epolls s l"] assms(6) by simp
  ultimately show ?thesis using assms(1,2) by (simp add: object_ok_def)
qed

text \<open>The server after a client has been accepted\<close>

definition new_conn :: "conn_env \<Rightarrow> int \<Rightarrow> 'l \<Rightarrow> 'l TcpServer \<Rightarrow> TcpConnection" where
  "new_conn e fd lp s =
     established (env_state e) (env_tied e) (env_headers e) (epolls s lp) (env_socket e) fd (next_conn_id s)"

definition accepted :: "conn_env \<Rightarrow> int \<Rightarrow> 'l \<Rightarrow> 'l EventLoopThreadPool \<Rightarrow> 'l TcpServer \<Rightarrow> 'l TcpServer" where
  "accepted e fd lp tp s = s\<lparr>open_fds := insert fd (open_fds s), thread_pool := tp,
     next_conn_id := (if next_conn_id s + 1 = 1000 then 1 else next_conn_id s + 1),
     connectionsMap := (connectionsMap s)(fd \<mapsto> env_address e),
     objects := (objects s)(env_address e \<mapsto> (lp, new_conn e fd lp s)),
     epolls := (epolls s)(lp := loop_epoll (new_conn e fd lp s))\<rparr>"

lemma accept_exec:
  assumes "GetNextLoop (thread_pool s) = Inr (lp, tp)" "0 \<le> fd"
    and "(case on_connect of Some f \<Rightarrow> f (w, new_conn e fd lp s) | None \<Rightarrow> Inr (w, new_conn e fd lp s)) = Inr (w', new_conn e fd lp s)"
  shows "server_exec on_connect (V_Accept e fd) (w, s) = Inr (w', accepted e fd lp tp s)"
proof -
  have "ConnectionEstablished on_connect (w, set_close_callback (TcpConnection_ctor (env_state e) (env_tied e) (env_headers e)
      (epolls s lp) (env_socket e) fd (next_conn_id s)))
     = (case on_connect of Some f \<Rightarrow> f (w, new_conn e fd lp s) | None \<Rightarrow> Inr (w, new_conn e fd lp s))"
    by (cases on_connect) (simp_all add: ConnectionEstablished_def new_conn_def established_eq set_close_callback_def Let_def)
  then show ?thesis using assms by (simp add: AcceptConnection_def HandleNewConnection_def Let_def accepted_def)
qed

lemma fresh_fd:
  assumes "server_inv s" "fd \<notin> open_fds s"
  shows "epolls s l fd = None"
proof (rule ccontr)
  assume "epolls s l fd \<noteq> None"
  then obtain p c where c: "objects s p = Some (l, c)" "connfd c = fd" using server_invD(12) [OF assms(1)] by blast
  then show False using server_invD(4) [OF assms(1) c(1)] assms(2) by (simp add: object_ok_def)
qed

lemma accepted_inv:
  assumes inv: "server_inv s" and g: "GetNextLoop (thread_pool s) = Inr (lp, tp)" and fd: "0 \<le> fd" "fd \<notin> open_fds s"
    and a: "objects s (env_address e) = None" and k: "socket_ok (env_socket e)"
  shows "server_inv (accepted e fd lp tp s)"
proof -
  note I = server_invD [OF inv]
  let ?a = "env_address e"
  have gp: "pool_ok tp" using pool.get_ok [OF I(1)] g by auto
  have fresh: "connfd c \<noteq> fd" if "objects s p = Some (l, c)" for p l c
    using I(4) [OF that] fd(2) by (auto simp: object_ok_def)
  have ep: "epolls s lp fd = None" by (rule fresh_fd [OF inv fd(2)])
  define n where "n = (if next_conn_id s + 1 = 1000 then 1 else next_conn_id s + 1)"
  have n: "1 \<le> n" "n \<le> 999" using I(2,3) by (auto simp: n_def)
  define c where "c = new_conn e fd lp s"
  note E = established_more [where ep = "epolls s lp" and fd = fd and st = "env_state e" and t = "env_tied e" and h = "env_headers e" and k = "env_socket e"
    and cid = "next_conn_id s", OF ep, folded new_conn_def, folded c_def]
  define s' where "s' = accepted e fd lp tp s"
  have s'_eq: "s' = s\<lparr>open_fds := insert fd (open_fds s), thread_pool := tp, next_conn_id := n,
          connectionsMap := (connectionsMap s)(fd \<mapsto> ?a),
          objects := (objects s)(?a \<mapsto> (lp, c)), epolls := (epolls s)(lp := loop_epoll c)\<rparr>"
    by (simp add: s'_def accepted_def n_def c_def)
  have "server_inv s'"
    unfolding server_inv_def
  proof (intro conjI allI impI ballI)
    fix p l d assume o: "objects s' p = Some (l, d)"
    show "object_ok p s' l d"
    proof (cases "p = ?a")
      case True
      have "?a \<notin> set (main_tasks s)" using I(7) a by blast
      moreover have "?a \<notin> set (loop_tasks s l')" for l' using I(9) a by fastforce
      moreover have "conn_ok c" using established_ok(1) [of "epolls s lp" fd, OF ep k] by (simp add: c_def new_conn_def)
      ultimately show ?thesis using True o E I(2,3) by (simp add: s'_eq server_parts)
    next
      case False
      then have o': "objects s p = Some (l, d)" using o by (simp add: s'_eq)
      note f = fresh [OF o']
      show ?thesis
      proof (rule object_ok_cong [OF I(4) [OF o']])
        show "connfd d \<in> open_fds s'" using I(4) [OF o'] by (simp add: s'_eq object_ok_def)
        show "epolls s' l (connfd d) = epolls s l (connfd d)" using f E(7) by (simp add: s'_eq)
      qed (use f in \<open>simp_all add: s'_eq\<close>)
    qed
  next
    fix p p' l d l' d' assume o: "objects s' p = Some (l, d)" "objects s' p' = Some (l', d')" "connfd d = connfd d'"
    then show "p = p'"
      using fresh I(5) E(1) by (cases "p = ?a"; cases "p' = ?a") (force simp: s'_eq)+
  next
    fix f p assume "connectionsMap s' f = Some p"
    then show "\<exists>l c. objects s' p = Some (l, c) \<and> connfd c = f"
      using E(1) I(6) [of f p] a by (cases "f = fd") (auto simp: s'_eq)
  next
    fix p assume "p \<in> set (main_tasks s')"
    then show "objects s' p \<noteq> None" using I(7) by (simp add: s'_eq)
  next
    fix l p assume "p \<in> set (loop_tasks s' l)"
    then show "\<exists>c. objects s' p = Some (l, c)" using I(9) [of p l] a by (auto simp: s'_eq)
  next
    fix f assume "f \<in> open_fds s'"
    then have "f = fd \<or> f \<in> open_fds s" by (simp add: s'_eq)
    then show "\<exists>p l c. objects s' p = Some (l, c) \<and> connfd c = f"
    proof
      assume "f = fd"
      then show ?thesis using E(1) by (intro exI [of _ ?a] exI [of _ lp] exI [of _ c]) (simp add: s'_eq)
    next
      assume "f \<in> open_fds s"
      then obtain p l d where "objects s p = Some (l, d)" "connfd d = f" using I(11) by blast
      then show ?thesis using a by (intro exI [of _ p] exI [of _ l] exI [of _ d]) (auto simp: s'_eq)
    qed
  next
    fix l f assume ef: "epolls s' l f \<noteq> None"
    show "\<exists>p c. objects s' p = Some (l, c) \<and> connfd c = f"
    proof (cases "l = lp \<and> f = fd")
      case True
      then show ?thesis using E(1) by (intro exI [of _ ?a] exI [of _ c]) (simp add: s'_eq)
    next
      case False
      then have "epolls s l f \<noteq> None" using ef E(7) by (auto simp: s'_eq split: if_splits)
      then obtain p d where "objects s p = Some (l, d)" "connfd d = f" using I(12) by blast
      then show ?thesis using a by (intro exI [of _ p] exI [of _ d]) (auto simp: s'_eq)
    qed
  qed (use gp n I(8,10,13) in \<open>simp_all add: s'_eq\<close>)
  then show ?thesis by (simp add: s'_def)
qed

lemma accept_step:
  assumes inv: "server_inv s" and q: "quiet on_connect" and fd: "0 \<le> fd" "fd \<notin> open_fds s" and a: "objects s (env_address e) = None"
    and k: "socket_ok (env_socket e)"
  shows "\<exists>w' s'. server_exec on_connect (V_Accept e fd) (w, s) = Inr (w', s') \<and> server_inv s'"
proof -
  obtain lp tp where g: "GetNextLoop (thread_pool s) = Inr (lp, tp)"
    using pool.get_ok [OF server_invD(1) [OF inv]] by blast
  let ?c = "new_conn e fd lp s"
  obtain w' where "(case on_connect of Some f \<Rightarrow> f (w, ?c) | None \<Rightarrow> Inr (w, ?c)) = Inr (w', ?c)"
    using q by (cases on_connect) (auto simp: quiet_def)
  from accept_exec [OF g fd(1) this] accepted_inv [OF inv g fd a k] show ?thesis by blast
qed

text \<open>A step that moves the references to one object\<close>

lemma moved_inv:
  assumes inv: "server_inv s" and o: "objects s p = Some (l, c)" and c: "connfd c' = connfd c"
    and same: "thread_pool s' = thread_pool s" "next_conn_id s' = next_conn_id s" "open_fds s' = open_fds s"
      "\<And>l' fd. l' \<noteq> l \<or> fd \<noteq> connfd c \<Longrightarrow> epolls s' l' fd = epolls s l' fd" "objects s' = (objects s)(p \<mapsto> (l, c'))"
    and ok: "object_ok p s' l c'"
    and cm: "connectionsMap s' (connfd c) \<in> {None, Some p}" "\<And>fd. fd \<noteq> connfd c \<Longrightarrow> connectionsMap s' fd = connectionsMap s fd"
    and mt: "distinct (main_tasks s')" "\<And>q. q \<noteq> p \<Longrightarrow> q \<in> set (main_tasks s') \<longleftrightarrow> q \<in> set (main_tasks s)"
    and lt: "\<And>l. distinct (loop_tasks s' l)" "\<And>q l. q \<noteq> p \<Longrightarrow> q \<in> set (loop_tasks s' l) \<longleftrightarrow> q \<in> set (loop_tasks s l)"
      "\<And>l'. p \<in> set (loop_tasks s' l') \<Longrightarrow> l' = l"
  shows "server_inv s'"
proof -
  note I = server_invD [OF inv]
  have fd: "connfd d \<noteq> connfd c" if "objects s q = Some (l', d)" "q \<noteq> p" for q l' d
    using I(5) [OF that(1) o] that(2) by blast
  show ?thesis unfolding server_inv_def
  proof (intro conjI allI impI ballI)
    fix q l' d assume q: "objects s' q = Some (l', d)"
    show "object_ok q s' l' d"
    proof (cases "q = p")
      case True
      then show ?thesis using q ok same(5) by simp
    next
      case False
      then have q': "objects s q = Some (l', d)" using q same(5) by simp
      then have "connfd d \<in> open_fds s'" using I(4) same(3) by (simp add: object_ok_def)
      then show ?thesis using False fd [OF q' False] cm(2) mt(2) lt(2) same(4)
        by (intro object_ok_cong [OF I(4) [OF q']]) simp_all
    qed
  next
    fix q q' l1 d l2 d' assume "objects s' q = Some (l1, d)" "objects s' q' = Some (l2, d')" "connfd d = connfd d'"
    then show "q = q'" using fd I(5) o c same(5) by (auto split: if_splits)
  next
    fix fd q assume m: "connectionsMap s' fd = Some q"
    then show "\<exists>l d. objects s' q = Some (l, d) \<and> connfd d = fd"
      using cm I(6) [of fd q] c same(5) o by (cases "fd = connfd c"; cases "q = p") auto
  next
    fix q assume "q \<in> set (main_tasks s')"
    then show "objects s' q \<noteq> None" using mt(2) I(7) same(5) by (cases "q = p") auto
  next
    fix l' q assume "q \<in> set (loop_tasks s' l')"
    then show "\<exists>d. objects s' q = Some (l', d)" using lt(2,3) I(9) same(5) by (cases "q = p") auto
  next
    fix fd assume "fd \<in> open_fds s'"
    then have "fd \<in> open_fds s" using same(3) by simp
    then obtain q l' d where "objects s q = Some (l', d)" "connfd d = fd" using I(11) by blast
    then show "\<exists>q l d. objects s' q = Some (l, d) \<and> connfd d = fd" using o c same(5) by (cases "q = p") auto
  next
    fix l' fd assume e: "epolls s' l' fd \<noteq> None"
    show "\<exists>q d. objects s' q = Some (l', d) \<and> connfd d = fd"
    proof (cases "l' = l \<and> fd = connfd c")
      case True
      then show ?thesis using c same(5) by (intro exI [of _ p] exI [of _ c']) simp
    next
      case False
      then have "epolls s l' fd \<noteq> None" using e same(4) by auto
      then obtain q d where "objects s q = Some (l', d)" "connfd d = fd" using I(12) by blast
      then show ?thesis using o c same(5) by (cases "q = p") auto
    qed
  qed (use I(1-3,13) mt(1) lt(1) same(1-3,5) in simp_all)
qed

lemma HandleCloseInLoop_ok:
  assumes "objects s p = Some (l, c)" "connectionsMap s (connfd c) = Some p"
  shows "HandleCloseInLoop p s = Inr (s\<lparr>connectionsMap := (connectionsMap s)(connfd c := None),
     loop_tasks := (loop_tasks s)(l := loop_tasks s l @ [p])\<rparr>)"
  using assms by (simp add: HandleCloseInLoop_def object_at_def assertE_def)

text \<open>A handler has left a connection well formed and in its place.\<close>

lemma object_moved:
  assumes inv: "server_inv s" and o: "objects s p = Some (l, c)"
    and c1: "conn_ok c1" "same_place (c\<lparr>loop_epoll := epolls s l\<rparr>) c1"
  shows "\<exists>s'. (if close_calls c1 \<noteq> close_calls c
       then HandleClose_server l p (s\<lparr>objects := (objects s)(p \<mapsto> (l, c1)), epolls := (epolls s)(l := loop_epoll c1)\<rparr>)
       else Inr (s\<lparr>objects := (objects s)(p \<mapsto> (l, c1)), epolls := (epolls s)(l := loop_epoll c1)\<rparr>)) = Inr s'
     \<and> server_inv s' \<and> objects s' = (objects s)(p \<mapsto> (l, c1)) \<and> epolls s' = (epolls s)(l := loop_epoll c1)"
proof -
  note I = server_invD [OF inv]
  let ?c = "c\<lparr>loop_epoll := epolls s l\<rparr>"
  have k: "object_ok p s l c" using I(4) [OF o] .
  note K = object_ok_fields [OF k]
  have P: "connfd c1 = connfd c" "connid c1 = connid c" "conn_state c1 = conn_state c \<or> conn_state c1 = Disconected"
      "\<And>fd. fd \<noteq> connfd c \<Longrightarrow> loop_epoll c1 fd = epolls s l fd"
    using K(2) c1(2) by (simp_all add: same_place_def)
  have calls: "close_calls c = (if conn_state c = Disconected then 1 else 0)"
      "close_calls c1 = (if conn_state c1 = Disconected then 1 else 0)"
    using K(1) c1(1) by (simp_all add: conn_ok_def closed_once_def)
  let ?s = "s\<lparr>objects := (objects s)(p \<mapsto> (l, c1)), epolls := (epolls s)(l := loop_epoll c1)\<rparr>"
  have E: "epolls ?s l' fd = epolls s l' fd" if "l' \<noteq> l \<or> fd \<noteq> connfd c" for l' fd
    using P(4) [of fd] that by auto
  show ?thesis
  proof (cases "close_calls c1 = close_calls c")
    case True
    then have st: "conn_state c1 = Disconected \<longleftrightarrow> conn_state c = Disconected"
      using calls by (cases "conn_state c1 = Disconected"; cases "conn_state c = Disconected") simp_all
    have "server_inv ?s"
    proof (rule moved_inv [OF inv o P(1)])
      show "object_ok p ?s l c1" using k st P(1,2) c1(1)
        by (cases "conn_state c = Disconected") (simp_all add: server_parts)
      show "connectionsMap ?s (connfd c) \<in> {None, Some p}" using k by (auto simp: server_parts split: if_splits)
      show "l' = l" if "p \<in> set (loop_tasks ?s l')" for l' using I(9) [of p l'] that o by simp
    qed (use E I(8,10) in simp_all)
    then show ?thesis using True by auto
  next
    case False
    then have st: "conn_state c \<noteq> Disconected" "conn_state c1 = Disconected" using calls P(3)
      by (cases "conn_state c1 = Disconected"; cases "conn_state c = Disconected"; simp)+
    then have m: "connectionsMap s (connfd c) = Some p" "p \<notin> set (main_tasks s)" "\<And>l. p \<notin> set (loop_tasks s l)"
      using k by (simp_all add: server_parts)
    show ?thesis
    proof (cases "l = main_reactor (thread_pool s)")
      case True
      let ?t = "?s\<lparr>connectionsMap := (connectionsMap s)(connfd c := None), loop_tasks := (loop_tasks s)(l := loop_tasks s l @ [p])\<rparr>"
      have "HandleClose_server l p ?s = Inr ?t"
        using True m(1) P(1) by (simp add: HandleClose_server_def HandleCloseInLoop_ok [where l = l and c = c1])
      moreover have "server_inv ?t"
      proof (rule moved_inv [OF inv o P(1)])
        show "object_ok p ?t l c1" using k st m P(1,2) c1(1) by (simp add: server_parts)
        show "distinct (loop_tasks ?t l')" for l' using I(10) [of l'] I(10) [of l] m(3) by simp
        show "q \<in> set (loop_tasks ?t l') \<longleftrightarrow> q \<in> set (loop_tasks s l')" if "q \<noteq> p" for q l' using that by simp
        show "l' = l" if "p \<in> set (loop_tasks ?t l')" for l' using that m(3) by (simp split: if_splits)
      qed (use E I(8) in simp_all)
      ultimately show ?thesis using False by auto
    next
      case l: False
      let ?t = "?s\<lparr>main_tasks := main_tasks s @ [p]\<rparr>"
      have "HandleClose_server l p ?s = Inr ?t" using l by (simp add: HandleClose_server_def)
      moreover have "server_inv ?t"
      proof (rule moved_inv [OF inv o P(1)])
        show "object_ok p ?t l c1" using k st m P(1,2) c1(1) by (simp add: server_parts)
        show "distinct (main_tasks ?t)" using I(8) m(2) by simp
        show "l' = l" if "p \<in> set (loop_tasks ?t l')" for l' using that m(3) by simp
      qed (use m(1) E I(10) in simp_all)
      ultimately show ?thesis using False by auto
    qed
  qed
qed

lemma on_object_ok:
  assumes "server_inv s" and "objects s p = Some (l, c)" and "f (w, c\<lparr>loop_epoll := epolls s l\<rparr>) = Inr (w1, c1)"
    and "conn_ok c1" "same_place (c\<lparr>loop_epoll := epolls s l\<rparr>) c1"
  shows "\<exists>s'. on_object f p (w, s) = Inr (w1, s') \<and> server_inv s' \<and> objects s' = (objects s)(p \<mapsto> (l, c1))
     \<and> epolls s' = (epolls s)(l := loop_epoll c1)"
  using object_moved [OF assms(1,2,4,5)] assms(2,3) by (auto simp: on_object_def object_at_def Let_def)

lemma on_object_objects:
  assumes "on_object f q (w, v) = Inr (w', v')"
  shows "\<exists>l c c'. objects v q = Some (l, c) \<and> f (w, c\<lparr>loop_epoll := epolls v l\<rparr>) = Inr (w', c') \<and> objects v' = (objects v)(q \<mapsto> (l, c'))"
proof -
  obtain l c where o: "objects v q = Some (l, c)"
    using assms by (cases "objects v q") (auto simp: on_object_def object_at_def)
  obtain c' s2 where c': "f (w, c\<lparr>loop_epoll := epolls v l\<rparr>) = Inr (w', c')" "v' = s2"
      "(if close_calls c' \<noteq> close_calls c
        then HandleClose_server l q (v\<lparr>objects := (objects v)(q \<mapsto> (l, c')), epolls := (epolls v)(l := loop_epoll c')\<rparr>)
        else Inr (v\<lparr>objects := (objects v)(q \<mapsto> (l, c')), epolls := (epolls v)(l := loop_epoll c')\<rparr>)) = Inr s2"
    using assms o by (auto simp: on_object_def object_at_def Let_def result_simps)
  have "objects s2 = (objects v)(q \<mapsto> (l, c'))"
    using c'(3) by (auto simp: HandleClose_server_def HandleCloseInLoop_def result_simps split: if_splits)
  then show ?thesis using o c' by blast
qed

lemma op_step:
  assumes inv: "server_inv s" and o: "objects s p = Some (l, c)" and room: "f = Op_HandleClose \<or> conn_room (length (op_msg f)) c"
  shows "\<exists>s'. run_conn_op f p (w, s) = Inr (w, s') \<and> server_inv s'"
proof -
  let ?c = "c\<lparr>loop_epoll := epolls s l\<rparr>"
  note K = object_ok_fields [OF server_invD(4) [OF inv o]]
  obtain c1 where c1: "conn_exec f ?c = Inr c1" "conn_ok c1"
  proof (cases "f = Op_HandleClose")
    case True
    then show thesis using that HandleClose_ok(1) [OF K(4)] by simp
  next
    case False
    then have "conn_room (length (op_msg f) + 0) ?c" using room by (simp add: conn_room_def)
    then show thesis using conn_exec_step [OF K(4)] that by blast
  qed
  show ?thesis
    using on_object_ok [OF inv o _ c1(2) conn_exec_same_place [OF c1(1)], of "\<lambda>(w, c). bindE (conn_exec f c) (\<lambda>c1. Inr (w, c1))" w w]
    c1(1) by (auto simp: run_conn_op_def)
qed

lemma consume_step:
  assumes inv: "server_inv s" and o: "objects s p = Some (l, c)"
  shows "\<exists>s'. consume p s = Inr s' \<and> server_inv s'"
proof -
  note I = server_invD [OF inv]
  let ?c = "c\<lparr>read_buf := RetrieveAll (read_buf c)\<rparr>" and ?s = "s\<lparr>objects := (objects s)(p \<mapsto> (l, c\<lparr>read_buf := RetrieveAll (read_buf c)\<rparr>))\<rparr>"
  have k: "object_ok p s l c" using I(4) [OF o] .
  have "binv (RetrieveAll (read_buf c))"
    using object_ok_fields(4) [OF k] RetrieveAllAsString_spec by (auto simp: conn_ok_def conn_inv_def)
  then have "conn_ok (?c\<lparr>loop_epoll := epolls s l\<rparr>)"
    using object_ok_fields(4) [OF k] by (simp add: conn_ok_def conn_inv_def writes_ok_def reads_ok_def closed_once_def)
  then have "object_ok p ?s l ?c" using k by (cases "conn_state c = Disconected") (simp_all add: server_parts)
  moreover have "connectionsMap s (connfd c) \<in> {None, Some p}" using k by (auto simp: server_parts split: if_splits)
  moreover have "l' = l" if "p \<in> set (loop_tasks s l')" for l' using I(9) [of p l'] that o by simp
  ultimately have "server_inv ?s" using I(8,10) by (intro moved_inv [OF inv o, of ?c]) auto
  then show ?thesis using o by (simp add: consume_def object_at_def)
qed

lemma main_task_step:
  assumes inv: "server_inv s" and t: "main_tasks s = p # ps"
  obtains l c where "objects s p = Some (l, c)" "connectionsMap s (connfd c) = Some p"
    "run_main_task s = Inr (s\<lparr>main_tasks := ps, connectionsMap := (connectionsMap s)(connfd c := None),
       loop_tasks := (loop_tasks s)(l := loop_tasks s l @ [p])\<rparr>)"
    "server_inv (s\<lparr>main_tasks := ps, connectionsMap := (connectionsMap s)(connfd c := None),
       loop_tasks := (loop_tasks s)(l := loop_tasks s l @ [p])\<rparr>)"
proof -
  note I = server_invD [OF inv]
  obtain l c where o: "objects s p = Some (l, c)" using I(7) [of p] t by auto
  have k: "object_ok p s l c" using I(4) [OF o] .
  then have d: "conn_state c = Disconected" and cl: "closing_conn p s (connfd c)"
    using t by (auto simp: server_parts split: if_splits)
  then have m: "connectionsMap s (connfd c) = Some p" "\<And>l. p \<notin> set (loop_tasks s l)" by (simp_all add: closing_conn_def)
  let ?t = "s\<lparr>main_tasks := ps, connectionsMap := (connectionsMap s)(connfd c := None),
       loop_tasks := (loop_tasks s)(l := loop_tasks s l @ [p])\<rparr>"
  have "run_main_task s = Inr ?t"
    using o m(1) t by (simp add: run_main_task_def HandleCloseInLoop_ok [where l = l and c = c] release_def referenced_def)
  moreover have "objects ?t = (objects s)(p \<mapsto> (l, c))" using o by (simp add: map_upd_triv)
  then have "server_inv ?t"
    by (intro moved_inv [OF inv o, of c])
      (use k m d t I(8,10) in \<open>auto simp: server_parts split: if_splits\<close>)
  ultimately show thesis using that [OF o m(1)] by blast
qed


text \<open>The step that destroys an object\<close>

lemma loop_task_step:
  assumes inv: "server_inv s" and t: "loop_tasks s l = p # ps"
  obtains c ep where "objects s p = Some (l, c)" "conn_state c = Disconected" "ep (connfd c) = None"
    "\<And>fd. fd \<noteq> connfd c \<Longrightarrow> ep fd = epolls s l fd"
    "run_loop_task l s = Inr (s\<lparr>objects := (objects s)(p := None), open_fds := open_fds s - {connfd c},
       epolls := (epolls s)(l := ep), loop_tasks := (loop_tasks s)(l := ps)\<rparr>)"
    "server_inv (s\<lparr>objects := (objects s)(p := None), open_fds := open_fds s - {connfd c},
       epolls := (epolls s)(l := ep), loop_tasks := (loop_tasks s)(l := ps)\<rparr>)"
proof -
  note I = server_invD [OF inv]
  obtain c where o: "objects s p = Some (l, c)" using I(9) [of p l] t by auto
  have k: "object_ok p s l c" using I(4) [OF o] .
  moreover have "p \<in> set (loop_tasks s l)" using t by simp
  ultimately have d: "conn_state c = Disconected" and cl: "ending_conn p s l (connfd c)"
    by (auto simp: server_parts split: if_splits)
  note fd = object_ok_fields(2) [OF k] and w = object_ok_fields(3) [OF k]
  have m: "connectionsMap s (connfd c) = None" "p \<notin> set (main_tasks s)" "\<And>l'. l' \<noteq> l \<Longrightarrow> p \<notin> set (loop_tasks s l')" "p \<notin> set ps"
    using cl I(10) [of l] t by (auto simp: ending_conn_def)
  let ?ep = "(epolls s l)(connfd c := None)"
  let ?t = "s\<lparr>objects := (objects s)(p := None), open_fds := open_fds s - {connfd c},
       epolls := (epolls s)(l := ?ep), loop_tasks := (loop_tasks s)(l := ps)\<rparr>"
  have r: "run_loop_task l s = Inr ?t"
    using o m t w fd by (simp add: run_loop_task_def object_at_def ConnectionDestructor_def on_channel_def DeleteChannel_def
        epoll_del_def release_def referenced_def Let_def)
  have other: "connfd e \<noteq> connfd c" if "objects s q = Some (l', e)" "q \<noteq> p" for q l' e
    using I(5) [OF that(1) o] that(2) by blast
  have "server_inv ?t" unfolding server_inv_def
  proof (intro conjI allI impI ballI)
    fix q l' e assume "objects ?t q = Some (l', e)"
    then have q: "q \<noteq> p" "objects s q = Some (l', e)" by (auto split: if_splits)
    note f = other [OF q(2) q(1)]
    show "object_ok q ?t l' e"
    proof (rule object_ok_cong [OF I(4) [OF q(2)]])
      show "connfd e \<in> open_fds ?t" using I(4) [OF q(2)] f by (simp add: object_ok_def)
      show "q \<in> set (loop_tasks ?t l') \<longleftrightarrow> q \<in> set (loop_tasks s l')" for l' using q(1) t by simp
    qed (use f in simp_all)
  next
    fix q q' l1 e l2 e' assume "objects ?t q = Some (l1, e)" "objects ?t q' = Some (l2, e')" "connfd e = connfd e'"
    then show "q = q'" using I(5) by (auto split: if_splits)
  next
    fix f q assume a: "connectionsMap ?t f = Some q"
    then obtain l' e where "objects s q = Some (l', e)" "connfd e = f" using I(6) [of f q] by auto
    moreover have "q \<noteq> p" using calculation a m(1) o by auto
    ultimately show "\<exists>l e. objects ?t q = Some (l, e) \<and> connfd e = f" by simp
  next
    fix q assume "q \<in> set (main_tasks ?t)"
    then have "q \<in> set (main_tasks s)" by simp
    then show "objects ?t q \<noteq> None" using I(7) m(2) by auto
  next
    fix l' q assume a: "q \<in> set (loop_tasks ?t l')"
    then have "q \<in> set (loop_tasks s l')" "q \<noteq> p" using t m(3,4) by (auto split: if_splits)
    then show "\<exists>e. objects ?t q = Some (l', e)" using I(9) by simp
  next
    fix l' show "distinct (loop_tasks ?t l')" using I(10) [of l] I(10) [of l'] t by simp
  next
    fix f assume "f \<in> open_fds ?t"
    then have f: "f \<in> open_fds s" "f \<noteq> connfd c" by simp_all
    then obtain q l' e where "objects s q = Some (l', e)" "connfd e = f" using I(11) by blast
    then show "\<exists>q l e. objects ?t q = Some (l, e) \<and> connfd e = f"
      using f(2) o by (intro exI [of _ q] exI [of _ l'] exI [of _ e]) auto
  next
    fix l' f assume a: "epolls ?t l' f \<noteq> None"
    then have "epolls s l' f \<noteq> None" "l' = l \<Longrightarrow> f \<noteq> connfd c" by (auto split: if_splits)
    then obtain q e where "objects s q = Some (l', e)" "connfd e = f" using I(12) by blast
    then show "\<exists>q e. objects ?t q = Some (l', e) \<and> connfd e = f"
      using \<open>l' = l \<Longrightarrow> f \<noteq> connfd c\<close> o by (intro exI [of _ q] exI [of _ e]) auto
  qed (use I(1-3,8,13) in simp_all)
  then show thesis using that [OF o d, of ?ep] r by simp
qed

lemma server_step_ok:
  assumes "server_inv (snd s)" "quiet on_connect" "server_enabled x (snd s)"
  shows "\<exists>s'. server_exec on_connect x s = Inr s' \<and> server_inv (snd s')"
proof (cases s)
  case (Pair w v)
  show ?thesis
  proof (cases x)
    case (V_Accept e fd)
    then show ?thesis using accept_step [of v on_connect fd e w] assms Pair by auto
  next
    case (V_Op p f)
    then obtain l c where "objects v p = Some (l, c)" "f = Op_HandleClose \<or> conn_room (length (op_msg f)) c"
      using assms(3) Pair by (auto split: option.splits)
    then show ?thesis using op_step [of v p l c f w] V_Op assms(1) Pair by fastforce
  next
    case (V_Consume p)
    then show ?thesis using consume_step [of v p] assms Pair by fastforce
  next
    case V_Main
    then obtain p ps where "main_tasks v = p # ps" using assms(3) Pair by (cases "main_tasks v") auto
    then show ?thesis using V_Main assms(1) Pair by (auto elim: main_task_step)
  next
    case (V_Loop l)
    then obtain p ps where "loop_tasks v l = p # ps" using assms(3) Pair by (cases "loop_tasks v l") auto
    then show ?thesis using V_Loop assms(1) Pair by (auto elim: loop_task_step)
  qed
qed

lemma server_run_inv:
  assumes "server_run on_connect s xs s2" "quiet on_connect" "server_inv (snd s)"
  shows "server_inv (snd s2)"
  using assms(1,3)
proof induction
  case (server_cons x s s1 xs s2)
  then show ?case using server_step_ok [OF server_cons.prems assms(2) server_cons.hyps(1)] by auto
qed

text \<open>A server as it is when its loops have been started\<close>

definition started_server :: "(nat \<Rightarrow> 'l) \<Rightarrow> int \<Rightarrow> 'l \<Rightarrow> 'l TcpServer" where
  "started_server started n main = Start_server started (SetThreadNum_server n (TcpServer_ctor main))"

lemma started_server_inv: "n \<le> INT_MAX \<Longrightarrow> server_inv (started_server started n main)"
  by (auto simp: started_server_def server_inv_def TcpServer_ctor_def Start_server_def Start_pool_def SetThreadNum_server_def
      SetThreadNum_def EventLoopThreadPool_ctor_def pool_ok_def)

text \<open>What the map, the objects and the descriptors are to each other, whatever tasks are pending\<close>

definition server_consistent :: "'l TcpServer \<Rightarrow> bool" where
  "server_consistent s \<longleftrightarrow>
     (\<forall>fd p. connectionsMap s fd = Some p \<longrightarrow> (\<exists>l c. objects s p = Some (l, c) \<and> connfd c = fd))
   \<and> (\<forall>p q l c l' c'. objects s p = Some (l, c) \<longrightarrow> objects s q = Some (l', c') \<longrightarrow> connfd c = connfd c' \<longrightarrow> p = q)
   \<and> (\<forall>p l c. objects s p = Some (l, c) \<longrightarrow> conn_state c \<noteq> Disconected \<longrightarrow> connectionsMap s (connfd c) = Some p)
   \<and> (\<forall>p l c. objects s p = Some (l, c) \<longrightarrow> 1 \<le> connid c \<and> connid c \<le> 999 \<and> epolls s l (connfd c) \<noteq> None
        \<and> conn_ok (c\<lparr>loop_epoll := epolls s l\<rparr>))
   \<and> open_fds s = {connfd c | p l c. objects s p = Some (l, c)}"

lemma server_inv_consistent:
  assumes "server_inv s"
  shows "server_consistent s"
proof -
  note I = server_invD [OF assms]
  have "connectionsMap s (connfd c) = Some p" if "objects s p = Some (l, c)" "conn_state c \<noteq> Disconected" for p l c
    using I(4) [OF that(1)] that(2) by (simp add: server_parts)
  moreover have o: "1 \<le> connid c \<and> connid c \<le> 999 \<and> epolls s l (connfd c) \<noteq> None \<and> conn_ok (c\<lparr>loop_epoll := epolls s l\<rparr>)" "connfd c \<in> open_fds s"
    if "objects s p = Some (l, c)" for p l c
    using I(4) [OF that] object_ok_fields(3) [OF I(4) [OF that]] by (simp_all add: object_ok_def)
  moreover have "open_fds s = {connfd c | p l c. objects s p = Some (l, c)}"
  proof (rule Set.equalityI; rule subsetI)
    fix fd assume "fd \<in> open_fds s"
    then show "fd \<in> {connfd c | p l c. objects s p = Some (l, c)}" using I(11) by blast
  next
    fix fd assume "fd \<in> {connfd c | p l c. objects s p = Some (l, c)}"
    then show "fd \<in> open_fds s" using o(2) by blast
  qed
  ultimately show ?thesis unfolding server_consistent_def using I(5,6) by simp
qed

text \<open>The functions of the loops\<close>

fun is_task :: "'l server_step \<Rightarrow> bool" where
  "is_task V_Main = True"
| "is_task (V_Loop l) = True"
| "is_task (V_Accept e fd) = False"
| "is_task (V_Op p f) = False"
| "is_task (V_Consume p) = False"

definition shut_objects :: "'l TcpServer \<Rightarrow> nat set" where
  "shut_objects s = {p. \<exists>l c. objects s p = Some (l, c) \<and> conn_state c = Disconected}"

lemma shut_objects_finite: "server_inv s \<Longrightarrow> finite (shut_objects s)"
  using server_invD(13) [of s] by (rule rev_finite_subset) (auto simp: shut_objects_def)

lemma shut_task:
  assumes "server_inv s" "p \<in> shut_objects s"
  shows "main_tasks s \<noteq> [] \<or> (\<exists>l. loop_tasks s l \<noteq> [])"
proof -
  obtain l c where o: "objects s p = Some (l, c)" "conn_state c = Disconected" using assms(2) by (auto simp: shut_objects_def)
  have "object_ok p s l c" using server_invD(4) [OF assms(1) o(1)] .
  then have "p \<in> set (main_tasks s) \<or> p \<in> set (loop_tasks s l)" using o(2) by (auto simp: server_parts)
  then show ?thesis by force
qed

lemma task_step:
  assumes inv: "server_inv s" and x: "is_task x" "server_enabled x s" and e: "server_exec on_connect x (w, s) = Inr (w', s')"
  shows "length (main_tasks s') + card (shut_objects s') < length (main_tasks s) + card (shut_objects s)"
    and "objects s' p = objects s p \<or> p \<in> shut_objects s \<and> objects s' p = None"
proof -
  note fin = shut_objects_finite [OF inv]
  have "length (main_tasks s') + card (shut_objects s') < length (main_tasks s) + card (shut_objects s)
      \<and> (objects s' p = objects s p \<or> p \<in> shut_objects s \<and> objects s' p = None)" for p
  proof (cases x)
    case V_Main
    then obtain q ps where t: "main_tasks s = q # ps" using x(2) by (cases "main_tasks s") auto
    show ?thesis
    proof (rule main_task_step [OF inv t])
      fix l c assume r: "run_main_task s = Inr (s\<lparr>main_tasks := ps, connectionsMap := (connectionsMap s)(connfd c := None),
           loop_tasks := (loop_tasks s)(l := loop_tasks s l @ [q])\<rparr>)"
      then have s': "s' = s\<lparr>main_tasks := ps, connectionsMap := (connectionsMap s)(connfd c := None),
           loop_tasks := (loop_tasks s)(l := loop_tasks s l @ [q])\<rparr>" using e V_Main by simp
      then have "shut_objects s' = shut_objects s" by (simp add: shut_objects_def)
      then show ?thesis using s' t by simp
    qed
  next
    case (V_Loop l)
    then obtain q ps where t: "loop_tasks s l = q # ps" using x(2) by (cases "loop_tasks s l") auto
    show ?thesis
    proof (rule loop_task_step [OF inv t])
      fix c ep assume o: "objects s q = Some (l, c)" "conn_state c = Disconected"
        and r: "run_loop_task l s = Inr (s\<lparr>objects := (objects s)(q := None), open_fds := open_fds s - {connfd c},
       epolls := (epolls s)(l := ep), loop_tasks := (loop_tasks s)(l := ps)\<rparr>)"
      then have s': "s' = s\<lparr>objects := (objects s)(q := None), open_fds := open_fds s - {connfd c},
       epolls := (epolls s)(l := ep), loop_tasks := (loop_tasks s)(l := ps)\<rparr>" using e V_Loop by simp
      then have m: "shut_objects s' = shut_objects s - {q}" by (auto simp: shut_objects_def)
      have "q \<in> shut_objects s" using o by (auto simp: shut_objects_def)
      then show ?thesis using s' m card_Diff1_less [OF fin] by auto
    qed
  qed (use x in simp_all)
  then show "length (main_tasks s') + card (shut_objects s') < length (main_tasks s) + card (shut_objects s)"
    "objects s' p = objects s p \<or> p \<in> shut_objects s \<and> objects s' p = None" by blast+
qed

lemma task_run:
  assumes "server_run on_connect s ys s2" "quiet on_connect" "server_inv (snd s)" "\<forall>x \<in> set ys. is_task x"
  shows "length ys + length (main_tasks (snd s2)) + card (shut_objects (snd s2))
      \<le> length (main_tasks (snd s)) + card (shut_objects (snd s))
    \<and> (\<forall>p. objects (snd s2) p = objects (snd s) p \<or> p \<in> shut_objects (snd s) \<and> objects (snd s2) p = None)"
  using assms(1,3,4)
proof induction
  case (server_cons x s s1 xs s2)
  obtain w v w1 v1 where p: "s = (w, v)" "s1 = (w1, v1)" by (cases s; cases s1)
  have i: "server_inv v1" using server_step_ok [OF server_cons.prems(1) assms(2) server_cons.hyps(1)] server_cons.hyps(2) p by auto
  have x: "server_inv v" "is_task x" "server_enabled x v" "server_exec on_connect x (w, v) = Inr (w1, v1)"
    using server_cons.prems server_cons.hyps p by simp_all
  note t = task_step [OF x]
  have ih: "length xs + length (main_tasks (snd s2)) + card (shut_objects (snd s2)) \<le> length (main_tasks v1) + card (shut_objects v1)"
      "\<And>q. objects (snd s2) q = objects v1 q \<or> q \<in> shut_objects v1 \<and> objects (snd s2) q = None"
    using server_cons.IH i p server_cons.prems(2) by simp_all
  have "objects (snd s2) q = objects v q \<or> q \<in> shut_objects v \<and> objects (snd s2) q = None" for q
    using ih(2) [of q] t(2) [of q] by (auto simp: shut_objects_def)
  then show ?case using ih(1) t(1) p by simp
qed simp

section \<open>An example\<close>

text \<open>One client, which comes, goes, and comes back with the same descriptor\<close>

definition example_client :: conn_env where
  "example_client = \<lparr>env_state = Invalid, env_tied = False, env_headers = False,
     env_socket = \<lparr>incoming = [], accepts = [], sent = []\<rparr>, env_address = 0\<rparr>"

lemma client_comes:
  assumes "server_inv s" "GetNextLoop (thread_pool s) = Inr (l, tp)" "0 \<le> fd" "fd \<notin> open_fds s" "objects s (env_address e) = None"
    "socket_ok (env_socket e)"
  obtains c s1 where "server_exec None (V_Accept e fd) (w, s) = Inr (w, s1)" "server_inv s1"
    "objects s1 = (objects s)(env_address e \<mapsto> (l, c))" "connfd c = fd" "conn_state c = Connected" "thread_pool s1 = tp"
    "open_fds s1 = insert fd (open_fds s)" "main_tasks s1 = main_tasks s" "loop_tasks s1 = loop_tasks s"
proof (rule that)
  show "server_exec None (V_Accept e fd) (w, s) = Inr (w, accepted e fd l tp s)"
    using accept_exec [OF assms(2,3), where on_connect = None and w = w and w' = w] by simp
  show "server_inv (accepted e fd l tp s)" by (rule accepted_inv [OF assms])
  show "connfd (new_conn e fd l s) = fd" "conn_state (new_conn e fd l s) = Connected"
    by (simp_all add: new_conn_def established_eq set_close_callback_def TcpConnection_ctor_def)
qed (simp_all add: accepted_def)

lemma client_goes:
  assumes "server_inv s" "objects s p = Some (l, c)" "conn_state c = Connected" "l \<noteq> main_reactor (thread_pool s)"
  obtains c1 s1 where "server_exec on_connect (V_Op p Op_HandleClose) (w, s) = Inr (w, s1)" "server_inv s1"
    "objects s1 = (objects s)(p \<mapsto> (l, c1))" "main_tasks s1 = main_tasks s @ [p]" "loop_tasks s1 = loop_tasks s"
    "open_fds s1 = open_fds s" "thread_pool s1 = thread_pool s" "connfd c1 = connfd c" "conn_state c1 = Disconected"
proof -
  have "close_callback c" using object_ok_fields(1) [OF server_invD(4) [OF assms(1,2)]] by (simp add: closed_once_def)
  let ?c = "HandleClose (c\<lparr>loop_epoll := epolls s l\<rparr>)"
  let ?s = "s\<lparr>objects := (objects s)(p \<mapsto> (l, ?c)), epolls := (epolls s)(l := loop_epoll ?c), main_tasks := main_tasks s @ [p]\<rparr>"
  have "close_calls ?c \<noteq> close_calls c" using \<open>close_callback c\<close> assms(3) by (simp add: HandleClose_def)
  then have r: "run_conn_op Op_HandleClose p (w, s) = Inr (w, ?s)"
    using assms(2,4) by (simp add: run_conn_op_def on_object_def object_at_def HandleClose_server_def)
  show thesis
  proof (rule that [of ?s ?c])
    show "server_exec on_connect (V_Op p Op_HandleClose) (w, s) = Inr (w, ?s)" using r by simp
    show "server_inv ?s" using op_step [OF assms(1,2), of Op_HandleClose w] r by simp
  qed simp_all
qed

lemma client_ends:
  assumes "server_inv s" "objects s p = Some (l, c)" "main_tasks s = [p]" "loop_tasks s l = []"
  obtains s1 s2 where "server_exec on_connect V_Main (w, s) = Inr (w, s1)" "loop_tasks s1 l = [p]"
    "server_exec on_connect (V_Loop l) (w, s1) = Inr (w, s2)" "server_inv s2" "objects s2 = (objects s)(p := None)"
    "open_fds s2 = open_fds s - {connfd c}" "thread_pool s2 = thread_pool s"
proof (rule main_task_step [OF assms(1,3)])
  fix l' and c' :: TcpConnection
  let ?s = "s\<lparr>main_tasks := [], connectionsMap := (connectionsMap s)(connfd c' := None),
       loop_tasks := (loop_tasks s)(l' := loop_tasks s l' @ [p])\<rparr>"
  assume o: "objects s p = Some (l', c')" and r: "run_main_task s = Inr ?s" and i: "server_inv ?s"
  have l: "l' = l" "c' = c" using o assms(2) by simp_all
  have t: "loop_tasks ?s l = p # []" using l assms(4) by simp
  show thesis
  proof (rule loop_task_step [OF i t])
    fix d :: TcpConnection and ep
    let ?t = "?s\<lparr>objects := (objects ?s)(p := None), open_fds := open_fds ?s - {connfd d},
       epolls := (epolls ?s)(l := ep), loop_tasks := (loop_tasks ?s)(l := [])\<rparr>"
    assume "objects ?s p = Some (l, d)" and r2: "run_loop_task l ?s = Inr ?t" and i2: "server_inv ?t"
    then have d: "d = c" using assms(2) by simp
    show thesis
    proof (rule that [of ?s ?t])
      show "server_exec on_connect V_Main (w, s) = Inr (w, ?s)" using r by simp
      show "server_exec on_connect (V_Loop l) (w, ?s) = Inr (w, ?t)" using r2 by simp
    qed (use t i2 d in simp_all)
  qed
qed

lemma example_run:
  "\<exists>w s1 s. server_run None ((), started_server (\<lambda>i. i) 2 99) [V_Accept example_client 7, V_Op 0 Op_HandleClose] (w, s1)
     \<and> server_run None (w, s1) [V_Main, V_Loop 0] (w, s) \<and> server_inv s1 \<and> shut_objects s1 = {0} \<and> main_tasks s1 = [0]
     \<and> server_inv s \<and> objects s = Map.empty \<and> open_fds s = {}
     \<and> (\<exists>tp. GetNextLoop (thread_pool s) = Inr (1, tp))"
proof -
  let ?s = "started_server (\<lambda>i. i) 2 (99 :: nat)"
  let ?tp = "(thread_pool ?s)\<lparr>next_index := 1\<rparr>"
  have p: "loops (thread_pool ?s) = [0, 1]" "next_index (thread_pool ?s) = 0" "main_reactor (thread_pool ?s) = 99"
    by (simp_all add: started_server_def Start_server_def SetThreadNum_server_def SetThreadNum_def TcpServer_ctor_def Start_pool_def
        EventLoopThreadPool_ctor_def upt_rec)
  have inv: "server_inv ?s" by (rule started_server_inv) simp
  have g: "GetNextLoop (thread_pool ?s) = Inr (0, ?tp)"
    using GetNextLoop_ok [OF server_invD(1) [OF inv]] p by simp
  have e: "objects ?s = Map.empty" "open_fds ?s = {}" "main_tasks ?s = []" "loop_tasks ?s = (\<lambda>l. [])"
    by (simp_all add: started_server_def Start_server_def SetThreadNum_server_def TcpServer_ctor_def)
  obtain c s1 where 1: "server_exec None (V_Accept example_client 7) ((), ?s) = Inr ((), s1)" "server_inv s1"
      "objects s1 = [0 \<mapsto> (0, c)]" "connfd c = 7" "conn_state c = Connected" "thread_pool s1 = ?tp" "open_fds s1 = {7}"
      "main_tasks s1 = []" "loop_tasks s1 = (\<lambda>l. [])"
    by (rule client_comes [OF inv g, of 7 example_client]) (use e in \<open>simp_all add: example_client_def socket_ok_def\<close>)
  have "objects s1 0 = Some (0, c)" "0 \<noteq> main_reactor (thread_pool s1)" using 1(3,6) p(3) by simp_all
  then obtain c1 s2 where 2: "server_exec None (V_Op 0 Op_HandleClose) ((), s1) = Inr ((), s2)" "server_inv s2"
      "objects s2 = (objects s1)(0 \<mapsto> (0, c1))" "main_tasks s2 = main_tasks s1 @ [0]" "loop_tasks s2 = loop_tasks s1"
      "open_fds s2 = open_fds s1" "thread_pool s2 = thread_pool s1" "connfd c1 = connfd c" "conn_state c1 = Disconected"
    by (rule client_goes [OF 1(2) _ 1(5)])
  have s2: "objects s2 = [0 \<mapsto> (0, c1)]" "main_tasks s2 = [0]" "loop_tasks s2 = (\<lambda>l. [])" "open_fds s2 = {7}" "thread_pool s2 = ?tp"
    using 1 2(3-7) by simp_all
  then have o: "objects s2 0 = Some (0, c1)" "loop_tasks s2 0 = []" by simp_all
  obtain s3 s4 where 3: "server_exec None V_Main ((), s2) = Inr ((), s3)" "loop_tasks s3 0 = [0]"
      "server_exec None (V_Loop 0) ((), s3) = Inr ((), s4)" "server_inv s4" "objects s4 = (objects s2)(0 := None)"
      "open_fds s4 = open_fds s2 - {7}" "thread_pool s4 = thread_pool s2"
    by (rule client_ends [OF 2(2) o(1) s2(2) o(2)]) (use 1(4) 2(8) in simp)
  have r1: "server_run None ((), ?s) [V_Accept example_client 7, V_Op 0 Op_HandleClose] ((), s2)"
  proof (rule server_cons [OF _ 1(1)])
    show "server_enabled (V_Accept example_client 7) (snd ((), ?s))" by (simp add: e example_client_def socket_ok_def)
    show "server_run None ((), s1) [V_Op 0 Op_HandleClose] ((), s2)"
      by (rule server_cons [OF _ 2(1)], simp add: 1(3), rule server_nil)
  qed
  have r2: "server_run None ((), s2) [V_Main, V_Loop 0] ((), s4)"
    by (rule server_cons [OF _ 3(1)], simp add: s2(2), rule server_cons [OF _ 3(3)], simp add: 3(2), rule server_nil)
  have "shut_objects s2 = {0}" using 2(9) by (auto simp: shut_objects_def s2(1))
  moreover have "\<exists>tp. GetNextLoop (thread_pool s4) = Inr (1, tp)"
    using GetNextLoop_ok [OF server_invD(1) [OF 3(4)]] p(1) by (simp add: 3(7) s2(5))
  moreover have "objects s4 = Map.empty" "open_fds s4 = {}" using 3(5,6) s2 by simp_all
  ultimately show ?thesis using r1 r2 2(2) 3(4) s2(2) by blast
qed

section \<open>Properties\<close>

text \<open>The server stays well formed: in every interleaving of accepted clients, connections that read,
  send, write and close, and functions the loops run, every entry of the connection map leads to a live
  connection with that descriptor, every connection that is not closed is in the map, no two live
  connections share a descriptor, the open descriptors are exactly those of the live connections, their
  identifiers stay from 1 to 999, and each connection keeps its own invariant on the shared interest list
  of its loop (its buffers are well formed, and the kernel watches for what it waits for); no assertion
  fails and no dead object is used. Only a failed accept, whose -1 is passed on, ends the server on an
  assertion.\<close>

lemma server_stays_consistent:
  assumes "n \<le> INT_MAX" and "quiet on_connect"
    and "server_run on_connect (w, started_server started n main) xs (w1, s)"
  shows "server_consistent s
     \<and> (\<forall>x. server_enabled x s \<longrightarrow> (\<exists>w2 s2. server_exec on_connect x (w1, s) = Inr (w2, s2) \<and> server_consistent s2))
     \<and> AcceptConnection (Some (HandleNewConnection on_connect e)) 3 (- 1) (w1, s) = Inl Assertion_failed"
proof (intro conjI allI impI)
  have inv: "server_inv s" using server_run_inv [OF assms(3,2)] started_server_inv [OF assms(1), of started main] by simp
  then show "server_consistent s" by (rule server_inv_consistent)
  fix x assume "server_enabled x s"
  then obtain s2 where "server_exec on_connect x (w1, s) = Inr s2" "server_inv (snd s2)"
    using server_step_ok [of "(w1, s)" on_connect x] inv assms(2) by auto
  then show "\<exists>w2 s2. server_exec on_connect x (w1, s) = Inr (w2, s2) \<and> server_consistent s2"
    using server_inv_consistent by (cases s2) auto
next
  show "AcceptConnection (Some (HandleNewConnection on_connect e)) 3 (- 1) (w1, s) = Inl Assertion_failed"
    by (simp add: AcceptConnection_def HandleNewConnection_def assertE_def)
qed

lemma server_stays_consistent_witness:
  "\<exists>w s. server_run None ((), started_server (\<lambda>i. i) 2 99) [V_Accept example_client 7, V_Op 0 Op_HandleClose] (w, s)
     \<and> server_consistent s \<and> main_tasks s = [0] \<and> (\<exists>w2 s2. server_exec None V_Main (w, s) = Inr (w2, s2))"
proof -
  obtain w s where r: "server_run None ((), started_server (\<lambda>i. i) 2 99) [V_Accept example_client 7, V_Op 0 Op_HandleClose] (w, s)"
      "main_tasks s = [0]" using example_run by blast
  have "quiet None" "(2 :: int) \<le> INT_MAX" by (simp_all add: quiet_def)
  note t = server_stays_consistent [OF this(2,1) r(1)]
  moreover have "server_enabled V_Main s" using r(2) by simp
  ultimately have "\<exists>w2 s2. server_exec None V_Main (w, s) = Inr (w2, s2)" by blast
  then show ?thesis using t r by blast
qed

text \<open>C5: Closed connections go away: whatever the server has been doing, the functions its loops have
  queued can be run in any order without a failure, there are at most as many as closings on the main
  loop and closed connections together, and when none is left, exactly the closed connections have been
  destroyed and their descriptors closed, and every other connection is as it was.\<close>

theorem closed_connections_destroyed:
  assumes "n \<le> INT_MAX" and "quiet on_connect"
    and "server_run on_connect (w, started_server started n main) xs (w1, s1)"
    and "server_run on_connect (w1, s1) ys (w2, s2)" and "\<forall>x \<in> set ys. is_task x"
  shows "length ys \<le> length (main_tasks s1) + card (shut_objects s1)
     \<and> (\<forall>x. is_task x \<longrightarrow> server_enabled x s2 \<longrightarrow> (\<exists>s3. server_exec on_connect x (w2, s2) = Inr s3))
     \<and> ((\<forall>x. is_task x \<longrightarrow> \<not> server_enabled x s2) \<longrightarrow>
          (\<forall>p. objects s2 p = (if p \<in> shut_objects s1 then None else objects s1 p))
        \<and> open_fds s2 = {connfd c | p l c. objects s1 p = Some (l, c) \<and> conn_state c \<noteq> Disconected})"
proof (intro conjI allI impI)
  have inv: "server_inv s1" using server_run_inv [OF assms(3,2)] started_server_inv [OF assms(1), of started main] by simp
  have inv2: "server_inv s2" using server_run_inv [OF assms(4,2)] inv by simp
  have run: "length ys + length (main_tasks s2) + card (shut_objects s2) \<le> length (main_tasks s1) + card (shut_objects s1)"
      "\<And>p. objects s2 p = objects s1 p \<or> p \<in> shut_objects s1 \<and> objects s2 p = None"
    using task_run [OF assms(4,2) _ assms(5)] inv by simp_all
  show "length ys \<le> length (main_tasks s1) + card (shut_objects s1)" using run(1) by simp
  show "\<exists>s3. server_exec on_connect x (w2, s2) = Inr s3" if "server_enabled x s2" for x
    using server_step_ok [of "(w2, s2)" on_connect x] inv2 assms(2) that by auto
  assume idle: "\<forall>x. is_task x \<longrightarrow> \<not> server_enabled x s2"
  have none: "main_tasks s2 = []" "\<And>l. loop_tasks s2 l = []"
    using spec [OF idle, of V_Main] spec [OF idle, of "V_Loop _"] by simp_all
  have shut: "shut_objects s2 = {}" using shut_task [OF inv2] none by auto
  show o: "objects s2 p = (if p \<in> shut_objects s1 then None else objects s1 p)" for p
    using run(2) [of p] shut by (auto simp: shut_objects_def)
  have live: "objects s2 p = Some (l, c) \<longleftrightarrow> objects s1 p = Some (l, c) \<and> conn_state c \<noteq> Disconected" for p l c
    using o [of p] by (auto simp: shut_objects_def split: if_splits)
  have "open_fds s2 = {connfd c | p l c. objects s2 p = Some (l, c)}"
    using server_inv_consistent [OF inv2] by (simp add: server_consistent_def)
  also have "\<dots> = {connfd c | p l c. objects s1 p = Some (l, c) \<and> conn_state c \<noteq> Disconected}"
    by (simp add: live)
  finally show "open_fds s2 = {connfd c | p l c. objects s1 p = Some (l, c) \<and> conn_state c \<noteq> Disconected}" .
qed

theorem closed_connections_destroyed_witness:
  "\<exists>w s1 s. server_run None ((), started_server (\<lambda>i. i) 2 99) [V_Accept example_client 7, V_Op 0 Op_HandleClose] (w, s1)
     \<and> server_run None (w, s1) [V_Main, V_Loop 0] (w, s) \<and> shut_objects s1 = {0}
     \<and> length [V_Main, V_Loop (0 :: nat)] \<le> length (main_tasks s1) + card (shut_objects s1)"
proof -
  obtain w s1 s where r: "server_run None ((), started_server (\<lambda>i. i) 2 99) [V_Accept example_client 7, V_Op 0 Op_HandleClose] (w, s1)"
      "server_run None (w, s1) [V_Main, V_Loop 0] (w, s)" "shut_objects s1 = {0}"
    using example_run by blast
  have "quiet None" "(2 :: int) \<le> INT_MAX" by (simp_all add: quiet_def)
  from closed_connections_destroyed [OF this(2,1) r(1,2)] r show ?thesis by auto
qed

end
