(* ===== verification/HttpServer.thy ===== *)
theory HttpServer
  imports TcpConnection HttpResponse
begin

text \<open>
  The HTTP server: \<open>http/HttpServer.h\<close> and \<open>http/HttpServer.cpp\<close> (class \<open>HttpServer\<close>), which connects
  the connection, the parser and the response: what happens when a message has been read. The
  request callback of the application acts on a world of its own (the file system, for the file
  server); an exception it throws leaves the server. Logging is left out, the clock is an argument.
  The theory shows that requests are answered, in order, whatever way their bytes arrive.
\<close>

section \<open>Handlers\<close>

type_synonym 'w http_callback = "HttpRequest \<Rightarrow> 'w \<times> HttpResponse \<Rightarrow> ('w \<times> HttpResponse) result"

record 'w HttpServer =
  timeout :: real
  auto_close_conn :: bool
  on_request :: "'w http_callback"

definition DefaultHttpCallback :: "'w http_callback" where
  "DefaultHttpCallback = (\<lambda>req (w, resp).
     Inr (w, SetCloseConnection True (SetStatusMessage ''Not Found'' (SetStatusCode k404NotFound resp))))"

definition HttpServer_ctor :: "real \<Rightarrow> 'w HttpServer" where
  "HttpServer_ctor tm =
     \<lparr>timeout = tm, auto_close_conn = (tm > 0), on_request = DefaultHttpCallback\<rparr>"

definition set_http_callback :: "'w http_callback \<Rightarrow> 'w HttpServer \<Rightarrow> 'w HttpServer" where
  "set_http_callback fn s = s\<lparr>on_request := fn\<rparr>"

definition onRequest :: "'w HttpServer \<Rightarrow> iteration \<Rightarrow> HttpRequest \<Rightarrow> 'w conn_callback" where
  "onRequest s iter req = (\<lambda>(w, c).
     let connection = GetHeaderString req ''Connection'';
         close = (connection = ''close'' \<or> rq_version req = kHTTP_1_0 \<and> connection \<noteq> ''Keep-Alive'')
     in bindE (on_request s req (w, HttpResponse_ctor close)) (\<lambda>(w1, response).
        bindE (Send_string (message iter response) c) (\<lambda>c1.
        Inr (w1, if close_connection response then HandleClose c1 else c1))))"

definition bad_request :: string where
  "bad_request = ''HTTP/1.1 400 Bad Request'' @ crlf @ crlf"

definition onMessage :: "'w HttpServer \<Rightarrow> iteration \<Rightarrow> timespec \<Rightarrow> 'w conn_callback" where
  "onMessage s iter clock = (\<lambda>(w, c).
     if conn_state c = Connected then
       bindE (if auto_close_conn s then bindE (Now clock) (\<lambda>t. Inr (SetActTime t c)) else Inr c) (\<lambda>c1.
       if \<not> Buffer_IsEmpty (read_buf c1) then
         bindE (RetrieveAllAsString (read_buf c1)) (\<lambda>(in_buffer, b).
         bindE (ParseRequest in_buffer (conn_context c1)) (\<lambda>(context, ok).
         let c2 = c1\<lparr>read_buf := b, conn_context := context\<rparr>
         in if \<not> ok then
              bindE (Send_cstr bad_request c2) (\<lambda>c3. Inr (w, HandleClose c3))
            else if IsComplete context then
              bindE (onRequest s iter (ctx_request context) (w, c2)) (\<lambda>(w1, c3).
              Inr (w1, c3\<lparr>conn_context := Reset (conn_context c3)\<rparr>))
            else Inr (w, c2)))
       else Inr (w, c1))
     else Inr (w, c))"

text \<open>What the loop does when the kernel reports events on the connection's socket\<close>

definition conn_ready :: "'w HttpServer \<Rightarrow> iteration \<Rightarrow> timespec \<Rightarrow> 32 word \<Rightarrow> 'w conn_callback" where
  "conn_ready s iter clock ev = on_ready (onMessage s iter clock) ev"

section \<open>One event\<close>

text \<open>A connection between two messages: nothing unread is left in its buffer.\<close>

definition idle :: "TcpConnection \<Rightarrow> bool" where
  "idle c \<longleftrightarrow> conn_ok c \<and> conn_state c = Connected \<and> read_index (read_buf c) = 8 \<and> write_index (read_buf c) = 8"

text \<open>The socket's answers for one event: pieces of at most 1024 bytes, then \<open>EAGAIN\<close>\<close>

definition pieces_ok :: "string list \<Rightarrow> bool" where
  "pieces_ok ps \<longleftrightarrow> ps \<noteq> [] \<and> [] \<notin> set ps \<and> (\<forall>p \<in> set ps. length p \<le> 1024)
     \<and> int (length (concat ps)) + 16 \<le> INT_MAX"

definition arrival :: "string list \<Rightarrow> read_result list" where
  "arrival ps = map R_data ps @ [R_error EAGAIN]"

lemma arrived_arrival: "[] \<notin> set ps \<Longrightarrow> arrived (arrival ps @ rs) = (concat ps, False)"
  by (induction ps) (auto simp: arrival_def)

lemma read_loop_arrival:
  "[] \<notin> set ps \<Longrightarrow> read_loop (arrival ps @ rs) c = Inr (rs', c') \<Longrightarrow> rs' = rs"
  by (induction ps arbitrary: c) (auto simp: arrival_def Let_def result_simps)

lemma drained_contents: "read_index b = write_index b \<Longrightarrow> contents b = []"
  by (simp add: contents_def slice_def)

lemma ready_EPOLLIN:
  "short_and (ready_events (SetReadyEvents EPOLLIN ch)) (EPOLLIN OR EPOLLPRI OR EPOLLRDHUP) \<noteq> 0"
  "short_and (ready_events (SetReadyEvents EPOLLIN ch)) EPOLLOUT = 0"
proof -
  have b: "bit (ready_events (SetReadyEvents EPOLLIN ch)) n \<longleftrightarrow> n = 0" for n
    by (auto simp: SetReadyEvents_def bit_unsigned_iff epoll_bit)
  show "short_and (ready_events (SetReadyEvents EPOLLIN ch)) (EPOLLIN OR EPOLLPRI OR EPOLLRDHUP) \<noteq> 0"
    unfolding short_and_zero by (rule exI [of _ 0]) (simp add: b bit_or_iff epoll_bit)
  show "short_and (ready_events (SetReadyEvents EPOLLIN ch)) EPOLLOUT = 0"
    using short_and_zero [of "ready_events (SetReadyEvents EPOLLIN ch)" EPOLLOUT] by (auto simp: b epoll_bit)
qed

lemma on_ready_in:
  "on_ready f EPOLLIN (w, c) = HandleMessage (Some f) (w, c\<lparr>channel := SetReadyEvents EPOLLIN (channel c)\<rparr>)"
  by (simp add: on_ready_def HandleEvent_def HandleEventWithGuard_def ready_EPOLLIN Let_def)
    (simp add: bindE_def split: sum.split)

lemma conn_ready_in:
  "conn_ready s iter clock EPOLLIN (w, c) =
     HandleMessage (Some (onMessage s iter clock)) (w, c\<lparr>channel := SetReadyEvents EPOLLIN (channel c)\<rparr>)"
  by (simp only: conn_ready_def on_ready_in)

definition clock_ok :: "'w HttpServer \<Rightarrow> timespec \<Rightarrow> bool" where
  "clock_ok s clock \<longleftrightarrow> auto_close_conn s \<longrightarrow> (\<exists>t. Now clock = Inr t)"

text \<open>Fields the operations on the buffers do not look at\<close>

lemma conn_ok_cong:
  assumes "conn_ok c" "binv b" "\<forall>r \<in> set (incoming k). r \<in> set (incoming (sock c))"
    "accepts k = accepts (sock c)" "listen_events ch = listen_events (channel c)"
    "ch_fd ch = ch_fd (channel c)" "in_epoll ch = in_epoll (channel c)"
  shows "conn_ok (c\<lparr>channel := ch, sock := k, act_time := t, read_buf := b\<rparr>)"
  using assms unfolding conn_ok_def conn_inv_def writes_ok_def reads_ok_def closed_once_def in_sync_def watches_def
  by auto

lemma idle_read:
  assumes "idle c" and "pieces_ok ps" and "incoming (sock c) = arrival ps @ rs"
  shows "\<exists>b. ReadNonBlocking (c\<lparr>channel := ch\<rparr>) = Inr (c\<lparr>channel := ch, read_buf := b, sock := (sock c)\<lparr>incoming := rs\<rparr>\<rparr>)
     \<and> binv b \<and> contents b = concat ps"
proof -
  let ?c = "c\<lparr>channel := ch\<rparr>"
  have ne: "[] \<notin> set ps" using assms(2) by (simp add: pieces_ok_def)
  have inv: "binv (read_buf ?c)" using assms(1) by (simp add: idle_def conn_ok_def conn_inv_def)
  have l: "\<forall>s. R_data s \<in> set (arrival ps @ rs) \<longrightarrow> length s \<le> 1024"
    using assms(1,3) by (simp add: idle_def conn_ok_def reads_ok_def)
  have w: "write_index (read_buf ?c) + int (length (fst (arrived (arrival ps @ rs)))) + 8 \<le> INT_MAX"
    using assms(1,2) arrived_arrival [OF ne, of rs] by (simp add: idle_def pieces_ok_def)
  obtain rs' b where b: "read_loop (arrival ps @ rs) ?c = Inr (rs', ?c\<lparr>read_buf := b\<rparr>)" "binv b"
      "contents b = contents (read_buf ?c) @ concat ps"
    using read_loop_spec [OF inv l w] arrived_arrival [OF ne, of rs] by auto
  have "contents (read_buf ?c) = []" using assms(1) drained_contents by (simp add: idle_def)
  moreover have "rs' = rs" using read_loop_arrival [OF ne b(1)] .
  ultimately show ?thesis using b assms(3) by (intro exI [of _ b]) (simp add: ReadNonBlocking_def)
qed

text \<open>What reading on an idle connection amounts to, and a readability event\<close>

lemma idle_message:
  assumes "idle c" and "pieces_ok ps" and "incoming (sock c) = arrival ps @ rs" and "clock_ok s clock"
  shows "\<exists>c2. idle c2 \<and> outgoing c2 = outgoing c \<and> incoming (sock c2) = rs \<and> conn_context c2 = conn_context c
     \<and> write_index (send_buf c2) = write_index (send_buf c) \<and> send_buf c2 = send_buf c \<and> accepts (sock c2) = accepts (sock c)
     \<and> HandleMessage (Some (onMessage s iter clock)) (w, c\<lparr>channel := SetReadyEvents ev (channel c)\<rparr>) = bindE (ParseRequest (concat ps) (conn_context c)) (\<lambda>(context, ok).
         let c3 = c2\<lparr>conn_context := context\<rparr>
         in if \<not> ok then bindE (Send_cstr bad_request c3) (\<lambda>c4. Inr (w, HandleClose c4))
            else if IsComplete context then
              bindE (onRequest s iter (ctx_request context) (w, c3)) (\<lambda>(w1, c4).
              Inr (w1, c4\<lparr>conn_context := Reset (conn_context c4)\<rparr>))
            else Inr (w, c3))"
proof -
  let ?ch = "SetReadyEvents ev (channel c)"
  obtain b where b: "ReadNonBlocking (c\<lparr>channel := ?ch\<rparr>)
       = Inr (c\<lparr>channel := ?ch, read_buf := b, sock := (sock c)\<lparr>incoming := rs\<rparr>\<rparr>)" "binv b" "contents b = concat ps"
    using idle_read [OF assms(1-3)] by blast
  obtain t where t: "(if auto_close_conn s then bindE (Now clock) (\<lambda>t. Inr (SetActTime t x)) else Inr x)
       = Inr (x\<lparr>act_time := t x\<rparr>)" for x
  proof (cases "auto_close_conn s")
    case True
    then obtain t where "Now clock = Inr t" using assms(4) by (auto simp: clock_ok_def)
    then show thesis using that [of "\<lambda>x. t"] True by (simp add: SetActTime_def)
  next
    case False
    then show thesis using that [of act_time] by simp
  qed
  let ?c1 = "c\<lparr>channel := ?ch, read_buf := b, sock := (sock c)\<lparr>incoming := rs\<rparr>\<rparr>"
  define c2 where "c2 = ?c1\<lparr>act_time := t ?c1, read_buf := RetrieveAll b\<rparr>"
  have "concat ps \<noteq> []" using assms(2) by (cases ps) (auto simp: pieces_ok_def)
  then have "\<not> Buffer_IsEmpty b" using b(3) drained_contents [of b] by (auto simp: Buffer_IsEmpty_def beginread_def beginwrite_def)
  moreover have "RetrieveAllAsString b = Inr (concat ps, RetrieveAll b)"
    using RetrieveAllAsString_spec [OF b(2)] b(3) by simp
  moreover have "conn_state ?c1 = Connected" using assms(1) by (simp add: idle_def)
  ultimately have "onMessage s iter clock (w, ?c1) = bindE (ParseRequest (concat ps) (conn_context c)) (\<lambda>(context, ok).
         let c3 = c2\<lparr>conn_context := context\<rparr>
         in if \<not> ok then bindE (Send_cstr bad_request c3) (\<lambda>c4. Inr (w, HandleClose c4))
            else if IsComplete context then
              bindE (onRequest s iter (ctx_request context) (w, c3)) (\<lambda>(w1, c4).
              Inr (w1, c4\<lparr>conn_context := Reset (conn_context c4)\<rparr>))
            else Inr (w, c3))"
    unfolding onMessage_def c2_def by (simp add: t)
  then have "HandleMessage (Some (onMessage s iter clock)) (w, c\<lparr>channel := ?ch\<rparr>) = bindE (ParseRequest (concat ps) (conn_context c)) (\<lambda>(context, ok).
         let c3 = c2\<lparr>conn_context := context\<rparr>
         in if \<not> ok then bindE (Send_cstr bad_request c3) (\<lambda>c4. Inr (w, HandleClose c4))
            else if IsComplete context then
              bindE (onRequest s iter (ctx_request context) (w, c3)) (\<lambda>(w1, c4).
              Inr (w1, c4\<lparr>conn_context := Reset (conn_context c4)\<rparr>))
            else Inr (w, c3))"
    using b(1) by (simp add: HandleMessage_def)
  moreover have "idle c2"
    using assms(1,3) RetrieveAllAsString_spec [OF b(2)] conn_ok_cong [of c "RetrieveAll b" "(sock c)\<lparr>incoming := rs\<rparr>" ?ch "t ?c1"]
    b(2)
    by (auto simp: idle_def c2_def RetrieveAll_def kPrePendIndex_def SetReadyEvents_def binv_def)
  ultimately show ?thesis
    by (intro exI [of _ c2]) (simp add: c2_def outgoing_def)
qed

lemma idle_event:
  assumes "idle c" and "pieces_ok ps" and "incoming (sock c) = arrival ps @ rs" and "clock_ok s clock"
  shows "\<exists>c2. idle c2 \<and> outgoing c2 = outgoing c \<and> incoming (sock c2) = rs \<and> conn_context c2 = conn_context c
     \<and> write_index (send_buf c2) = write_index (send_buf c) \<and> send_buf c2 = send_buf c \<and> accepts (sock c2) = accepts (sock c)
     \<and> conn_ready s iter clock EPOLLIN (w, c) = bindE (ParseRequest (concat ps) (conn_context c)) (\<lambda>(context, ok).
         let c3 = c2\<lparr>conn_context := context\<rparr>
         in if \<not> ok then bindE (Send_cstr bad_request c3) (\<lambda>c4. Inr (w, HandleClose c4))
            else if IsComplete context then
              bindE (onRequest s iter (ctx_request context) (w, c3)) (\<lambda>(w1, c4).
              Inr (w1, c4\<lparr>conn_context := Reset (conn_context c4)\<rparr>))
            else Inr (w, c3))"
  using idle_message [OF assms, where ev = EPOLLIN and iter = iter and w = w] unfolding conn_ready_in .

lemma onRequest_spec:
  assumes "conn_ok c"
    and "on_request s req (w, HttpResponse_ctor (GetHeaderString req ''Connection'' = ''close''
           \<or> rq_version req = kHTTP_1_0 \<and> GetHeaderString req ''Connection'' \<noteq> ''Keep-Alive'')) = Inr (w1, r)"
    and "write_index (send_buf c) + int (length (message iter r)) + 8 \<le> INT_MAX"
  shows "\<exists>c'. onRequest s iter req (w, c) = Inr (w1, if close_connection r then HandleClose c' else c')
     \<and> conn_ok c' \<and> outgoing c' = outgoing c @ message iter r
     \<and> same_but_io c c' \<and> write_index (send_buf c') \<le> write_index (send_buf c) + int (length (message iter r))"
proof -
  have ok: "conn_inv c" "writes_ok c" using assms(1) by (simp_all add: conn_ok_def)
  obtain c' where c': "Send_string (message iter r) c = Inr c'" "conn_inv c'" "writes_ok c'"
      "outgoing c' = outgoing c @ message iter r" "same_but_io c c'"
      "write_index (send_buf c') \<le> write_index (send_buf c) + int (length (message iter r))"
    using Send_spec [OF ok assms(3)] by blast
  moreover have "conn_ok c'" using conn_ok_same [OF assms(1) c'(5,2,3) close_callback_io(3) [OF c'(1)]] .
  ultimately show ?thesis using assms(2) by (intro exI [of _ c']) (simp add: onRequest_def Let_def)
qed

section \<open>A session\<close>

lemma conn_ok_context [simp]: "conn_ok (c\<lparr>conn_context := x\<rparr>) = conn_ok c"
  by (simp add: conn_ok_def conn_inv_def writes_ok_def reads_ok_def closed_once_def)

lemma idle_context [simp]: "idle (c\<lparr>conn_context := x\<rparr>) = idle c"
  by (simp add: idle_def)

lemma outgoing_context [simp]: "outgoing (c\<lparr>conn_context := x\<rparr>) = outgoing c"
  by (simp add: outgoing_def)

text \<open>A sequence of readability events, each with its time and the pieces that have arrived\<close>

definition serve :: "'w HttpServer \<Rightarrow> iteration \<Rightarrow> (timespec \<times> string list) list \<Rightarrow> 'w conn_callback" where
  "serve s iter = foldE (\<lambda>(clock, ps). conn_ready s iter clock EPOLLIN)"

definition events_ok :: "'w HttpServer \<Rightarrow> (timespec \<times> string list) list \<Rightarrow> bool" where
  "events_ok s evs \<longleftrightarrow> (\<forall>(clock, ps) \<in> set evs. clock_ok s clock \<and> pieces_ok ps)"

definition events_text :: "(timespec \<times> string list) list \<Rightarrow> string list" where
  "events_text evs = map (\<lambda>(clock, ps). concat ps) evs"

definition arrivals :: "(timespec \<times> string list) list \<Rightarrow> read_result list" where
  "arrivals evs = concat (map (\<lambda>(clock, ps). arrival ps) evs)"

lemma serve_feed:
  assumes "idle c" and "evs \<noteq> []" and "events_ok s evs" and "incoming (sock c) = arrivals evs @ rs"
    and "feed (events_text evs) (conn_context c) = Inr (context, True, [])" and "IsComplete context"
  shows "\<exists>c2. idle c2 \<and> outgoing c2 = outgoing c \<and> incoming (sock c2) = rs
     \<and> write_index (send_buf c2) = write_index (send_buf c) \<and> conn_context c2 = context
     \<and> serve s iter evs (w, c) = bindE (onRequest s iter (ctx_request context) (w, c2)) (\<lambda>(w1, c4).
           Inr (w1, c4\<lparr>conn_context := Reset (conn_context c4)\<rparr>))"
  using assms
proof (induction evs arbitrary: c)
  case (Cons ev evs)
  obtain clock ps where ev: "ev = (clock, ps)" by (cases ev)
  have e: "pieces_ok ps" "clock_ok s clock" "events_ok s evs" using Cons.prems(3) by (auto simp: events_ok_def ev)
  have "incoming (sock c) = arrival ps @ (arrivals evs @ rs)"
    using Cons.prems(4) by (simp add: arrivals_def ev)
  from idle_event [OF Cons.prems(1) e(1) this e(2), where iter = iter and w = w] obtain c2 where
    c2: "idle c2" "outgoing c2 = outgoing c" "incoming (sock c2) = arrivals evs @ rs"
      "conn_context c2 = conn_context c" "write_index (send_buf c2) = write_index (send_buf c)"
      "conn_ready s iter clock EPOLLIN (w, c) = bindE (ParseRequest (concat ps) (conn_context c)) (\<lambda>(context, ok).
         let c3 = c2\<lparr>conn_context := context\<rparr>
         in if \<not> ok then bindE (Send_cstr bad_request c3) (\<lambda>c4. Inr (w, HandleClose c4))
            else if IsComplete context then
              bindE (onRequest s iter (ctx_request context) (w, c3)) (\<lambda>(w1, c4).
              Inr (w1, c4\<lparr>conn_context := Reset (conn_context c4)\<rparr>))
            else Inr (w, c3))"
    by (auto simp: Let_def)
  obtain ctx1 ok where p: "ParseRequest (concat ps) (conn_context c) = Inr (ctx1, ok)"
    using Cons.prems(5) by (auto simp: events_text_def ev result_simps)
  show ?case
  proof (cases "ok \<and> \<not> IsComplete ctx1")
    case True
    with Cons.prems(5,6) p have ne: "evs \<noteq> []" by (auto simp: events_text_def ev)
    have "feed (events_text evs) ctx1 = Inr (context, True, [])"
      using Cons.prems(5) p True ne by (simp add: events_text_def ev)
    from Cons.IH [of "c2\<lparr>conn_context := ctx1\<rparr>", OF _ ne e(3)] this c2 Cons.prems(6) True p
    show ?thesis by (simp add: serve_def ev Let_def)
  next
    case False
    with Cons.prems(5) p have "evs = []" "ok" "ctx1 = context" by (auto simp: events_text_def ev)
    then show ?thesis using c2 p Cons.prems(6)
      by (intro exI [of _ "c2\<lparr>conn_context := context\<rparr>"])
        (auto simp: serve_def ev Let_def arrivals_def bindE_def split: sum.split)
  qed
qed simp

text \<open>A request with a declared length as the client writes it, and as the application sees it\<close>

type_synonym http_req = "string \<times> string \<times> (string \<times> string) list \<times> string"

fun request_ok :: "http_req \<Rightarrow> bool" where
  "request_ok (m, u, hs, b) \<longleftrightarrow> head_ok m u ''HTTP/1.1'' hs
     \<and> map_of (rev hs) ''Content-Length'' = Some (to_string (length b))
     \<and> map_of (rev hs) ''Transfer-Encoding'' \<noteq> Some ''chunked''
     \<and> map_of (rev hs) ''Connection'' \<noteq> Some ''close'' \<and> int (length b) \<le> ULONG_MAX"

fun request_text :: "http_req \<Rightarrow> string" where
  "request_text (m, u, hs, b) = request_head m u ''HTTP/1.1'' hs @ b"

fun the_request :: "http_req \<Rightarrow> HttpRequest" where
  "the_request (m, u, hs, b) = ctx_request (parsed_request m u hs b)"

text \<open>The application, called for each request with an empty response that keeps the connection open\<close>

fun app_run :: "'w http_callback \<Rightarrow> HttpRequest list \<Rightarrow> 'w \<Rightarrow> ('w \<times> HttpResponse list) result" where
  "app_run f [] w = Inr (w, [])"
| "app_run f (q # qs) w =
     bindE (f q (w, HttpResponse_ctor False)) (\<lambda>(w1, r).
     bindE (app_run f qs w1) (\<lambda>(w2, rs). Inr (w2, r # rs)))"

lemma the_request_keeps_open:
  assumes "request_ok rq"
  shows "\<not> (GetHeaderString (the_request rq) ''Connection'' = ''close''
           \<or> rq_version (the_request rq) = kHTTP_1_0 \<and> GetHeaderString (the_request rq) ''Connection'' \<noteq> ''Keep-Alive'')"
proof -
  obtain m u hs b where rq: "rq = (m, u, hs, b)" by (cases rq)
  show ?thesis
    using assms by (auto simp: rq parsed_request_fields GetHeaderString_def version_enum split: option.splits)
qed

lemma serve_request:
  assumes "idle c" and "conn_context c = HttpContext_ctor False" and "request_ok rq"
    and "events_ok s evs" and "concat (events_text evs) = request_text rq"
    and "incoming (sock c) = arrivals evs @ rs"
    and "on_request s (the_request rq) (w, HttpResponse_ctor False) = Inr (w1, r)"
    and "write_index (send_buf c) + int (length (message iter r)) + 8 \<le> INT_MAX"
  shows "\<exists>c'. serve s iter evs (w, c) = Inr (w1, if close_connection r then HandleClose c' else c')
     \<and> idle c' \<and> conn_context c' = HttpContext_ctor False \<and> incoming (sock c') = rs
     \<and> outgoing c' = outgoing c @ message iter r
     \<and> write_index (send_buf c') \<le> write_index (send_buf c) + int (length (message iter r))"
proof -
  obtain m u hs b where rq: "rq = (m, u, hs, b)" by (cases rq)
  have ne: "[] \<notin> set (events_text evs)"
    using assms(4) by (fastforce simp: events_ok_def events_text_def pieces_ok_def neq_Nil_conv)
  have evs: "evs \<noteq> []" using assms(5) by (auto simp: rq events_text_def)
  have fd: "feed (events_text evs) (conn_context c) = Inr (parsed_request m u hs b, True, [])"
    using assms(3,5) ne unfolding assms(2) rq by (intro feed_content_length) auto
  obtain c2 where c2: "idle c2" "outgoing c2 = outgoing c" "incoming (sock c2) = rs"
      "write_index (send_buf c2) = write_index (send_buf c)" "conn_context c2 = parsed_request m u hs b"
      "serve s iter evs (w, c) = bindE (onRequest s iter (ctx_request (parsed_request m u hs b)) (w, c2)) (\<lambda>(w1, c4).
           Inr (w1, c4\<lparr>conn_context := Reset (conn_context c4)\<rparr>))"
    using serve_feed [OF assms(1) evs assms(4,6) fd parsed_request_fields(1)] by blast
  have tr: "the_request rq = ctx_request (parsed_request m u hs b)" by (simp add: rq)
  have keep: "(GetHeaderString (the_request rq) ''Connection'' = ''close''
           \<or> rq_version (the_request rq) = kHTTP_1_0 \<and> GetHeaderString (the_request rq) ''Connection'' \<noteq> ''Keep-Alive'') = False"
    using the_request_keeps_open [OF assms(3)] by blast
  have ok: "conn_ok c2" using c2(1) by (simp add: idle_def)
  have on: "on_request s (the_request rq) (w, HttpResponse_ctor (GetHeaderString (the_request rq) ''Connection'' = ''close''
           \<or> rq_version (the_request rq) = kHTTP_1_0 \<and> GetHeaderString (the_request rq) ''Connection'' \<noteq> ''Keep-Alive''))
      = Inr (w1, r)" unfolding keep by (rule assms(7))
  have room: "write_index (send_buf c2) + int (length (message iter r)) + 8 \<le> INT_MAX"
    unfolding c2(4) by (rule assms(8))
  obtain c' where c': "onRequest s iter (the_request rq) (w, c2) = Inr (w1, if close_connection r then HandleClose c' else c')"
     "conn_ok c'" "outgoing c' = outgoing c2 @ message iter r" "same_but_io c2 c'"
     "write_index (send_buf c') \<le> write_index (send_buf c2) + int (length (message iter r))"
    using onRequest_spec [OF ok on room] by blast
  let ?c = "c'\<lparr>conn_context := HttpContext_ctor False\<rparr>"
  have "Reset (parsed_request m u hs b) = HttpContext_ctor False"
    by (simp add: Reset_eq parsed_request_def HttpContext_ctor_def)
  moreover have "HandleClose c'\<lparr>conn_context := x\<rparr> = HandleClose (c'\<lparr>conn_context := x\<rparr>)" for x
    by (simp add: HandleClose_def Let_def)
  ultimately have "serve s iter evs (w, c) = Inr (w1, if close_connection r then HandleClose ?c else ?c)"
    using c2(5,6) c'(1,4) by (simp add: tr same_but_io_def)
  moreover have "idle ?c" using c'(2,4) c2(1) by (simp add: idle_def same_but_io_def)
  ultimately show ?thesis
    using c'(3,4,5) c2(2,3,4) by (intro exI [of _ ?c]) (simp add: same_but_io_def)
qed

lemma serve_append: "serve s iter (a @ b) wc = bindE (serve s iter a wc) (serve s iter b)"
  by (simp add: serve_def foldE_append)

lemma arrivals_append [simp]: "arrivals (a @ b) = arrivals a @ arrivals b"
  by (simp add: arrivals_def)

text \<open>The events that bring a request, whatever way it is cut\<close>

definition brings :: "'w HttpServer \<Rightarrow> http_req \<Rightarrow> (timespec \<times> string list) list \<Rightarrow> bool" where
  "brings s rq evs \<longleftrightarrow> events_ok s evs \<and> concat (events_text evs) = request_text rq"

definition responses_text :: "iteration \<Rightarrow> HttpResponse list \<Rightarrow> string" where
  "responses_text iter rs = concat (map (message iter) rs)"

lemma serve_session:
  assumes "idle c" and "conn_context c = HttpContext_ctor False" and "\<forall>rq \<in> set rqs. request_ok rq"
    and "list_all2 (brings s) rqs evss" and "incoming (sock c) = arrivals (concat evss) @ ins"
    and "app_run (on_request s) (map the_request rqs) w = Inr (w1, rs)" and "\<forall>r \<in> set rs. \<not> close_connection r"
    and "write_index (send_buf c) + int (length (responses_text iter rs)) + 8 \<le> INT_MAX"
  shows "\<exists>c'. serve s iter (concat evss) (w, c) = Inr (w1, c') \<and> idle c' \<and> conn_context c' = HttpContext_ctor False
     \<and> incoming (sock c') = ins \<and> outgoing c' = outgoing c @ responses_text iter rs"
  using assms
proof (induction rqs arbitrary: evss c w rs)
  case Nil
  then show ?case by (auto simp: serve_def arrivals_def responses_text_def)
next
  case (Cons rq rqs)
  obtain evs evss' where evss: "evss = evs # evss'" and b: "brings s rq evs" "list_all2 (brings s) rqs evss'"
    using Cons.prems(4) by (auto simp: list_all2_Cons1)
  obtain w0 r rs' where r: "on_request s (the_request rq) (w, HttpResponse_ctor False) = Inr (w0, r)"
      "app_run (on_request s) (map the_request rqs) w0 = Inr (w1, rs')" "rs = r # rs'"
    using Cons.prems(6) by (auto simp: result_simps)
  have len: "write_index (send_buf c) + int (length (message iter r)) + int (length (responses_text iter rs')) + 8 \<le> INT_MAX"
    using Cons.prems(8) by (simp add: responses_text_def r(3))
  have ins: "incoming (sock c) = arrivals evs @ (arrivals (concat evss') @ ins)"
    using Cons.prems(5) by (simp add: evss)
  have ok: "request_ok rq" "events_ok s evs" "concat (events_text evs) = request_text rq"
    using Cons.prems(3) b(1) by (simp_all add: brings_def)
  have room: "write_index (send_buf c) + int (length (message iter r)) + 8 \<le> INT_MAX" using len by simp
  obtain c' where c': "serve s iter evs (w, c) = Inr (w0, c')" "idle c'" "conn_context c' = HttpContext_ctor False"
      "incoming (sock c') = arrivals (concat evss') @ ins" "outgoing c' = outgoing c @ message iter r"
      "write_index (send_buf c') \<le> write_index (send_buf c) + int (length (message iter r))"
    using serve_request [OF Cons.prems(1,2) ok ins r(1) room] Cons.prems(7) by (auto simp: r(3))
  have nc: "\<forall>r \<in> set rs'. \<not> close_connection r" "\<forall>rq \<in> set rqs. request_ok rq"
    using Cons.prems(3,7) by (simp_all add: r(3))
  have room': "write_index (send_buf c') + int (length (responses_text iter rs')) + 8 \<le> INT_MAX"
    using len c'(6) by simp
  from Cons.IH [OF c'(2,3) nc(2) b(2) c'(4) r(2) nc(1) room'] c'(1,5) show ?case
    by (auto simp: evss serve_append responses_text_def r(3))
qed

lemma established_idle:
  assumes "ep fd = None" and "socket_ok k"
  shows "idle (established st t False ep k fd cid)" "conn_context (established st t False ep k fd cid) = HttpContext_ctor False"
    "write_index (send_buf (established st t False ep k fd cid)) = 8" "sock (established st t False ep k fd cid) = k"
    "connfd (established st t False ep k fd cid) = fd"
  using established_ok [of ep fd, OF assms]
  by (auto simp: idle_def established_eq set_close_callback_def Buffer_ctor_def kPrePendIndex_def)

section \<open>Properties of the server\<close>


lemma list_all2_brings:
  "list_all2 (\<lambda>rq evs. concat (events_text evs) = request_text rq) rqs evss \<Longrightarrow> list_all (events_ok s) evss
     \<Longrightarrow> list_all2 (brings s) rqs evss"
  by (induction rule: list_all2_induct) (simp_all add: brings_def)

text \<open>A server whose application remembers the URLs and answers with the body of the request\<close>

definition echo :: "string list http_callback" where
  "echo q = (\<lambda>(urls, r). Inr (urls @ [rq_url q], SetResponseBody (rq_body q) (SetStatusCode k200OK r)))"

text \<open>Two requests, the first of them in four pieces that arrive in three events\<close>

definition example_events :: "(timespec \<times> string list) list list" where
  "example_events = [[(\<lparr>tv_sec = 0, tv_nsec = 0\<rparr>, [''POST /a HTTP/1.1'' @ [CHR 0x0D]]),
                  (\<lparr>tv_sec = 1, tv_nsec = 0\<rparr>, [[CHR 0x0A] @ ''Content-Length: 2'', crlf @ crlf @ ''h'']),
                  (\<lparr>tv_sec = 1, tv_nsec = 0\<rparr>, [''i''])],
                 [(\<lparr>tv_sec = 2, tv_nsec = 0\<rparr>, [''GET /b HTTP/1.1'' @ crlf @ ''Content-Length: 0'' @ crlf @ crlf])]]"


section \<open>Closing\<close>

lemma conn_ok_ready: "conn_ok (c\<lparr>channel := SetReadyEvents ev (channel c)\<rparr>) = conn_ok c"
  by (simp add: conn_ok_def conn_inv_def writes_ok_def reads_ok_def closed_once_def SetReadyEvents_def
      in_sync_def watches_def)

text \<open>Reading on a connection that is closed, or finds the end of the stream: the application is not
  called.\<close>

lemma closed_event:
  assumes "conn_ok c" and "conn_room 0 c"
    and "conn_state c = Disconected \<or> snd (arrived (incoming (sock c)))"
  shows "\<exists>c'. conn_ready s iter clock EPOLLIN (w, c) = Inr (w, c') \<and> conn_ok c' \<and> conn_room 0 c'
     \<and> conn_state c' = Disconected \<and> outgoing c' = outgoing c"
proof -
  let ?c = "c\<lparr>channel := SetReadyEvents EPOLLIN (channel c)\<rparr>"
  have ok: "conn_ok ?c" "conn_room 0 ?c" using assms(1,2) by (simp_all add: conn_ok_ready conn_room_def)
  obtain c' where c': "ReadNonBlocking ?c = Inr c'" "conn_ok c'" "conn_room 0 c'" "outgoing c' = outgoing c"
    using conn_exec_step [OF ok(1), of Op_Read 0] ok(2) by (auto simp: outgoing_def)
  obtain b k where "ReadNonBlocking ?c = Inr (let c1 = ?c\<lparr>read_buf := b, sock := k\<rparr>
       in if snd (arrived (incoming (sock ?c))) then HandleClose c1 else c1)"
    using ReadNonBlocking_spec [OF ok] by blast
  then have st: "conn_state c' = Disconected" using c'(1) assms(3) by (auto simp: Let_def)
  then show ?thesis using c' by (auto simp: conn_ready_in HandleMessage_def onMessage_def)
qed

lemma closed_serve:
  assumes "conn_ok c" and "conn_room 0 c" and "conn_state c = Disconected"
  shows "\<exists>c'. serve s iter evs (w, c) = Inr (w, c') \<and> conn_ok c' \<and> conn_state c' = Disconected
     \<and> outgoing c' = outgoing c"
  using assms
proof (induction evs arbitrary: c)
  case (Cons ev evs)
  obtain clock ps where ev: "ev = (clock, ps)" by (cases ev)
  obtain c1 where "conn_ready s iter clock EPOLLIN (w, c) = Inr (w, c1)" "conn_ok c1" "conn_room 0 c1"
      "conn_state c1 = Disconected" "outgoing c1 = outgoing c"
    using closed_event [OF Cons.prems(1,2), of s iter clock w] Cons.prems(3) by blast
  with Cons.IH [of c1] show ?case by (auto simp: serve_def ev)
qed (simp add: serve_def)

lemma bad_request_text: "NUL \<notin> set bad_request" "length bad_request = 28"
  by code_simp+

text \<open>C33: A malformed request is answered with status 400 and the connection is closed: the
  application is not called and its world is unchanged, the close handler is called once, and whatever
  the client sends afterwards is ignored.\<close>

theorem malformed_answered_400:
  assumes "idle c" and "pieces_ok ps" and "incoming (sock c) = arrival ps @ rs" and "clock_ok s clock"
    and "ParseRequest (concat ps) (conn_context c) = Inr (context, False)"
    and "write_index (send_buf c) + 36 \<le> INT_MAX" and "int (length (data_of rs)) + 16 \<le> INT_MAX"
  shows "\<exists>c'. serve s iter ((clock, ps) # evs) (w, c) = Inr (w, c') \<and> outgoing c' = outgoing c @ bad_request
     \<and> conn_state c' = Disconected \<and> close_calls c' = 1"
proof -
  obtain c2 where c2: "idle c2" "outgoing c2 = outgoing c" "incoming (sock c2) = rs"
      "write_index (send_buf c2) = write_index (send_buf c)"
      "conn_ready s iter clock EPOLLIN (w, c)
        = bindE (Send_cstr bad_request (c2\<lparr>conn_context := context\<rparr>)) (\<lambda>c4. Inr (w, HandleClose c4))"
    using idle_event [OF assms(1-4), of iter w] assms(5) by (auto simp: Let_def)
  let ?c = "c2\<lparr>conn_context := context\<rparr>"
  have ok: "conn_ok ?c" using c2(1) by (simp add: idle_def)
  have room: "conn_room (length (op_msg (Op_Send bad_request)) + 0) ?c"
    using assms(6,7) c2 by (simp add: conn_room_def bad_request_text idle_def)
  obtain c3 where c3: "Send_string bad_request ?c = Inr c3" "conn_ok c3" "conn_room 0 c3"
      "outgoing c3 = outgoing c @ bad_request"
    using conn_exec_step [OF ok room] c2(2) by auto
  have "conn_ready s iter clock EPOLLIN (w, c) = Inr (w, HandleClose c3)"
    using c2(5) c3(1) Send_cstr_eq [OF bad_request_text(1)] by simp
  moreover have "conn_room 0 (HandleClose c3)" using c3(3) by (simp add: conn_room_def)
  ultimately show ?thesis
    using closed_serve [OF HandleClose_ok(1) [OF c3(2)], of s iter evs w] HandleClose_ok(2) [OF c3(2)] c3(4)
    by (auto simp: serve_def conn_ok_def closed_once_def)
qed

theorem malformed_answered_400_witness:
  "\<exists>c'. serve (set_http_callback echo (HttpServer_ctor 0)) (\<lambda>m. []) [(\<lparr>tv_sec = 0, tv_nsec = 0\<rparr>, [''hello'' @ crlf @ crlf])]
        ([], established Invalid False False Map.empty
           \<lparr>incoming = arrival [''hello'' @ crlf @ crlf] @ [], accepts = [], sent = []\<rparr> 7 1) = Inr ([], c')
     \<and> sent (sock c') @ contents (send_buf c') = bad_request \<and> conn_state c' = Disconected"
proof -
  let ?k = "\<lparr>incoming = arrival [''hello'' @ crlf @ crlf] @ [], accepts = [], sent = []\<rparr>"
  have k: "socket_ok ?k" by (simp add: socket_ok_def arrival_def crlf_def)
  note e = established_idle [of Map.empty 7, OF _ k, of Invalid False 1]
  have p: "pieces_ok [''hello'' @ crlf @ crlf]" by code_simp
  have "case ParseRequest (concat [''hello'' @ crlf @ crlf]) (HttpContext_ctor False) of Inr (x, ok) \<Rightarrow> \<not> ok | Inl x \<Rightarrow> False"
    by code_simp
  then obtain x where x: "ParseRequest (concat [''hello'' @ crlf @ crlf]) (HttpContext_ctor False) = Inr (x, False)"
    by (auto split: sum.splits)
  have "clock_ok (set_http_callback echo (HttpServer_ctor 0)) \<lparr>tv_sec = 0, tv_nsec = 0\<rparr>"
    by (simp add: clock_ok_def set_http_callback_def HttpServer_ctor_def)
  from malformed_answered_400 [OF e(1) p _ this, of "[]" x "\<lambda>m. []" "[]" "[]"] e(2-4) x
    established_ok(2) [of Map.empty 7, OF _ k, of Invalid False False 1]
  show ?thesis by (auto simp: outgoing_def)
qed

text \<open>C36: A request that arrives together with the end of the client's stream is dropped: a client
  that sends a whole request and then shuts down its side for writing, as it may, gets no answer. The
  bytes are read, the end of the stream closes the connection, and the message handler ignores a
  connection that is not connected any more.\<close>

theorem request_before_eof_dropped:
  assumes "idle c" and "conn_room 0 c" and "arrived (incoming (sock c)) = (request, True)"
  shows "\<exists>c'. serve s iter ((clock, ps) # evs) (w, c) = Inr (w, c') \<and> outgoing c' = outgoing c
     \<and> conn_state c' = Disconected \<and> close_calls c' = 1"
proof -
  have ok: "conn_ok c" using assms(1) by (simp add: idle_def)
  obtain c1 where c1: "conn_ready s iter clock EPOLLIN (w, c) = Inr (w, c1)" "conn_ok c1" "conn_room 0 c1"
      "conn_state c1 = Disconected" "outgoing c1 = outgoing c"
    using closed_event [OF ok assms(2), of s iter clock w] assms(3) by auto
  with closed_serve [OF c1(2,3,4), of s iter evs w] show ?thesis
    by (auto simp: serve_def conn_ok_def closed_once_def)
qed

theorem request_before_eof_dropped_witness:
  "\<exists>c'. serve (set_http_callback echo (HttpServer_ctor 0)) (\<lambda>m. []) [(\<lparr>tv_sec = 0, tv_nsec = 0\<rparr>, [])]
        ([], established Invalid False False Map.empty
           \<lparr>incoming = [R_data (''GET / HTTP/1.0'' @ crlf @ crlf), R_data []], accepts = [], sent = []\<rparr> 7 1) = Inr ([], c')
     \<and> sent (sock c') @ contents (send_buf c') = [] \<and> conn_state c' = Disconected"
proof -
  let ?k = "\<lparr>incoming = [R_data (''GET / HTTP/1.0'' @ crlf @ crlf), R_data []], accepts = [], sent = []\<rparr>"
  have k: "socket_ok ?k" by (simp add: socket_ok_def crlf_def)
  note e = established_idle [of Map.empty 7, OF _ k, of Invalid False 1]
  have "conn_room 0 (established Invalid False False Map.empty ?k 7 1)"
    using established_ok(4) [of Map.empty 7, OF _ k, of 0 Invalid False False 1] by (simp add: crlf_def)
  from request_before_eof_dropped [OF e(1) this, of "''GET / HTTP/1.0'' @ crlf @ crlf"] e(4)
    established_ok(2) [of Map.empty 7, OF _ k, of Invalid False False 1]
  show ?thesis unfolding outgoing_def by fastforce
qed

section \<open>Pipelining\<close>

lemma parse_request_and_more:
  assumes "request_ok rq"
  shows "\<exists>x. ParseRequest (request_text rq @ t) (HttpContext_ctor False) = Inr (x, True) \<and> IsComplete x
     \<and> ctx_request x = the_request rq \<and> ctx_buffer x = t"
proof -
  obtain m u hs b where rq: "rq = (m, u, hs, b)" by (cases rq)
  let ?p = "parsed_request m u hs b"
  have p: "ParseRequest (request_text rq) (HttpContext_ctor False) = Inr (?p, True)"
    using parse_content_length_whole [of m u hs b] assms by (simp add: rq parsed_request_def)
  have u: "\<not> until_close (ctx_request ?p)"
    using the_request_keeps_open [OF assms] by (auto simp: rq until_close_def GetHeaderString_def HasHeader_def
        parsed_request_fields version_enum split: option.splits)
  have "request_fits (HttpContext_ctor False) (request_text rq)"
    using assms request_fits_head [of m u "''HTTP/1.1''" hs b] by (simp add: rq)
  then have "ParseRequest (request_text rq @ t) (HttpContext_ctor False) = Inr (with_more t ?p, True)"
    using ParseRequest_later [of "HttpContext_ctor False" "request_text rq" t] p u by (simp add: decided_def parsed_request_def)
  then show ?thesis by (intro exI [of _ "with_more t ?p"]) (simp add: rq parsed_request_def IsComplete_def)
qed

text \<open>C35: Of requests that arrive in one event only the first is answered: what follows it stays in the
  parser's buffer, and since the socket has been emptied, no event brings the connection to look at it
  before the client sends something more. (The client that waits for the second answer waits for ever.)\<close>

theorem pipelined_request_waits:
  assumes "idle c" and "conn_context c = HttpContext_ctor False" and "request_ok rq"
    and "concat ps = request_text rq @ t" and "pieces_ok ps" and "incoming (sock c) = arrival ps @ ins"
    and "clock_ok s clock"
    and "on_request s (the_request rq) (w, HttpResponse_ctor False) = Inr (w1, r)" and "\<not> close_connection r"
    and "write_index (send_buf c) + int (length (message iter r)) + 8 \<le> INT_MAX"
  shows "\<exists>c'. serve s iter [(clock, ps)] (w, c) = Inr (w1, c') \<and> outgoing c' = outgoing c @ message iter r
     \<and> conn_state c' = Connected \<and> contents (read_buf c') = [] \<and> incoming (sock c') = ins
     \<and> conn_context c' = HttpContext_ctor False\<lparr>ctx_buffer := t\<rparr>"
proof -
  obtain x where x: "ParseRequest (concat ps) (conn_context c) = Inr (x, True)" "IsComplete x"
      "ctx_request x = the_request rq" "ctx_buffer x = t"
    using parse_request_and_more [OF assms(3), of t] assms(2,4) by auto
  obtain c2 where c2: "idle c2" "outgoing c2 = outgoing c" "incoming (sock c2) = ins"
      "write_index (send_buf c2) = write_index (send_buf c)"
      "conn_ready s iter clock EPOLLIN (w, c) = bindE (onRequest s iter (the_request rq) (w, c2\<lparr>conn_context := x\<rparr>))
         (\<lambda>(w1, c4). Inr (w1, c4\<lparr>conn_context := Reset (conn_context c4)\<rparr>))"
    using idle_event [OF assms(1,5,6,7), of iter w] x by (auto simp: Let_def)
  let ?c = "c2\<lparr>conn_context := x\<rparr>"
  have ok: "conn_ok ?c" using c2(1) by (simp add: idle_def)
  have keep: "(GetHeaderString (the_request rq) ''Connection'' = ''close''
           \<or> rq_version (the_request rq) = kHTTP_1_0 \<and> GetHeaderString (the_request rq) ''Connection'' \<noteq> ''Keep-Alive'') = False"
    using the_request_keeps_open [OF assms(3)] by blast
  have on: "on_request s (the_request rq) (w, HttpResponse_ctor (GetHeaderString (the_request rq) ''Connection'' = ''close''
           \<or> rq_version (the_request rq) = kHTTP_1_0 \<and> GetHeaderString (the_request rq) ''Connection'' \<noteq> ''Keep-Alive''))
      = Inr (w1, r)" unfolding keep by (rule assms(8))
  have room: "write_index (send_buf ?c) + int (length (message iter r)) + 8 \<le> INT_MAX"
    using c2(4) assms(10) by simp
  obtain c' where c': "onRequest s iter (the_request rq) (w, ?c) = Inr (w1, c')"
     "outgoing c' = outgoing ?c @ message iter r" "same_but_io ?c c'"
    using onRequest_spec [OF ok on room] assms(9) by auto
  have "Reset x = HttpContext_ctor False\<lparr>ctx_buffer := t\<rparr>" using x(4) by (simp add: Reset_eq)
  then show ?thesis
    using c2 c' drained_contents [of "read_buf c2"]
    by (intro exI [of _ "c'\<lparr>conn_context := HttpContext_ctor False\<lparr>ctx_buffer := t\<rparr>\<rparr>"])
      (simp add: serve_def same_but_io_def idle_def)
qed

theorem pipelined_request_waits_witness:
  "\<exists>c'. serve (set_http_callback echo (HttpServer_ctor 0)) (\<lambda>m. [])
        [(\<lparr>tv_sec = 0, tv_nsec = 0\<rparr>, [''GET /b HTTP/1.1'' @ crlf @ ''Content-Length: 0'' @ crlf @ crlf @ ''GET /c HTTP/1.1'' @ crlf @ crlf])]
        ([], established Invalid False False Map.empty
           \<lparr>incoming = arrival [''GET /b HTTP/1.1'' @ crlf @ ''Content-Length: 0'' @ crlf @ crlf @ ''GET /c HTTP/1.1'' @ crlf @ crlf] @ [],
            accepts = [], sent = []\<rparr> 7 1) = Inr ([''/b''], c')
     \<and> contents (read_buf c') = [] \<and> ctx_buffer (conn_context c') = ''GET /c HTTP/1.1'' @ crlf @ crlf"
proof -
  let ?ps = "[''GET /b HTTP/1.1'' @ crlf @ ''Content-Length: 0'' @ crlf @ crlf @ ''GET /c HTTP/1.1'' @ crlf @ crlf]"
  let ?s = "set_http_callback echo (HttpServer_ctor 0)"
  let ?rq = "(''GET'', ''/b'', [(''Content-Length'', ''0'')], [])"
  let ?k = "\<lparr>incoming = arrival ?ps @ [], accepts = [], sent = []\<rparr>"
  have k: "socket_ok ?k" by (simp add: socket_ok_def arrival_def crlf_def)
  note e = established_idle [of Map.empty 7, OF _ k, of Invalid False 1]
  have p: "pieces_ok ?ps" "concat ?ps = request_text ?rq @ ''GET /c HTTP/1.1'' @ crlf @ crlf" "request_ok ?rq"
    by code_simp+
  have cl: "clock_ok ?s \<lparr>tv_sec = 0, tv_nsec = 0\<rparr>"
    by (simp add: clock_ok_def set_http_callback_def HttpServer_ctor_def)
  let ?r = "SetResponseBody [] (SetStatusCode k200OK (HttpResponse_ctor False))"
  have on: "on_request ?s (the_request ?rq) ([], HttpResponse_ctor False) = Inr ([''/b''], ?r)" "\<not> close_connection ?r"
    by (simp_all add: set_http_callback_def echo_def parsed_request_fields response_defs HttpResponse_ctor_def)
  have room: "write_index (send_buf (established Invalid False False Map.empty ?k 7 1)) + int (length (message (\<lambda>m. []) ?r)) + 8 \<le> INT_MAX"
  proof -
    have "int (length (message (\<lambda>m. []) ?r)) + 16 \<le> INT_MAX" by code_simp
    then show ?thesis using e(3) by simp
  qed
  have inc: "incoming (sock (established Invalid False False Map.empty ?k 7 1)) = arrival ?ps @ []"
    using e(4) by simp
  from pipelined_request_waits [OF e(1,2) p(3,2,1) inc cl on room] show ?thesis by auto
qed

section \<open>Closing with bytes left\<close>

lemma Send_amount:
  assumes "conn_inv c" and "writes_ok c" and "write_index (send_buf c) + int (length msg) + 8 \<le> INT_MAX"
  shows "\<exists>c'. Send_string msg c = Inr c'
     \<and> contents (send_buf c') = drop (write_amount (fst (next_write (sock c)))) (contents (send_buf c) @ msg)"
proof -
  have b: "binv (send_buf c)" using assms(1) by (simp add: conn_inv_def)
  have len: "to_int32 (int (length msg)) = int (length msg)"
    using assms(3) b by (simp add: binv_def)
  obtain a where a: "Append_n msg (int (length msg)) (send_buf c) = Inr a" "binv a"
      "contents a = contents (send_buf c) @ msg"
    using Append_n_spec [OF b assms(3)] by (auto simp: appended_def)
  have "writes_ok (c\<lparr>send_buf := a\<rparr>)" using assms(2) by (simp add: writes_ok_def)
  then obtain b' k where "WriteNonBlocking (c\<lparr>send_buf := a\<rparr>) = Inr (c\<lparr>send_buf := b', sock := k\<rparr>)"
      "contents b' = drop (write_amount (fst (next_write (sock c)))) (contents a)"
    using WriteNonBlocking_spec [of "c\<lparr>send_buf := a\<rparr>"] a(2) by auto
  then show ?thesis using a len by (simp add: Send_string_def Send_n_def)
qed

lemma ConnectionDestructor_unwatched:
  "ch_fd (channel c) = connfd c \<Longrightarrow> loop_epoll (ConnectionDestructor c) (connfd c) = None"
  by (simp add: ConnectionDestructor_def on_channel_def DeleteChannel_def epoll_del_def)

text \<open>C34: A response that closes the connection may be cut off: when the socket takes only part of it in
  the first write, the rest waits in the buffer, but the connection is closed at once; the server's
  reaction takes the socket from the interest list and destroys the connection, so the rest is never
  sent and the client gets a truncated response. (Every HTTP/1.0 request without Keep-Alive and every
  request with \<open>Connection: close\<close> is answered so.)\<close>

theorem closing_response_cut_off:
  assumes "idle c" and "contents (send_buf c) = []" and "pieces_ok ps" and "incoming (sock c) = arrival ps @ rs" and "clock_ok s clock"
    and "ParseRequest (concat ps) (conn_context c) = Inr (context, True)" and "IsComplete context"
    and "on_request s (ctx_request context) (w, HttpResponse_ctor (GetHeaderString (ctx_request context) ''Connection'' = ''close''
           \<or> rq_version (ctx_request context) = kHTTP_1_0 \<and> GetHeaderString (ctx_request context) ''Connection'' \<noteq> ''Keep-Alive''))
         = Inr (w1, r)"
    and "close_connection r" and "accepts (sock c) = W_sent n # ws" and "n < length (message iter r)"
    and "write_index (send_buf c) + int (length (message iter r)) + 8 \<le> INT_MAX"
  shows "\<exists>c'. serve s iter [(clock, ps)] (w, c) = Inr (w1, c')
     \<and> sent (sock c') = sent (sock c) @ take n (message iter r)
     \<and> contents (send_buf c') = drop n (message iter r) \<and> contents (send_buf c') \<noteq> []
     \<and> conn_state c' = Disconected \<and> close_calls c' = 1 \<and> loop_epoll (ConnectionDestructor c') (connfd c') = None"
proof -
  obtain c2 where c2: "idle c2" "outgoing c2 = outgoing c" "send_buf c2 = send_buf c" "accepts (sock c2) = accepts (sock c)"
      "conn_ready s iter clock EPOLLIN (w, c) = bindE (onRequest s iter (ctx_request context) (w, c2\<lparr>conn_context := context\<rparr>))
         (\<lambda>(w1, c4). Inr (w1, c4\<lparr>conn_context := Reset (conn_context c4)\<rparr>))"
    using idle_event [OF assms(1,3,4,5), of iter w] assms(6,7) by (auto simp: Let_def)
  let ?c = "c2\<lparr>conn_context := context\<rparr>" and ?m = "message iter r"
  have ok: "conn_ok ?c" using c2(1) by (simp add: idle_def)
  have room: "write_index (send_buf ?c) + int (length ?m) + 8 \<le> INT_MAX" using c2(3) assms(12) by simp
  obtain c' where c': "onRequest s iter (ctx_request context) (w, ?c) = Inr (w1, HandleClose c')"
     "conn_ok c'" "outgoing c' = outgoing ?c @ ?m" "same_but_io ?c c'" "Send_string ?m ?c = Inr c'"
  proof -
    have ok': "conn_inv ?c" "writes_ok ?c" using ok by (simp_all add: conn_ok_def)
    obtain c' where c': "Send_string ?m ?c = Inr c'" "conn_inv c'" "writes_ok c'" "outgoing c' = outgoing ?c @ ?m" "same_but_io ?c c'"
      using Send_spec [OF ok' room] by blast
    moreover have "conn_ok c'" using conn_ok_same [OF ok c'(5,2,3) close_callback_io(3) [OF c'(1)]] .
    moreover have "onRequest s iter (ctx_request context) (w, ?c) = Inr (w1, HandleClose c')"
      using assms(8,9) c'(1) by (simp add: onRequest_def Let_def)
    ultimately show thesis by (intro that) 
  qed
  have "fst (next_write (sock ?c)) = W_sent n" using c2(4) assms(10) by (simp add: next_write_def)
  then have rest: "contents (send_buf c') = drop n ?m"
    using Send_amount [of ?c ?m] ok room c'(5) c2(3) assms(2) by (auto simp: conn_ok_def)
  have out: "sent (sock c') @ drop n ?m = sent (sock c) @ ?m"
    using c'(3) c2(2,3) rest assms(2) by (simp add: outgoing_def)
  have "sent (sock c') = sent (sock c) @ take n ?m"
  proof -
    have "sent (sock c') @ drop n ?m = (sent (sock c) @ take n ?m) @ drop n ?m" using out by simp
    then show ?thesis by (simp only: append_same_eq)
  qed
  moreover have "conn_ok (HandleClose c')" "conn_state (HandleClose c') = Disconected" using HandleClose_ok [OF c'(2)] by simp_all
  moreover from this have "ch_fd (channel (HandleClose c')) = connfd (HandleClose c')" "close_calls (HandleClose c') = 1"
    by (simp_all add: conn_ok_def conn_inv_def closed_once_def)
  moreover have "sock (HandleClose c') = sock c'" "send_buf (HandleClose c') = send_buf c'"
    by (simp_all add: HandleClose_def Let_def)
  moreover have "loop_epoll (ConnectionDestructor (HandleClose c'\<lparr>conn_context := x\<rparr>)) (connfd (HandleClose c')) = None" for x
    using ConnectionDestructor_unwatched [of "HandleClose c'\<lparr>conn_context := x\<rparr>"] calculation(4) by simp
  ultimately show ?thesis
    using c2(5) c'(1) rest assms(11) by (simp add: serve_def)
qed

theorem closing_response_cut_off_witness:
  "\<exists>c'. serve (HttpServer_ctor 0) (\<lambda>m. []) [(\<lparr>tv_sec = 0, tv_nsec = 0\<rparr>, [''GET /a HTTP/1.0'' @ crlf @ crlf])]
        ((), established Invalid False False Map.empty
           \<lparr>incoming = arrival [''GET /a HTTP/1.0'' @ crlf @ crlf] @ [], accepts = [W_sent 8], sent = []\<rparr> 7 1) = Inr ((), c')
     \<and> sent (sock c') = ''HTTP/1.1'' \<and> contents (send_buf c') \<noteq> [] \<and> conn_state c' = Disconected"
proof -
  let ?k = "\<lparr>incoming = arrival [''GET /a HTTP/1.0'' @ crlf @ crlf] @ [], accepts = [W_sent 8], sent = []\<rparr>"
  let ?r = "SetCloseConnection True (SetStatusMessage ''Not Found'' (SetStatusCode k404NotFound (HttpResponse_ctor True)))"
  let ?s = "HttpServer_ctor 0 :: unit HttpServer"
  have k: "socket_ok ?k" by (simp add: socket_ok_def arrival_def crlf_def)
  note e = established_idle [of Map.empty 7, OF _ k, of Invalid False 1]
  have ct: "contents (send_buf (established Invalid False False Map.empty ?k 7 1)) = []"
    using established_ok(2) [of Map.empty 7, OF _ k, of Invalid False False 1] e(4) by (simp add: outgoing_def)
  have p: "pieces_ok [''GET /a HTTP/1.0'' @ crlf @ crlf]" by code_simp
  have "case ParseRequest (concat [''GET /a HTTP/1.0'' @ crlf @ crlf]) (HttpContext_ctor False) of
      Inr (x, ok) \<Rightarrow> ok \<and> IsComplete x \<and> rq_version (ctx_request x) = kHTTP_1_0
        \<and> GetHeaderString (ctx_request x) ''Connection'' = [] | Inl x \<Rightarrow> False"
    by code_simp
  then obtain x where x: "ParseRequest (concat [''GET /a HTTP/1.0'' @ crlf @ crlf]) (HttpContext_ctor False) = Inr (x, True)"
      "IsComplete x" "rq_version (ctx_request x) = kHTTP_1_0" "GetHeaderString (ctx_request x) ''Connection'' = []"
    by (auto split: sum.splits)
  have clock: "clock_ok ?s \<lparr>tv_sec = 0, tv_nsec = 0\<rparr>"
    by (simp add: clock_ok_def HttpServer_ctor_def)
  have on: "on_request ?s (ctx_request x) ((), HttpResponse_ctor (GetHeaderString (ctx_request x) ''Connection'' = ''close''
           \<or> rq_version (ctx_request x) = kHTTP_1_0 \<and> GetHeaderString (ctx_request x) ''Connection'' \<noteq> ''Keep-Alive''))
         = Inr ((), ?r)" using x(3,4) by (simp add: HttpServer_ctor_def DefaultHttpCallback_def)
  have r: "close_connection ?r" "8 < length (message (\<lambda>m. []) ?r)" "int (length (message (\<lambda>m. []) ?r)) + 16 \<le> INT_MAX"
    "take 8 (message (\<lambda>m. []) ?r) = ''HTTP/1.1''" by code_simp+
  have room: "write_index (send_buf (established Invalid False False Map.empty ?k 7 1)) + int (length (message (\<lambda>m. []) ?r)) + 8 \<le> INT_MAX"
    using r(3) e(3) by simp
  have io: "incoming (sock (established Invalid False False Map.empty ?k 7 1)) = arrival [''GET /a HTTP/1.0'' @ crlf @ crlf] @ []"
    "accepts (sock (established Invalid False False Map.empty ?k 7 1)) = W_sent 8 # []" using e(4) by simp_all
  have x': "ParseRequest (concat [''GET /a HTTP/1.0'' @ crlf @ crlf]) (conn_context (established Invalid False False Map.empty ?k 7 1))
      = Inr (x, True)" using x(1) e(2) by simp
  from closing_response_cut_off [OF e(1) ct p io(1) clock x' x(2) on r(1) io(2) r(2) room] e(4) r(4)
  show ?thesis by auto
qed

end
