(* ===== verification/TimerQueue.thy ===== *)
theory TimerQueue
  imports TimerStamp "HOL-Library.Product_Lexorder"
begin

text \<open>
  The timers: \<open>utils/Timer.h\<close> (class \<open>Timer\<close>), \<open>utils/TimerQueue.h\<close> and \<open>utils/TimerQueue.cpp\<close> (class
  \<open>TimerQueue\<close>). Timers are objects on the heap, the set of entries is ordered by time and then by
  address, and the timer descriptor keeps what it was last armed with. The theory shows that the due
  timers run, in order, that none is lost, leaked or used after it is freed, and that the descriptor
  is always armed for the earliest one.
\<close>

section \<open>Timers\<close>

text \<open>A callback is named by a value of a type \<open>'cb\<close>, the function object that \<open>std::bind\<close> makes; what a
  call of it does is a parameter of the operations that make calls.\<close>

record 'cb Timer =
  expireTime :: TimerStamp
  callback :: 'cb
  interval :: real
  repeat :: bool

definition Timer_ctor :: "TimerStamp \<Rightarrow> 'cb \<Rightarrow> real \<Rightarrow> 'cb Timer" where
  "Timer_ctor ts cb i = \<lparr>expireTime = ts, callback = cb, interval = i, repeat = (i > 0)\<rparr>"

definition Restart :: "rounding \<Rightarrow> TimerStamp \<Rightarrow> 'cb Timer \<Rightarrow> 'cb Timer result" where
  "Restart rnd ts t =
     (if repeat t then bindE (AddSec rnd ts (interval t)) (\<lambda>e. Inr (t\<lparr>expireTime := e\<rparr>)) else Inr t)"

section \<open>The queue\<close>

text \<open>Timers live on the heap, at addresses. The \<open>std::set\<close> of entries is the list of them in the order of
  the set. The descriptor is armed with a relative time; the reading of the clock it was computed with
  is kept beside it. The clock is what its successive readings give, with the number of readings so far.\<close>

type_synonym entry = "TimerStamp \<times> nat"

record 'cb TimerQueue =
  timers :: "entry list"
  active_timers :: "entry list"
  timer_heap :: "nat \<rightharpoonup> 'cb Timer"
  timerfd :: "(timespec \<times> TimerStamp) option"
  clock_reads :: nat

record tq_env =
  readings :: "nat \<Rightarrow> timespec"
  rounds :: rounding
  new_address :: "nat set \<Rightarrow> nat"

definition TimerQueue_ctor :: "nat \<Rightarrow> 'cb TimerQueue" where
  "TimerQueue_ctor n =
     \<lparr>timers = [], active_timers = [], timer_heap = Map.empty, timerfd = None, clock_reads = n\<rparr>"

definition read_clock :: "tq_env \<Rightarrow> 'cb TimerQueue \<Rightarrow> (TimerStamp \<times> 'cb TimerQueue) result" where
  "read_clock e q =
     bindE (Now (readings e (clock_reads q))) (\<lambda>t. Inr (t, q\<lparr>clock_reads := clock_reads q + 1\<rparr>))"

text \<open>Use of a pointer to a timer: it must point to one.\<close>

definition timer_at :: "nat \<Rightarrow> 'cb TimerQueue \<Rightarrow> 'cb Timer result" where
  "timer_at p q = (case timer_heap q p of Some t \<Rightarrow> Inr t | None \<Rightarrow> Inl Undefined_behaviour)"

definition delete_timer :: "nat \<Rightarrow> 'cb TimerQueue \<Rightarrow> 'cb TimerQueue" where
  "delete_timer p q = q\<lparr>timer_heap := (timer_heap q)(p := None)\<rparr>"

definition ResetTimerFd :: "tq_env \<Rightarrow> nat \<Rightarrow> 'cb TimerQueue \<Rightarrow> 'cb TimerQueue result" where
  "ResetTimerFd e timer q =
     bindE (timer_at timer q) (\<lambda>t.
     bindE (read_clock e q) (\<lambda>(now, q1).
     bindE (int64_expr (micro_seconds (expireTime t) - micro_seconds now)) (\<lambda>us.
     let us1 = (if us < 100 then 100 else us)
     in Inr (q1\<lparr>timerfd := Some (\<lparr>tv_sec = us1 sdiv 1000000, tv_nsec = us1 smod 1000000 * 1000\<rparr>, now)\<rparr>))))"

definition Insert :: "nat \<Rightarrow> 'cb TimerQueue \<Rightarrow> (bool \<times> 'cb TimerQueue) result" where
  "Insert timer q =
     bindE (timer_at timer q) (\<lambda>t.
     let reset_instantly = (case timers q of [] \<Rightarrow> True | (ts, p) # _ \<Rightarrow> ts_less (expireTime t) ts)
     in Inr (reset_instantly, q\<lparr>timers := insort_insert (expireTime t, timer) (timers q)\<rparr>))"

definition AddTimer :: "tq_env \<Rightarrow> TimerStamp \<Rightarrow> 'cb \<Rightarrow> real \<Rightarrow> 'cb TimerQueue \<Rightarrow> 'cb TimerQueue result" where
  "AddTimer e when cb i q =
     (let timer = new_address e (dom (timer_heap q));
          q1 = q\<lparr>timer_heap := (timer_heap q)(timer \<mapsto> Timer_ctor when cb i)\<rparr>
      in bindE (Insert timer q1) (\<lambda>(reset, q2).
         if reset then ResetTimerFd e timer q2 else Inr q2))"

text \<open>\<open>read\<close> of the descriptor when it is readable: the timer it was armed with has gone off.\<close>

definition ReadTimerFd :: "'cb TimerQueue \<Rightarrow> 'cb TimerQueue" where
  "ReadTimerFd q = q\<lparr>timerfd := None\<rparr>"

definition ResetTimers_step :: "tq_env \<Rightarrow> entry \<Rightarrow> 'cb TimerQueue \<Rightarrow> 'cb TimerQueue result" where
  "ResetTimers_step e entry q =
     bindE (timer_at (snd entry) q) (\<lambda>t.
     if repeat t then
       bindE (read_clock e q) (\<lambda>(now, q1).
       bindE (Restart (rounds e) now t) (\<lambda>t1.
       bindE (Insert (snd entry) (q1\<lparr>timer_heap := (timer_heap q1)(snd entry \<mapsto> t1)\<rparr>)) (\<lambda>(_, q2). Inr q2)))
     else Inr (delete_timer (snd entry) q))"

definition ResetTimers :: "tq_env \<Rightarrow> 'cb TimerQueue \<Rightarrow> 'cb TimerQueue result" where
  "ResetTimers e q =
     bindE (foldE (ResetTimers_step e) (active_timers q) q) (\<lambda>q1.
     case timers q1 of
       [] \<Rightarrow> Inr q1
     | (ts, p) # _ \<Rightarrow> ResetTimerFd e p q1)"

text \<open>The callbacks act on a world and the queue, to which they may add timers. The bound of the due entries
  is the present time with the largest address, which no timer has.\<close>

definition take_due :: "TimerStamp \<Rightarrow> 'cb TimerQueue \<Rightarrow> 'cb TimerQueue" where
  "take_due now q =
     (let due = (\<lambda>(ts, p). ts \<le> now)
      in q\<lparr>active_timers := takeWhile due (timers q), timers := dropWhile due (timers q)\<rparr>)"

definition HandleRead ::
    "tq_env \<Rightarrow> ('cb \<Rightarrow> 'w \<times> 'cb TimerQueue \<Rightarrow> ('w \<times> 'cb TimerQueue) result)
       \<Rightarrow> 'w \<times> 'cb TimerQueue \<Rightarrow> ('w \<times> 'cb TimerQueue) result" where
  "HandleRead e run = (\<lambda>(w, q).
     bindE (read_clock e (ReadTimerFd q)) (\<lambda>(now, q1).
     let q2 = take_due now (q1\<lparr>active_timers := []\<rparr>)
     in bindE (foldE (\<lambda>entry (w, q). bindE (timer_at (snd entry) q) (\<lambda>t. run (callback t) (w, q)))
                 (active_timers q2) (w, q2)) (\<lambda>(w1, q3).
        bindE (ResetTimers e q3) (\<lambda>q4. Inr (w1, q4)))))"

text \<open>The destructor frees the timers of the set. (It also takes the channel away and closes the
  descriptor.)\<close>

definition TimerQueue_dtor :: "'cb TimerQueue \<Rightarrow> 'cb TimerQueue" where
  "TimerQueue_dtor q = (fold (\<lambda>entry q. delete_timer (snd entry) q) (timers q) q)\<lparr>timerfd := None\<rparr>"

section \<open>Invariant\<close>

text \<open>Clocks and intervals far from the limits of 64 bits (some 100000 years), and an allocator that
  returns new addresses\<close>

definition tq_env_ok :: "tq_env \<Rightarrow> bool" where
  "tq_env_ok e \<longleftrightarrow> (\<forall>n. \<exists>t. Now (readings e n) = Inr t \<and> 0 \<le> micro_seconds t \<and> micro_seconds t \<le> 4 * 10 ^ 18)
     \<and> (\<forall>A. finite A \<longrightarrow> new_address e A \<notin> A)"

definition timer_ok :: "tq_env \<Rightarrow> 'cb Timer \<Rightarrow> bool" where
  "timer_ok e t \<longleftrightarrow> 0 \<le> micro_seconds (expireTime t) \<and> micro_seconds (expireTime t) \<le> 9 * 10 ^ 18
     \<and> (repeat t \<longrightarrow> 0 \<le> rounds e (interval t * 1000000) \<and> rounds e (interval t * 1000000) \<le> 5 * 10 ^ 18)"

text \<open>The entries are in order, each with the time of the timer it points to, no two with the same
  pointer; and the objects on the heap are those in the queue and those in \<open>A\<close>, which are being run.\<close>

definition tq_inv :: "tq_env \<Rightarrow> nat set \<Rightarrow> 'cb TimerQueue \<Rightarrow> bool" where
  "tq_inv e A q \<longleftrightarrow> sorted (timers q) \<and> distinct (map snd (timers q))
     \<and> (\<forall>(ts, p) \<in> set (timers q). \<exists>t. timer_heap q p = Some t \<and> expireTime t = ts)
     \<and> dom (timer_heap q) = snd ` set (timers q) \<union> A \<and> A \<inter> snd ` set (timers q) = {} \<and> finite A
     \<and> (\<forall>p t. timer_heap q p = Some t \<longrightarrow> timer_ok e t)"

text \<open>The time at which an armed descriptor becomes readable\<close>

definition deadline :: "timespec \<times> TimerStamp \<Rightarrow> int" where
  "deadline = (\<lambda>(v, base). micro_seconds base + tv_sec v * 1000000 + tv_nsec v div 1000)"

text \<open>The descriptor goes off at the time of the first timer, or, if that has passed or is too near, 100
  microseconds after it was armed.\<close>

definition armed :: "'cb TimerQueue \<Rightarrow> bool" where
  "armed q \<longleftrightarrow> (case timers q of [] \<Rightarrow> True
     | (ts, p) # _ \<Rightarrow> \<exists>v base. timerfd q = Some (v, base) \<and> deadline (v, base) = max (micro_seconds ts) (micro_seconds base + 100))"

lemma distinct_map_insort: "distinct (map f (insort x xs)) \<longleftrightarrow> f x \<notin> f ` set xs \<and> distinct (map f xs)"
  by (induction xs) (auto simp: set_insort_key)

lemma read_clock_ok:
  assumes "tq_env_ok e"
  shows "\<exists>t. read_clock e q = Inr (t, q\<lparr>clock_reads := clock_reads q + 1\<rparr>) \<and> Now (readings e (clock_reads q)) = Inr t
     \<and> 0 \<le> micro_seconds t \<and> micro_seconds t \<le> 4 * 10 ^ 18"
  using assms unfolding tq_env_ok_def read_clock_def by (metis bindE_Inr)

lemma tq_inv_cong:
  "timers q' = timers q \<Longrightarrow> timer_heap q' = timer_heap q \<Longrightarrow> tq_inv e A q' = tq_inv e A q"
  by (simp add: tq_inv_def)

lemma Insert_ok:
  assumes "tq_inv e A q" and "p \<in> A" and "timer_heap q p = Some t"
  shows "Insert p q = Inr (case timers q of [] \<Rightarrow> True | (ts, _) # _ \<Rightarrow> ts_less (expireTime t) ts,
       q\<lparr>timers := insort (expireTime t, p) (timers q)\<rparr>)"
    and "tq_inv e (A - {p}) (q\<lparr>timers := insort (expireTime t, p) (timers q)\<rparr>)"
proof -
  have p: "p \<notin> snd ` set (timers q)" using assms(1,2) by (auto simp: tq_inv_def)
  then have "(expireTime t, p) \<notin> set (timers q)" by force
  then show "Insert p q = Inr (case timers q of [] \<Rightarrow> True | (ts, _) # _ \<Rightarrow> ts_less (expireTime t) ts,
       q\<lparr>timers := insort (expireTime t, p) (timers q)\<rparr>)"
    using assms(3) by (simp add: Insert_def timer_at_def insort_insert_key_def Let_def split: list.split)
  show "tq_inv e (A - {p}) (q\<lparr>timers := insort (expireTime t, p) (timers q)\<rparr>)"
    using assms p by (auto simp: tq_inv_def sorted_insort distinct_map_insort set_insort_key)
qed

lemma armed_us:
  fixes us us1 :: int
  assumes "us1 = (if us < 100 then 100 else us)"
  shows "us1 sdiv 1000000 * 1000000 + us1 smod 1000000 * 1000 div 1000 = max us 100"
proof -
  have "us1 = max us 100" "0 \<le> us1" using assms by auto
  then show ?thesis by (simp add: signed_divide_int_def signed_modulo_int_def sgn_if)
qed

lemma ResetTimerFd_ok:
  assumes "tq_env_ok e" and "tq_inv e A q" and "timer_heap q p = Some t"
  shows "\<exists>q'. ResetTimerFd e p q = Inr q' \<and> tq_inv e A q' \<and> timers q' = timers q
     \<and> timer_heap q' = timer_heap q \<and> active_timers q' = active_timers q
     \<and> (\<exists>v base. timerfd q' = Some (v, base) \<and> deadline (v, base) = max (micro_seconds (expireTime t)) (micro_seconds base + 100))"
proof -
  obtain now where now: "read_clock e q = Inr (now, q\<lparr>clock_reads := clock_reads q + 1\<rparr>)"
      "0 \<le> micro_seconds now" "micro_seconds now \<le> 4 * 10 ^ 18"
    using read_clock_ok [OF assms(1)] by blast
  have t: "0 \<le> micro_seconds (expireTime t)" "micro_seconds (expireTime t) \<le> 9 * 10 ^ 18"
    using assms(2,3) by (auto simp: tq_inv_def timer_ok_def)
  let ?us = "micro_seconds (expireTime t) - micro_seconds now"
  define us1 where "us1 = (if ?us < 100 then 100 else ?us)"
  let ?v = "\<lparr>tv_sec = us1 sdiv 1000000, tv_nsec = us1 smod 1000000 * 1000\<rparr>"
  have r: "ResetTimerFd e p q = Inr (q\<lparr>clock_reads := clock_reads q + 1, timerfd := Some (?v, now)\<rparr>)"
    using now t assms(3) by (simp add: ResetTimerFd_def timer_at_def Let_def us1_def)
  have "deadline (?v, now) = max (micro_seconds (expireTime t)) (micro_seconds now + 100)"
    using armed_us [OF us1_def] by (simp add: deadline_def add.assoc max_def)
  with r show ?thesis using assms(2) by (auto intro: tq_inv_cong [THEN iffD2])
qed

lemma tq_inv_ctor [simp]: "tq_inv e {} (TimerQueue_ctor n)" "armed (TimerQueue_ctor n)"
  by (simp_all add: tq_inv_def armed_def TimerQueue_ctor_def)

lemma insort_head:
  fixes x :: "'a :: linorder"
  assumes "sorted xs"
  shows "insort x xs = (case xs of [] \<Rightarrow> [x] | y # ys \<Rightarrow> if x \<le> y then x # xs else y # insort x ys)"
  by (cases xs) simp_all

text \<open>Writing or freeing an object that is not in the queue\<close>

lemma tq_inv_heap:
  assumes "tq_inv e A q" and "p \<notin> snd ` set (timers q)"
  shows "timer_ok e t \<Longrightarrow> tq_inv e (insert p A) (q\<lparr>timer_heap := (timer_heap q)(p \<mapsto> t)\<rparr>)"
    and "tq_inv e (A - {p}) (q\<lparr>timer_heap := (timer_heap q)(p := None)\<rparr>)"
proof -
  have ne: "\<forall>(ts, p') \<in> set (timers q). p' \<noteq> p" using assms(2) by force
  show "timer_ok e t \<Longrightarrow> tq_inv e (insert p A) (q\<lparr>timer_heap := (timer_heap q)(p \<mapsto> t)\<rparr>)"
    using assms ne unfolding tq_inv_def by (auto split: if_splits)
  show "tq_inv e (A - {p}) (q\<lparr>timer_heap := (timer_heap q)(p := None)\<rparr>)"
    using assms ne unfolding tq_inv_def by (auto split: if_splits)
qed

text \<open>A new timer on a queue some of whose timers (\<open>A\<close>) are being run\<close>

lemma AddTimer_ok:
  assumes "tq_env_ok e" and "tq_inv e A q" and "timer_ok e (Timer_ctor when cb i)"
  shows "\<exists>q' p. AddTimer e when cb i q = Inr q' \<and> tq_inv e A q' \<and> (armed q \<longrightarrow> armed q')
     \<and> timers q' = insort (when, p) (timers q) \<and> active_timers q' = active_timers q
     \<and> timer_heap q' = (timer_heap q)(p \<mapsto> Timer_ctor when cb i) \<and> timer_heap q p = None"
proof -
  let ?t = "Timer_ctor when cb i"
  define p where "p = new_address e (dom (timer_heap q))"
  have "finite (dom (timer_heap q))" using assms(2) by (simp add: tq_inv_def)
  then have p: "p \<notin> dom (timer_heap q)" using assms(1) by (simp add: tq_env_ok_def p_def)
  have pA: "p \<notin> A" "p \<notin> snd ` set (timers q)" using p assms(2) unfolding tq_inv_def by blast+
  let ?q1 = "q\<lparr>timer_heap := (timer_heap q)(p \<mapsto> ?t)\<rparr>"
  let ?q2 = "?q1\<lparr>timers := insort (when, p) (timers q)\<rparr>"
  have i1: "tq_inv e (insert p A) ?q1"
    using tq_inv_heap(1) [OF assms(2) pA(2)] assms(3) by blast
  have ex: "expireTime ?t = when" by (simp add: Timer_ctor_def)
  have h: "timer_heap ?q1 p = Some ?t" by simp
  define r where "r = (case timers q of [] \<Rightarrow> True | (ts, _) # _ \<Rightarrow> ts_less when ts)"
  have ins: "Insert p ?q1 = Inr (r, ?q2)"
    using Insert_ok(1) [OF i1 insertI1 h] by (auto simp: ex r_def split: list.split)
  have i2: "tq_inv e A ?q2"
    using Insert_ok(2) [OF i1 insertI1 h] pA by (simp add: ex)
  have add: "AddTimer e when cb i q = (if r then ResetTimerFd e p ?q2 else Inr ?q2)"
    unfolding AddTimer_def Let_def p_def [symmetric] ins by simp
  show ?thesis
  proof (cases r)
    case True
    have h2: "timer_heap ?q2 p = Some ?t" by simp
    obtain q' v base where q': "ResetTimerFd e p ?q2 = Inr q'" "tq_inv e A q'" "timers q' = timers ?q2"
        "timer_heap q' = timer_heap ?q2" "active_timers q' = active_timers ?q2"
        "timerfd q' = Some (v, base)" "deadline (v, base) = max (micro_seconds when) (micro_seconds base + 100)"
      using ResetTimerFd_ok [OF assms(1) i2 h2] ex by auto
    have "\<exists>ys. insort (when, p) (timers q) = (when, p) # ys"
      using True by (cases "timers q") (auto simp: r_def TimerStamp_order(3) [symmetric])
    then have "armed q'" using q'(3,6,7) by (auto simp: armed_def)
    then show ?thesis using q' True add p by (intro exI [of _ q'] exI [of _ p]) auto
  next
    case False
    then obtain ts p0 rest where tl: "timers q = (ts, p0) # rest" "ts \<le> when"
      by (auto simp: r_def TimerStamp_order ts_less_def split: list.splits)
    have "\<exists>p1 ys. insort (when, p) (timers q) = (ts, p1) # ys" using tl by auto
    then have "armed q \<longrightarrow> armed ?q2" using tl(1) by (auto simp: armed_def)
    then show ?thesis using False add i2 p by (intro exI [of _ ?q2] exI [of _ p]) auto
  qed
qed

text \<open>Re-queueing or freeing a timer that has run\<close>

lemma ResetTimers_step_ok:
  assumes "tq_env_ok e" and "tq_inv e A q" and "p \<in> A" and "timer_heap q p = Some t"
  shows "\<exists>q'. ResetTimers_step e (ts, p) q = Inr q' \<and> tq_inv e (A - {p}) q'
     \<and> (\<forall>p'. p' \<noteq> p \<longrightarrow> timer_heap q' p' = timer_heap q p') \<and> set (timers q) \<subseteq> set (timers q')
     \<and> (if repeat t then \<exists>now t'. Restart (rounds e) now t = Inr t' \<and> timer_heap q' p = Some t' \<and> (expireTime t', p) \<in> set (timers q')
        else timer_heap q' p = None)"
proof -
  have pt: "p \<notin> snd ` set (timers q)" using assms(2,3) by (auto simp: tq_inv_def)
  show ?thesis
proof (cases "repeat t")
  case False
  have "tq_inv e (A - {p}) (delete_timer p q)"
    using tq_inv_heap(2) [OF assms(2) pt] by (simp add: delete_timer_def)
  then show ?thesis using False assms(4) by (simp add: ResetTimers_step_def timer_at_def delete_timer_def)
next
  case True
  obtain now where now: "read_clock e q = Inr (now, q\<lparr>clock_reads := clock_reads q + 1\<rparr>)"
      "0 \<le> micro_seconds now" "micro_seconds now \<le> 4 * 10 ^ 18"
    using read_clock_ok [OF assms(1)] by blast
  define d where "d = \<lfloor>rounds e (interval t * 1000000)\<rfloor>"
  have ok: "timer_ok e t" using assms(2,4) by (auto simp: tq_inv_def)
  then have dd: "0 \<le> rounds e (interval t * 1000000)" "0 \<le> d" "d \<le> 5 * 10 ^ 18"
    using True by (auto simp: d_def timer_ok_def floor_le_iff)
  define t' where "t' = t\<lparr>expireTime := TimerStamp_ctor (micro_seconds now + d)\<rparr>"
  have e1: "int64_expr d = Inr d" "int64_expr (micro_seconds now + d) = Inr (micro_seconds now + d)"
    using dd(2,3) now(2,3) by (auto intro!: int64_expr_ok)
  have rs: "Restart (rounds e) now t = Inr t'"
    unfolding Restart_def AddSec_def double_to_int64_def using True dd(1) e1 by (simp add: t'_def d_def)
  let ?q1 = "q\<lparr>clock_reads := clock_reads q + 1, timer_heap := (timer_heap q)(p \<mapsto> t')\<rparr>"
  have "timer_ok e t'" using ok dd now(2,3) by (simp add: timer_ok_def t'_def TimerStamp_ctor_def)
  then have i1: "tq_inv e A ?q1"
    using tq_inv_heap(1) [OF assms(2) pt, of t'] assms(3)
      tq_inv_cong [of ?q1 "q\<lparr>timer_heap := (timer_heap q)(p \<mapsto> t')\<rparr>" e A] by (simp add: insert_absorb)
  have h: "timer_heap ?q1 p = Some t'" by simp
  let ?q2 = "?q1\<lparr>timers := insort (expireTime t', p) (timers q)\<rparr>"
  have "ResetTimers_step e (ts, p) q = Inr ?q2"
    using assms(4) True now(1) rs Insert_ok(1) [OF i1 assms(3) h] by (simp add: ResetTimers_step_def timer_at_def)
  moreover have "tq_inv e (A - {p}) ?q2" using Insert_ok(2) [OF i1 assms(3) h] by simp
  ultimately show ?thesis using True rs by (intro exI [of _ ?q2]) (auto simp: set_insort_key)
qed
qed

text \<open>What becomes of a timer that has run\<close>

definition settled :: "tq_env \<Rightarrow> 'cb Timer \<Rightarrow> nat \<Rightarrow> 'cb TimerQueue \<Rightarrow> bool" where
  "settled e t p q \<longleftrightarrow>
     (if repeat t then \<exists>now t'. Restart (rounds e) now t = Inr t' \<and> timer_heap q p = Some t' \<and> (expireTime t', p) \<in> set (timers q)
      else timer_heap q p = None)"

lemma settled_mono:
  assumes "settled e t p q" "timer_heap q' p = timer_heap q p" "set (timers q) \<subseteq> set (timers q')"
  shows "settled e t p q'"
  using assms unfolding settled_def by (cases "repeat t") auto

lemma ResetTimers_fold:
  assumes "tq_env_ok e" and "tq_inv e (snd ` set es) q" and "distinct (map snd es)"
  shows "\<exists>q'. foldE (ResetTimers_step e) es q = Inr q' \<and> tq_inv e {} q'
     \<and> set (timers q) \<subseteq> set (timers q') \<and> (\<forall>p. p \<notin> snd ` set es \<longrightarrow> timer_heap q' p = timer_heap q p)
     \<and> (\<forall>(ts, p) \<in> set es. \<forall>t. timer_heap q p = Some t \<longrightarrow> settled e t p q')"
  using assms(2,3)
proof (induction es arbitrary: q)
  case (Cons x es)
  obtain ts p where x: "x = (ts, p)" by (cases x)
  have "p \<in> dom (timer_heap q)" using Cons.prems(1) by (simp add: tq_inv_def x)
  then obtain t where t: "timer_heap q p = Some t" by auto
  have p: "p \<in> snd ` set (x # es)" "p \<notin> snd ` set es" using Cons.prems(2) by (auto simp: x)
  obtain q1 where q1: "ResetTimers_step e x q = Inr q1" "tq_inv e (snd ` set (x # es) - {p}) q1"
      "\<forall>p'. p' \<noteq> p \<longrightarrow> timer_heap q1 p' = timer_heap q p'" "set (timers q) \<subseteq> set (timers q1)"
      "settled e t p q1"
    using ResetTimers_step_ok [OF assms(1) Cons.prems(1) p(1) t, of ts] by (auto simp: x settled_def)
  have "snd ` set (x # es) - {p} = snd ` set es" using p(2) by (auto simp: x)
  then obtain q' where q': "foldE (ResetTimers_step e) es q1 = Inr q'" "tq_inv e {} q'"
      "set (timers q1) \<subseteq> set (timers q')" "\<forall>p. p \<notin> snd ` set es \<longrightarrow> timer_heap q' p = timer_heap q1 p"
      "\<forall>(ts, p) \<in> set es. \<forall>t. timer_heap q1 p = Some t \<longrightarrow> settled e t p q'"
    using Cons.IH [of q1] q1(2) Cons.prems(2) by auto
  have "settled e t p q'" using settled_mono [OF q1(5)] q'(3,4) p(2) by blast
  moreover have "settled e t2 p2 q'" if "(ts2, p2) \<in> set es" "timer_heap q p2 = Some t2" for ts2 p2 t2
  proof -
    have "p2 \<noteq> p" using that(1) p(2) by force
    then have "timer_heap q1 p2 = Some t2" using that(2) q1(3) by simp
    then show ?thesis using q'(5) that(1) by blast
  qed
  moreover have "\<forall>p2. p2 \<notin> snd ` set (x # es) \<longrightarrow> timer_heap q' p2 = timer_heap q p2"
    using q1(3) q'(4) by (simp add: x)
  ultimately show ?case using q1(1,4) q'(1,2,3) t by (intro exI [of _ q']) (auto simp: x)
qed simp

lemma ResetTimers_ok:
  assumes "tq_env_ok e" and "tq_inv e (snd ` set (active_timers q)) q" and "distinct (map snd (active_timers q))"
  shows "\<exists>q'. ResetTimers e q = Inr q' \<and> tq_inv e {} q' \<and> armed q'
     \<and> set (timers q) \<subseteq> set (timers q') \<and> (\<forall>p. p \<notin> snd ` set (active_timers q) \<longrightarrow> timer_heap q' p = timer_heap q p)
     \<and> (\<forall>(ts, p) \<in> set (active_timers q). \<forall>t. timer_heap q p = Some t \<longrightarrow> settled e t p q')"
proof -
  obtain q1 where q1: "foldE (ResetTimers_step e) (active_timers q) q = Inr q1" "tq_inv e {} q1"
      "set (timers q) \<subseteq> set (timers q1)" "\<forall>p. p \<notin> snd ` set (active_timers q) \<longrightarrow> timer_heap q1 p = timer_heap q p"
      "\<forall>(ts, p) \<in> set (active_timers q). \<forall>t. timer_heap q p = Some t \<longrightarrow> settled e t p q1"
    using ResetTimers_fold [OF assms] by blast
  show ?thesis
  proof (cases "timers q1")
    case Nil
    then show ?thesis using q1 by (intro exI [of _ q1]) (simp add: ResetTimers_def armed_def)
  next
    case (Cons x rest)
    obtain ts p where x: "x = (ts, p)" by (cases x)
    obtain t where t: "timer_heap q1 p = Some t" "expireTime t = ts"
      using q1(2) Cons by (auto simp: tq_inv_def x)
    obtain q2 v base where q2: "ResetTimerFd e p q1 = Inr q2" "tq_inv e {} q2" "timers q2 = timers q1"
        "timer_heap q2 = timer_heap q1" "timerfd q2 = Some (v, base)"
        "deadline (v, base) = max (micro_seconds ts) (micro_seconds base + 100)"
      using ResetTimerFd_ok [OF assms(1) q1(2) t(1)] t(2) by auto
    have "armed q2" using q2 Cons by (simp add: armed_def x)
    moreover have "settled e t p q1 \<Longrightarrow> settled e t p q2" for t p
      using settled_mono [of e t p q1 q2] q2(3,4) by simp
    ultimately show ?thesis using q1 q2 Cons by (intro exI [of _ q2]) (auto simp: ResetTimers_def x)
  qed
qed

section \<open>The due timers\<close>

text \<open>The callbacks of the due timers, in the order of the queue, and the queue while they run\<close>

definition due_callbacks :: "TimerStamp \<Rightarrow> 'cb TimerQueue \<Rightarrow> 'cb list" where
  "due_callbacks now q = map (\<lambda>(ts, p). callback (the (timer_heap q p))) (takeWhile (\<lambda>(ts, p). ts \<le> now) (timers q))"

definition started :: "TimerStamp \<Rightarrow> 'cb TimerQueue \<Rightarrow> 'cb TimerQueue" where
  "started now q = take_due now (q\<lparr>timerfd := None, clock_reads := clock_reads q + 1, active_timers := []\<rparr>)"

lemma takeWhile_due:
  fixes now :: TimerStamp
  assumes "sorted es"
  shows "(ts, p) \<in> set (takeWhile (\<lambda>(ts, p). ts \<le> now) es) \<longleftrightarrow> (ts, p) \<in> set es \<and> ts \<le> now"
  using assms by (induction es) force+

lemma tq_inv_split:
  "tq_inv e {} q \<Longrightarrow> timers q = a @ b \<Longrightarrow> tq_inv e (snd ` set a) (q\<lparr>timers := b\<rparr>) \<and> distinct (map snd a)"
  by (auto simp: tq_inv_def sorted_append)

lemma started_inv:
  assumes "tq_inv e {} q"
  shows "tq_inv e (snd ` set (active_timers (started now q))) (started now q)"
    and "distinct (map snd (active_timers (started now q)))"
proof -
  let ?d = "\<lambda>(ts, p :: nat). ts \<le> now"
  have "timers q = takeWhile ?d (timers q) @ dropWhile ?d (timers q)" by simp
  from tq_inv_split [OF assms this]
  show "tq_inv e (snd ` set (active_timers (started now q))) (started now q)"
    and "distinct (map snd (active_timers (started now q)))"
    by (auto simp: tq_inv_def started_def take_due_def Let_def)
qed

text \<open>A timer is added, or the descriptor becomes readable\<close>

datatype 'cb tq_op = Q_Add TimerStamp 'cb real | Q_Ready

fun tq_exec ::
    "tq_env \<Rightarrow> ('cb \<Rightarrow> 'w \<times> 'cb TimerQueue \<Rightarrow> ('w \<times> 'cb TimerQueue) result) \<Rightarrow> 'cb tq_op
       \<Rightarrow> 'w \<times> 'cb TimerQueue \<Rightarrow> ('w \<times> 'cb TimerQueue) result" where
  "tq_exec e run (Q_Add ts cb i) (w, q) = bindE (AddTimer e ts cb i q) (\<lambda>q1. Inr (w, q1))"
| "tq_exec e run Q_Ready (w, q) = HandleRead e run (w, q)"

fun added :: "'cb tq_op \<Rightarrow> (TimerStamp \<times> 'cb \<times> real) option" where
  "added (Q_Add ts cb i) = Some (ts, cb, i)"
| "added Q_Ready = None"

section \<open>The interface of the callbacks\<close>

text \<open>What the queue relies on: a callback returns, and leaves the queue well-formed, the list of running
  timers and their objects as they were; it may add timers.\<close>

locale timer_callbacks =
  fixes run :: "tq_env \<Rightarrow> 'cb \<Rightarrow> 'w \<times> 'cb TimerQueue \<Rightarrow> ('w \<times> 'cb TimerQueue) result"
    and good_world :: "tq_env \<Rightarrow> 'w \<Rightarrow> bool"
  assumes run_keeps: "tq_env_ok e \<Longrightarrow> tq_inv e A q \<Longrightarrow> good_world e w \<Longrightarrow>
      \<exists>w' q'. run e cb (w, q) = Inr (w', q') \<and> good_world e w' \<and> tq_inv e A q'
        \<and> active_timers q' = active_timers q \<and> set (timers q) \<subseteq> set (timers q')
        \<and> (\<forall>p \<in> A. timer_heap q' p = timer_heap q p)"
begin

lemma run_all:
  assumes env: "tq_env_ok e" and "tq_inv e (snd ` set A) q" and "good_world e w" and "es = drop n A"
  shows "\<exists>w' q'. foldE (\<lambda>entry (w, q). bindE (timer_at (snd entry) q) (\<lambda>t. run e (callback t) (w, q))) es (w, q) = Inr (w', q')
     \<and> good_world e w' \<and> foldE (run e) (map (\<lambda>(ts, p). callback (the (timer_heap q p))) es) (w, q) = Inr (w', q')
     \<and> tq_inv e (snd ` set A) q' \<and> active_timers q' = active_timers q \<and> set (timers q) \<subseteq> set (timers q')
     \<and> (\<forall>p \<in> snd ` set A. timer_heap q' p = timer_heap q p)"
  using assms(2-4)
proof (induction es arbitrary: n q w)
  case (Cons x es)
  obtain ts p where x: "x = (ts, p)" by (cases x)
  have "x \<in> set A" using Cons.prems(3) by (metis in_set_dropD list.set_intros(1))
  then have pA: "p \<in> snd ` set A" by (auto simp: x intro: image_eqI [of _ snd "(ts, p)"])
  then have "p \<in> dom (timer_heap q)" using Cons.prems(1) unfolding tq_inv_def by blast
  then obtain t where t: "timer_heap q p = Some t" by blast
  obtain w1 q1 where 1: "run e (callback t) (w, q) = Inr (w1, q1)" "good_world e w1" "tq_inv e (snd ` set A) q1"
      "active_timers q1 = active_timers q" "set (timers q) \<subseteq> set (timers q1)"
      "\<forall>p \<in> snd ` set A. timer_heap q1 p = timer_heap q p"
    using run_keeps [OF env Cons.prems(1,2)] by blast
  have es: "es = drop (Suc n) A" using Cons.prems(3) by (metis drop_Suc list.sel(3) tl_drop)
  obtain w' q' where 2: "foldE (\<lambda>entry (w, q). bindE (timer_at (snd entry) q) (\<lambda>t. run e (callback t) (w, q))) es (w1, q1) = Inr (w', q')"
      "good_world e w'" "foldE (run e) (map (\<lambda>(ts, p). callback (the (timer_heap q1 p))) es) (w1, q1) = Inr (w', q')"
      "tq_inv e (snd ` set A) q'" "active_timers q' = active_timers q1" "set (timers q1) \<subseteq> set (timers q')"
      "\<forall>p \<in> snd ` set A. timer_heap q' p = timer_heap q1 p"
    using Cons.IH [OF 1(3,2) es] by blast
  have "map (\<lambda>(ts, p). callback (the (timer_heap q1 p))) es = map (\<lambda>(ts, p). callback (the (timer_heap q p))) es"
    using 1(6) es by (auto dest!: in_set_dropD)
  from 2(3) [unfolded this]
  have "foldE (run e) (map (\<lambda>(ts, p). callback (the (timer_heap q p))) es) (w1, q1) = Inr (w', q')" .
  then show ?case using 1 2 t by (intro exI [of _ w'] exI [of _ q']) (auto simp: x timer_at_def)
qed simp

lemma HandleRead_ok:
  assumes env: "tq_env_ok e" and inv: "tq_inv e {} q" and w: "good_world e w"
  shows "\<exists>now w' q' q3. Now (readings e (clock_reads q)) = Inr now \<and> HandleRead e (run e) (w, q) = Inr (w', q')
     \<and> good_world e w' \<and> tq_inv e {} q' \<and> armed q'
     \<and> foldE (run e) (due_callbacks now q) (w, started now q) = Inr (w', q3)
     \<and> (\<forall>(ts, p) \<in> set (timers q3). (ts, p) \<in> set (timers q') \<and> timer_heap q' p = timer_heap q3 p)
     \<and> (\<forall>(ts, p) \<in> set (timers q). now < ts \<longrightarrow> (ts, p) \<in> set (timers q'))
     \<and> (\<forall>(ts, p) \<in> set (timers q). \<forall>t. ts \<le> now \<longrightarrow> timer_heap q p = Some t \<longrightarrow> settled e t p q')"
proof -
  obtain now where now: "read_clock e (ReadTimerFd q) = Inr (now, ReadTimerFd q\<lparr>clock_reads := clock_reads q + 1\<rparr>)"
      "Now (readings e (clock_reads q)) = Inr now"
    using read_clock_ok [OF env, of "ReadTimerFd q"] by (auto simp: ReadTimerFd_def)
  let ?q2 = "started now q"
  have q2: "take_due now ((ReadTimerFd q\<lparr>clock_reads := clock_reads q + 1\<rparr>)\<lparr>active_timers := []\<rparr>) = ?q2"
    by (simp add: started_def take_due_def Let_def ReadTimerFd_def)
  let ?A = "takeWhile (\<lambda>(ts, p). ts \<le> now) (timers q)"
  have act: "active_timers ?q2 = ?A" "timer_heap ?q2 = timer_heap q" "timers ?q2 = dropWhile (\<lambda>(ts, p). ts \<le> now) (timers q)"
    by (simp_all add: started_def take_due_def Let_def)
  have inv2: "tq_inv e (snd ` set ?A) ?q2" using started_inv(1) [OF inv, of now] unfolding act(1) .
  obtain w' q3 where run: "foldE (\<lambda>entry (w, q). bindE (timer_at (snd entry) q) (\<lambda>t. run e (callback t) (w, q))) ?A (w, ?q2) = Inr (w', q3)"
      "good_world e w'" "foldE (run e) (map (\<lambda>(ts, p). callback (the (timer_heap ?q2 p))) ?A) (w, ?q2) = Inr (w', q3)"
      "tq_inv e (snd ` set ?A) q3" "active_timers q3 = active_timers ?q2" "set (timers ?q2) \<subseteq> set (timers q3)"
      "\<forall>p \<in> snd ` set ?A. timer_heap q3 p = timer_heap ?q2 p"
    using run_all [OF env inv2 w, of ?A 0] by auto
  have d: "distinct (map snd (active_timers q3))"
    using started_inv(2) [OF inv, of now] unfolding run(5) .
  obtain q' where q': "ResetTimers e q3 = Inr q'" "tq_inv e {} q'" "armed q'" "set (timers q3) \<subseteq> set (timers q')"
      "\<forall>p. p \<notin> snd ` set (active_timers q3) \<longrightarrow> timer_heap q' p = timer_heap q3 p"
      "\<forall>(ts, p) \<in> set (active_timers q3). \<forall>t. timer_heap q3 p = Some t \<longrightarrow> settled e t p q'"
    using ResetTimers_ok [OF env _ d] run(4,5) act(1) by auto
  have "HandleRead e (run e) (w, q) = Inr (w', q')"
    using now(1) q2 act(1) run(1) q'(1) by (simp add: HandleRead_def Let_def)
  moreover have "foldE (run e) (due_callbacks now q) (w, ?q2) = Inr (w', q3)"
    using run(3) act(2) by (simp add: due_callbacks_def)
  moreover have "(ts, p) \<in> set (timers q') \<and> timer_heap q' p = timer_heap q3 p" if "(ts, p) \<in> set (timers q3)" for ts p
  proof -
    have "p \<in> snd ` set (timers q3)" using that by force
    then have "p \<notin> snd ` set (active_timers q3)" using run(4,5) act(1) by (auto simp: tq_inv_def)
    then show ?thesis using q'(4,5) that by blast
  qed
  moreover have "(ts, p) \<in> set (timers q')" if "(ts, p) \<in> set (timers q)" "now < ts" for ts p
  proof -
    have "(ts, p) \<notin> set ?A" using that(2) by (auto dest: set_takeWhileD)
    then have "(ts, p) \<in> set (timers ?q2)"
      using that(1) act(3) by (metis Un_iff set_append takeWhile_dropWhile_id)
    then show ?thesis using run(6) q'(4) by blast
  qed
  moreover have "settled e t p q'" if "(ts, p) \<in> set (timers q)" "ts \<le> now" "timer_heap q p = Some t" for ts p t
  proof -
    have "(ts, p) \<in> set ?A" using that(1,2) inv by (simp add: takeWhile_due tq_inv_def)
    then have "(ts, p) \<in> set (active_timers q3)" "timer_heap q3 p = Some t"
      using run(5,7) act(1,2) that(3) by force+
    then show ?thesis using q'(6) by blast
  qed
  ultimately show ?thesis using now(2) run(2) q'(2,3) by blast
qed

text \<open>Sequences of what happens to a queue from outside\<close>

lemma queue_run:
  assumes env: "tq_env_ok e" and "tq_inv e {} q" "armed q" "good_world e w"
    and "\<forall>(ts, cb, i) \<in> set (List.map_filter added ops). timer_ok e (Timer_ctor ts cb i)"
  shows "\<exists>w' q'. foldE (tq_exec e (run e)) ops (w, q) = Inr (w', q') \<and> tq_inv e {} q' \<and> armed q' \<and> good_world e w'"
  using assms(2-)
proof (induction ops arbitrary: w q)
  case (Cons x ops)
  obtain w1 q1 where 1: "tq_exec e (run e) x (w, q) = Inr (w1, q1)" "tq_inv e {} q1" "armed q1" "good_world e w1"
  proof (cases x)
    case (Q_Add ts cb i)
    then have "timer_ok e (Timer_ctor ts cb i)" using Cons.prems(4) by (simp add: List.map_filter_def)
    then show thesis using AddTimer_ok [OF env Cons.prems(1)] Cons.prems(2,3) that Q_Add by fastforce
  next
    case Q_Ready
    then show thesis using HandleRead_ok [OF env Cons.prems(1,3)] that by fastforce
  qed
  have "\<forall>(ts, cb, i) \<in> set (List.map_filter added ops). timer_ok e (Timer_ctor ts cb i)"
    using Cons.prems(4) by (auto simp: List.map_filter_def split: if_splits)
  from Cons.IH [OF 1(2-4) this] 1(1) show ?case by simp
qed auto

end

text \<open>When the callbacks do the same on two worlds, reading the descriptor does.\<close>

lemma foldE_sim:
  assumes "\<And>x w v q w' q'. R w v \<Longrightarrow> f x (w, q) = Inr (w', q') \<Longrightarrow> \<exists>v'. g x (v, q) = Inr (v', q') \<and> R w' v'"
  shows "R w v \<Longrightarrow> foldE f xs (w, q) = Inr (w', q') \<Longrightarrow> \<exists>v'. foldE g xs (v, q) = Inr (v', q') \<and> R w' v'"
proof (induction xs arbitrary: w v q)
  case (Cons x xs)
  obtain w1 q1 where 1: "f x (w, q) = Inr (w1, q1)" "foldE f xs (w1, q1) = Inr (w', q')"
    using Cons.prems(2) by (auto simp: result_simps)
  obtain v1 where "g x (v, q) = Inr (v1, q1)" "R w1 v1" using assms [OF Cons.prems(1) 1(1)] by blast
  then show ?case using Cons.IH [OF _ 1(2)] by auto
qed auto

lemma HandleRead_sim:
  assumes "R w v" and "HandleRead e f (w, q) = Inr (w', q')"
    and step: "\<And>cb w v q w' q'. R w v \<Longrightarrow> f cb (w, q) = Inr (w', q') \<Longrightarrow> \<exists>v'. g cb (v, q) = Inr (v', q') \<and> R w' v'"
  shows "\<exists>v'. HandleRead e g (v, q) = Inr (v', q') \<and> R w' v'"
proof -
  let ?F = "\<lambda>f entry (w, q). bindE (timer_at (snd entry) q) (\<lambda>t. f (callback t) (w, q))"
  obtain now q1 q3 where 1: "read_clock e (ReadTimerFd q) = Inr (now, q1)"
      "foldE (?F f) (active_timers (take_due now (q1\<lparr>active_timers := []\<rparr>))) (w, take_due now (q1\<lparr>active_timers := []\<rparr>)) = Inr (w', q3)"
      "ResetTimers e q3 = Inr q'"
    using assms(2) by (auto simp: HandleRead_def Let_def result_simps)
  have "\<exists>v'. foldE (?F g) (active_timers (take_due now (q1\<lparr>active_timers := []\<rparr>))) (v, take_due now (q1\<lparr>active_timers := []\<rparr>)) = Inr (v', q3)
      \<and> R w' v'"
  proof (rule foldE_sim [where R = R and f = "?F f", OF _ assms(1) 1(2)])
    show "\<exists>v'. ?F g x (v, q) = Inr (v', q') \<and> R w' v'" if "R w v" "?F f x (w, q) = Inr (w', q')" for x w v q w' q'
      using that step by (auto simp: result_simps)
  qed
  then show ?thesis using 1(1,3) by (auto simp: HandleRead_def Let_def)
qed

text \<open>The destructor leaks no timer.\<close>

lemma TimerQueue_dtor_frees:
  assumes "tq_inv e {} q"
  shows "timer_heap (TimerQueue_dtor q) = Map.empty"
proof -
  have f: "timer_heap (fold (\<lambda>entry q. delete_timer (snd entry) q) es q) p = (if p \<in> snd ` set es then None else timer_heap q p)" for es p
    by (induction es arbitrary: q) (auto simp: delete_timer_def)
  have d: "dom (timer_heap q) = snd ` set (timers q)" using assms by (simp add: tq_inv_def)
  have "timer_heap (TimerQueue_dtor q) p = None" for p
  proof (cases "p \<in> snd ` set (timers q)")
    case True
    then show ?thesis by (simp add: TimerQueue_dtor_def f)
  next
    case False
    then have "timer_heap q p = None" using d by blast
    then show ?thesis by (simp add: TimerQueue_dtor_def f)
  qed
  then show ?thesis by blast
qed

end
