(* ===== verification/EventLoop.thy ===== *)
theory EventLoop
  imports TimerQueue Channel
begin

text \<open>
  The event loop: \<open>tcp/EventLoop.h\<close> and \<open>tcp/EventLoop.cpp\<close> (class \<open>EventLoop\<close>). Other threads hand it
  functions to run: they push them on the list under the lock and then write to the wakeup
  descriptor, an \<open>eventfd\<close>, as two steps that the others can come between. The loop's own thread
  goes round: it waits in \<open>Poll\<close>, handles the events, takes the list and runs it. The theory shows
  that every function is run exactly once, in the order of the pushes, and that a wakeup is never
  lost. The timer operations act on the loop's timer queue.
\<close>

section \<open>Timers\<close>

definition RunAt :: "tq_env \<Rightarrow> TimerStamp \<Rightarrow> 'cb \<Rightarrow> 'cb TimerQueue \<Rightarrow> 'cb TimerQueue result" where
  "RunAt e ts cb q = AddTimer e ts cb 0 q"

definition RunAfter :: "tq_env \<Rightarrow> real \<Rightarrow> 'cb \<Rightarrow> 'cb TimerQueue \<Rightarrow> 'cb TimerQueue result" where
  "RunAfter e wait_time cb q =
     bindE (read_clock e q) (\<lambda>(now, q1).
     bindE (AddSec (rounds e) now wait_time) (\<lambda>ts. AddTimer e ts cb 0 q1))"

definition RunEvery :: "tq_env \<Rightarrow> real \<Rightarrow> 'cb \<Rightarrow> 'cb TimerQueue \<Rightarrow> 'cb TimerQueue result" where
  "RunEvery e i cb q =
     bindE (read_clock e q) (\<lambda>(now, q1).
     bindE (AddSec (rounds e) now i) (\<lambda>ts. AddTimer e ts cb i q1))"

section \<open>The loop's state\<close>

text \<open>Where the loop's thread is: waiting for events; handling them, with the wakeup descriptor among those
  still to be handled or not; or running the functions it has taken. Of the other threads, \<open>wakers\<close>
  are those that have pushed a function and have not yet written to the descriptor. What was run is
  recorded.\<close>

datatype 'f loop_pc = Polling | Handling bool | Running "'f list"

record 'f EventLoop =
  to_do_list :: "'f list"
  wakeup_count :: nat
  wakeup_channel :: Channel
  poller :: epoll
  calling_functors :: bool
  tid :: int
  loop_pc :: "'f loop_pc"
  wakers :: "int list"
  executed :: "'f list"

definition EventLoop_ctor :: "bool \<Rightarrow> int \<Rightarrow> int \<Rightarrow> 'f EventLoop" where
  "EventLoop_ctor t wakeup_fd thread =
     (case EnableRead (Channel_ctor t wakeup_fd, Map.empty) of (ch, ep) \<Rightarrow>
        \<lparr>to_do_list = [], wakeup_count = 0, wakeup_channel = ch, poller = ep, calling_functors = False,
         tid = thread, loop_pc = Polling, wakers = [], executed = []\<rparr>)"

definition EventLoop_dtor :: "'f EventLoop \<Rightarrow> 'f EventLoop" where
  "EventLoop_dtor l =
     (case DeleteChannel (wakeup_channel l, poller l) of (ch, ep) \<Rightarrow> l\<lparr>wakeup_channel := ch, poller := ep\<rparr>)"

lemma EventLoop_dtor_unwatches: "poller (EventLoop_dtor (EventLoop_ctor t fd thread)) = Map.empty"
  by (simp add: EventLoop_dtor_def EventLoop_ctor_def EnableRead_def UpdateChannel_def Channel_ctor_def epoll_add_def Let_def
      DeleteChannel_def epoll_del_def)

definition IsInLoopThread :: "int \<Rightarrow> 'f EventLoop \<Rightarrow> bool" where
  "IsInLoopThread thread l \<longleftrightarrow> thread = tid l"

text \<open>The greatest value of the counter of an \<open>eventfd\<close>\<close>

definition eventfd_max :: int where
  "eventfd_max = 18446744073709551614"

text \<open>Writing 1 to the \<open>eventfd\<close>: it fails, and with it the assertion, when the counter is full.\<close>

definition wakeup :: "'f EventLoop \<Rightarrow> 'f EventLoop result" where
  "wakeup l =
     bindE (assertE (int (wakeup_count l) + 1 \<le> eventfd_max)) (\<lambda>_.
     Inr (l\<lparr>wakeup_count := wakeup_count l + 1\<rparr>))"

text \<open>\<open>QueueOneFunc\<close>: the critical section, then the wakeup where it is needed\<close>

definition push_func :: "'f \<Rightarrow> 'f EventLoop \<Rightarrow> 'f EventLoop" where
  "push_func fn l = l\<lparr>to_do_list := to_do_list l @ [fn]\<rparr>"

definition QueueOneFunc :: "int \<Rightarrow> 'f \<Rightarrow> 'f EventLoop \<Rightarrow> 'f EventLoop result" where
  "QueueOneFunc thread fn l =
     (let l1 = push_func fn l
      in if \<not> IsInLoopThread thread l1 \<or> calling_functors l1 then wakeup l1 else Inr l1)"

text \<open>\<open>RunOneFunc\<close>: in the loop's thread the function is called at once.\<close>

definition RunOneFunc :: "int \<Rightarrow> ('f \<Rightarrow> 'f EventLoop \<Rightarrow> 'f EventLoop result) \<Rightarrow> 'f \<Rightarrow> 'f EventLoop \<Rightarrow> 'f EventLoop result" where
  "RunOneFunc thread call fn l = (if IsInLoopThread thread l then call fn l else QueueOneFunc thread fn l)"

definition HandleRead_wakeup :: "'f EventLoop \<Rightarrow> 'f EventLoop result" where
  "HandleRead_wakeup l =
     bindE (assertE (wakeup_count l \<noteq> 0)) (\<lambda>_. Inr (l\<lparr>wakeup_count := 0\<rparr>))"

text \<open>\<open>DoToDoList\<close> in three parts: taking the list, running its functions one by one, the end\<close>

definition take_functors :: "'f EventLoop \<Rightarrow> 'f EventLoop" where
  "take_functors l = l\<lparr>calling_functors := True, loop_pc := Running (to_do_list l), to_do_list := []\<rparr>"

definition finish_functors :: "'f EventLoop \<Rightarrow> 'f EventLoop" where
  "finish_functors l = l\<lparr>calling_functors := False, loop_pc := Polling\<rparr>"

section \<open>Interleavings\<close>

text \<open>Steps of other threads: \<open>L_Push\<close> and \<open>L_Wake\<close>, the two parts of \<open>QueueOneFunc\<close>. Steps of the loop's
  thread: \<open>L_Poll b\<close>, return from \<open>Poll\<close> with the wakeup descriptor reported or not (then some other
  descriptor was); \<open>L_Wakeup\<close>, its handler; \<open>L_Queue\<close>, a \<open>QueueOneFunc\<close> from a handler or from a function
  that is run; \<open>L_Take\<close>, \<open>L_Run\<close> and \<open>L_Finish\<close>, the parts of \<open>DoToDoList\<close>.\<close>

datatype 'f loop_step = L_Push int 'f | L_Wake int | L_Poll bool | L_Wakeup | L_Queue 'f | L_Take | L_Run | L_Finish

fun loop_enabled :: "'f loop_step \<Rightarrow> 'f EventLoop \<Rightarrow> bool" where
  "loop_enabled (L_Push t f) l \<longleftrightarrow> t \<noteq> tid l \<and> t \<notin> set (wakers l)"
| "loop_enabled (L_Wake t) l \<longleftrightarrow> t \<in> set (wakers l)"
| "loop_enabled (L_Poll b) l \<longleftrightarrow> loop_pc l = Polling \<and> (b \<longrightarrow> wakeup_count l \<noteq> 0)"
| "loop_enabled L_Wakeup l \<longleftrightarrow> loop_pc l = Handling True"
| "loop_enabled (L_Queue f) l \<longleftrightarrow> loop_pc l \<noteq> Polling"
| "loop_enabled L_Take l \<longleftrightarrow> loop_pc l = Handling False"
| "loop_enabled L_Run l \<longleftrightarrow> (case loop_pc l of Running fs \<Rightarrow> fs \<noteq> [] | _ \<Rightarrow> False)"
| "loop_enabled L_Finish l \<longleftrightarrow> loop_pc l = Running []"

fun loop_exec :: "'f loop_step \<Rightarrow> 'f EventLoop \<Rightarrow> 'f EventLoop result" where
  "loop_exec (L_Push t f) l = Inr ((push_func f l)\<lparr>wakers := t # wakers l\<rparr>)"
| "loop_exec (L_Wake t) l = bindE (wakeup l) (\<lambda>l1. Inr (l1\<lparr>wakers := remove1 t (wakers l1)\<rparr>))"
| "loop_exec (L_Poll b) l = Inr (l\<lparr>loop_pc := Handling b\<rparr>)"
| "loop_exec L_Wakeup l = bindE (HandleRead_wakeup l) (\<lambda>l1. Inr (l1\<lparr>loop_pc := Handling False\<rparr>))"
| "loop_exec (L_Queue f) l = QueueOneFunc (tid l) f l"
| "loop_exec L_Take l = Inr (take_functors l)"
| "loop_exec L_Run l = (case loop_pc l of Running (f # fs) \<Rightarrow> Inr (l\<lparr>loop_pc := Running fs, executed := executed l @ [f]\<rparr>) | _ \<Rightarrow> Inr l)"
| "loop_exec L_Finish l = Inr (finish_functors l)"

inductive loop_run :: "'f EventLoop \<Rightarrow> 'f loop_step list \<Rightarrow> 'f EventLoop \<Rightarrow> bool" where
  loop_nil: "loop_run l [] l"
| loop_cons: "loop_enabled x l \<Longrightarrow> loop_exec x l = Inr l1 \<Longrightarrow> loop_run l1 xs l2 \<Longrightarrow> loop_run l (x # xs) l2"

inductive_cases loop_run_consE: "loop_run l (x # xs) l2"
inductive_cases loop_run_nilE: "loop_run l [] l2"

section \<open>Invariant\<close>

text \<open>The functions taken and not yet run\<close>

fun taken :: "'f loop_pc \<Rightarrow> 'f list" where
  "taken (Running fs) = fs"
| "taken _ = []"

text \<open>A loop that waits, or will wait without looking at the list again, has a wakeup coming when the list is
  not empty: the counter is not zero, or a thread that pushed is about to write.\<close>

definition loop_inv :: "'f EventLoop \<Rightarrow> bool" where
  "loop_inv l \<longleftrightarrow> (calling_functors l \<longleftrightarrow> (\<exists>fs. loop_pc l = Running fs))
     \<and> (loop_pc l = Handling True \<longrightarrow> wakeup_count l \<noteq> 0)
     \<and> (loop_pc l = Polling \<or> calling_functors l \<longrightarrow> to_do_list l \<noteq> [] \<longrightarrow> wakeup_count l \<noteq> 0 \<or> wakers l \<noteq> [])"

fun step_funcs :: "'f loop_step \<Rightarrow> 'f list" where
  "step_funcs (L_Push t f) = [f]"
| "step_funcs (L_Queue f) = [f]"
| "step_funcs _ = []"

definition all_funcs :: "'f EventLoop \<Rightarrow> 'f list" where
  "all_funcs l = executed l @ taken (loop_pc l) @ to_do_list l"

lemmas loop_defs = push_func_def QueueOneFunc_def wakeup_def HandleRead_wakeup_def take_functors_def
  finish_functors_def IsInLoopThread_def assertE_def

lemma loop_step_inv:
  assumes "loop_inv l" and "loop_enabled x l" and "loop_exec x l = Inr l'"
  shows "loop_inv l' \<and> all_funcs l' = all_funcs l @ step_funcs x \<and> wakeup_count l' \<le> wakeup_count l + 1
     \<and> tid l' = tid l"
proof (cases x)
  case L_Run
  then show ?thesis using assms by (cases "loop_pc l") (auto simp: loop_inv_def all_funcs_def neq_Nil_conv)
next
  case (L_Queue f)
  then show ?thesis
    using assms by (cases "calling_functors l") (auto simp: loop_inv_def loop_defs all_funcs_def Let_def split: if_splits)
next
  case (L_Wake t)
  then have "l' = l\<lparr>wakeup_count := wakeup_count l + 1, wakers := remove1 t (wakers l)\<rparr>"
    using assms(3) by (simp add: wakeup_def assertE_def split: if_splits)
  then show ?thesis using assms(1) L_Wake by (simp add: loop_inv_def all_funcs_def)
next
  case (L_Push t f)
  then have "l' = l\<lparr>to_do_list := to_do_list l @ [f], wakers := t # wakers l\<rparr>"
    using assms(3) by (simp add: push_func_def)
  then show ?thesis using assms(1) L_Push by (simp add: loop_inv_def all_funcs_def)
next
  case (L_Poll b)
  then show ?thesis using assms by (auto simp: loop_inv_def loop_defs all_funcs_def)
next
  case L_Wakeup
  then show ?thesis using assms by (auto simp: loop_inv_def loop_defs all_funcs_def split: if_splits)
next
  case L_Take
  then show ?thesis using assms by (auto simp: loop_inv_def loop_defs all_funcs_def)
next
  case L_Finish
  then show ?thesis using assms by (auto simp: loop_inv_def loop_defs all_funcs_def)
qed

lemma loop_run_inv:
  assumes "loop_run l xs l'" and "loop_inv l"
  shows "loop_inv l' \<and> all_funcs l' = all_funcs l @ concat (map step_funcs xs)
     \<and> wakeup_count l' \<le> wakeup_count l + length xs \<and> tid l' = tid l"
  using assms
proof (induction rule: loop_run.induct)
  case (loop_cons x l l1 xs l2)
  then show ?case using loop_step_inv [OF loop_cons.prems loop_cons.hyps(1,2)] by fastforce
qed simp

lemma EventLoop_ctor_inv:
  "loop_inv (EventLoop_ctor t fd thread)" "all_funcs (EventLoop_ctor t fd thread) = []"
  "wakeup_count (EventLoop_ctor t fd thread) = 0" "tid (EventLoop_ctor t fd thread) = thread"
  by (simp_all add: EventLoop_ctor_def loop_inv_def all_funcs_def split: prod.split)

text \<open>No enabled step fails while the counter is below its limit.\<close>

lemma loop_exec_total:
  assumes "loop_inv l" and "loop_enabled x l" and "int (wakeup_count l) < eventfd_max"
  shows "\<exists>l'. loop_exec x l = Inr l'"
  using assms by (cases x) (auto simp: loop_inv_def loop_defs Let_def neq_Nil_conv split: if_splits loop_pc.splits)

section \<open>Progress\<close>

lemma loop_run_append:
  "loop_run a xs b \<Longrightarrow> loop_run b ys c \<Longrightarrow> loop_run a (xs @ ys) c"
  by (induction rule: loop_run.induct) (auto intro: loop_run.intros)

lemma run_taken:
  assumes "loop_pc l = Running fs"
  shows "loop_run l (replicate (length fs) L_Run) (l\<lparr>loop_pc := Running [], executed := executed l @ fs\<rparr>)"
  using assms
proof (induction fs arbitrary: l)
  case Nil
  then show ?case by (metis append_Nil2 EventLoop.surjective EventLoop.update_convs(7,9) length_0_conv list.size(3) loop_nil replicate_0)
next
  case (Cons f fs)
  let ?l = "l\<lparr>loop_pc := Running fs, executed := executed l @ [f]\<rparr>"
  have "loop_exec L_Run l = Inr ?l" "loop_enabled L_Run l" using Cons.prems by simp_all
  moreover have "loop_run ?l (replicate (length fs) L_Run) (?l\<lparr>loop_pc := Running [], executed := executed ?l @ fs\<rparr>)"
    using Cons.IH [of ?l] by simp
  ultimately show ?case by (auto intro: loop_cons)
qed

text \<open>Steps that do not depend on new work or on other descriptors\<close>

fun own_step :: "'f loop_step \<Rightarrow> bool" where
  "own_step (L_Push t f) = False"
| "own_step (L_Queue f) = False"
| "own_step (L_Poll b) = b"
| "own_step _ = True"

definition drains :: "'f EventLoop \<Rightarrow> bool" where
  "drains l \<longleftrightarrow> (\<exists>xs l'. loop_run l xs l' \<and> (\<forall>x \<in> set xs. own_step x) \<and> executed l' = all_funcs l)"

lemma drains_step:
  assumes "loop_enabled x l" "loop_exec x l = Inr l1" "own_step x" "all_funcs l1 = all_funcs l" "drains l1"
  shows "drains l"
proof -
  obtain xs l' where "loop_run l1 xs l'" "\<forall>x \<in> set xs. own_step x" "executed l' = all_funcs l1"
    using assms(5) by (auto simp: drains_def)
  then have "loop_run l (x # xs) l'" "\<forall>x \<in> set (x # xs). own_step x" "executed l' = all_funcs l"
    using assms by (auto intro: loop_cons)
  then show ?thesis unfolding drains_def by blast
qed

lemma drains_run:
  assumes "loop_run l xs l1" "\<forall>x \<in> set xs. own_step x" "all_funcs l1 = all_funcs l" "drains l1"
  shows "drains l"
  using assms loop_run_append unfolding drains_def by (metis Un_iff set_append)

lemma drains_Handling_False:
  assumes "loop_pc l = Handling False"
  shows "drains l"
proof -
  let ?l = "take_functors l"
  have "loop_run ?l (replicate (length (to_do_list l)) L_Run) (?l\<lparr>loop_pc := Running [], executed := executed ?l @ to_do_list l\<rparr>)"
    by (rule run_taken) (simp add: take_functors_def)
  moreover have "executed (?l\<lparr>loop_pc := Running [], executed := executed ?l @ to_do_list l\<rparr>) = all_funcs ?l"
    by (simp add: take_functors_def all_funcs_def)
  ultimately have "drains ?l"
    unfolding drains_def by (intro exI conjI) (assumption, auto)
  then show ?thesis
    using drains_step [of L_Take l ?l] assms by (simp add: all_funcs_def take_functors_def)
qed

lemma drains_Handling:
  assumes "loop_pc l = Handling b" and "loop_inv l"
  shows "drains l"
proof (cases b)
  case True
  let ?l = "l\<lparr>wakeup_count := 0, loop_pc := Handling False\<rparr>"
  have "loop_exec L_Wakeup l = Inr ?l" using assms True by (simp add: loop_inv_def HandleRead_wakeup_def)
  moreover have "drains ?l" by (rule drains_Handling_False) simp
  ultimately show ?thesis using drains_step [of L_Wakeup l ?l] assms True by (simp add: all_funcs_def)
qed (use assms drains_Handling_False in simp)

lemma drains_Polling:
  assumes "loop_pc l = Polling" and "loop_inv l"
  shows "drains l"
proof (cases "to_do_list l = []")
  case True
  then have "executed l = all_funcs l" using assms(1) by (simp add: all_funcs_def)
  then show ?thesis unfolding drains_def by (intro exI [of _ "[]"] exI [of _ l]) (simp add: loop_nil)
next
  case todo: False
  have poll: "drains k" if "loop_pc k = Polling" "wakeup_count k \<noteq> 0" "loop_inv k" for k :: "'a EventLoop"
  proof -
    let ?k = "k\<lparr>loop_pc := Handling True\<rparr>"
    have "loop_inv ?k" using that by (simp add: loop_inv_def)
    then have "drains ?k" by (intro drains_Handling [of _ True]) simp_all
    then show ?thesis using drains_step [of "L_Poll True" k ?k] that by (simp add: all_funcs_def)
  qed
  show ?thesis
  proof (cases "wakeup_count l = 0")
    case True
    then obtain t ws where w: "wakers l = t # ws" using assms todo by (cases "wakers l") (auto simp: loop_inv_def)
    let ?l = "l\<lparr>wakeup_count := 1, wakers := ws\<rparr>"
    have "loop_exec (L_Wake t) l = Inr ?l" using True w by (simp add: wakeup_def eventfd_max_def)
    moreover have "drains ?l" using assms by (intro poll) (simp_all add: loop_inv_def)
    ultimately show ?thesis using drains_step [of "L_Wake t" l ?l] w by (simp add: all_funcs_def)
  qed (use poll assms in simp)
qed

lemma drains_always:
  assumes "loop_inv l"
  shows "drains l"
proof (cases "loop_pc l")
  case (Running fs)
  let ?k = "l\<lparr>loop_pc := Running [], executed := executed l @ fs\<rparr>"
  have run: "loop_run l (replicate (length fs) L_Run) ?k" by (rule run_taken [OF Running])
  then have inv: "loop_inv ?k" using loop_run_inv [OF run assms] by simp
  then have "loop_inv (finish_functors ?k)" by (auto simp: loop_inv_def finish_functors_def)
  then have "drains (finish_functors ?k)" by (intro drains_Polling) (simp_all add: finish_functors_def)
  then have "drains ?k"
    using drains_step [of L_Finish ?k "finish_functors ?k"] by (simp add: finish_functors_def all_funcs_def)
  then show ?thesis using drains_run [OF run] Running by (simp add: all_funcs_def)
qed (use assms drains_Polling drains_Handling in auto)

lemma reachable_loop:
  assumes "loop_run (EventLoop_ctor t fd thread) xs l"
  shows "loop_inv l" "all_funcs l = concat (map step_funcs xs)" "wakeup_count l \<le> length xs"
  using loop_run_inv [OF assms EventLoop_ctor_inv(1)] EventLoop_ctor_inv(2,3) by (metis append_Nil add_0)+

text \<open>Running a list of steps\<close>

fun loop_go :: "'f loop_step list \<Rightarrow> 'f EventLoop \<Rightarrow> 'f EventLoop option" where
  "loop_go [] l = Some l"
| "loop_go (x # xs) l =
     (if loop_enabled x l then (case loop_exec x l of Inr l1 \<Rightarrow> loop_go xs l1 | Inl e \<Rightarrow> None) else None)"

lemma loop_go_run: "loop_go xs l = Some l' \<Longrightarrow> loop_run l xs l'"
  by (induction xs arbitrary: l) (auto intro: loop_run.intros split: if_splits sum.splits)

section \<open>Properties of the loop\<close>

text \<open>Every function handed to a loop is run exactly once, in the order of the pushes, in every
  interleaving of the threads: at any time those that were run, those that have been taken and those
  that are waiting are together, in this order, the functions that were pushed.\<close>

lemma functions_run_once_in_order:
  assumes "loop_run (EventLoop_ctor t fd thread) xs l"
  shows "executed l @ taken (loop_pc l) @ to_do_list l = concat (map step_funcs xs)"
  using reachable_loop(2) [OF assms] by (simp add: all_funcs_def)

lemma functions_run_once_in_order_witness:
  "\<exists>l. loop_run (EventLoop_ctor False 3 1)
         [L_Push 2 ''a'', L_Wake 2, L_Poll True, L_Push 3 ''b'', L_Wakeup, L_Queue ''c'', L_Take, L_Run, L_Push 2 ''d''] l
     \<and> executed l @ taken (loop_pc l) @ to_do_list l = [''a'', ''b'', ''c'', ''d''] \<and> executed l = [''a'']"
proof -
  let ?xs = "[L_Push 2 ''a'', L_Wake 2, L_Poll True, L_Push 3 ''b'', L_Wakeup, L_Queue ''c'', L_Take, L_Run, L_Push 2 ''d'']"
  have "map_option executed (loop_go ?xs (EventLoop_ctor False 3 1)) = Some [''a'']" by code_simp
  then obtain l where l: "loop_go ?xs (EventLoop_ctor False 3 1) = Some l" "executed l = [''a'']" by blast
  then show ?thesis using functions_run_once_in_order [OF loop_go_run [OF l(1)]] loop_go_run [OF l(1)] by auto
qed

text \<open>C9: A wakeup is never lost: whenever the loop is waiting for events while functions are on its list,
  its wakeup descriptor is readable or a thread that pushed is just about to write to it; and in no
  interleaving does an assertion of the loop fail, as long as fewer than \<open>2 ^ 64 - 2\<close> steps are made.\<close>

theorem no_lost_wakeup:
  assumes "loop_run (EventLoop_ctor t fd thread) xs l" and "loop_enabled x l" and "int (length xs) < eventfd_max"
  shows "(loop_pc l = Polling \<and> to_do_list l \<noteq> [] \<longrightarrow> wakeup_count l \<noteq> 0 \<or> wakers l \<noteq> [])
     \<and> (\<exists>l'. loop_exec x l = Inr l')"
proof -
  have "loop_inv l" "int (wakeup_count l) < eventfd_max" using reachable_loop [OF assms(1)] assms(3) by auto
  with loop_exec_total [OF _ assms(2)] show ?thesis by (auto simp: loop_inv_def)
qed

theorem no_lost_wakeup_witness:
  "\<exists>l. loop_run (EventLoop_ctor False 3 1) [L_Poll False, L_Take, L_Push 2 ''a'', L_Finish] l
     \<and> loop_pc l = Polling \<and> to_do_list l \<noteq> [] \<and> (wakeup_count l \<noteq> 0 \<or> wakers l \<noteq> [])"
proof -
  let ?xs = "[L_Poll False, L_Take, L_Push 2 ''a'', L_Finish]"
  have "case loop_go ?xs (EventLoop_ctor False 3 1) of
      Some l \<Rightarrow> (case loop_pc l of Polling \<Rightarrow> True | _ \<Rightarrow> False) \<and> to_do_list l \<noteq> [] \<and> wakers l = [2] | None \<Rightarrow> False" by code_simp
  then obtain l where l: "loop_go ?xs (EventLoop_ctor False 3 1) = Some l" "loop_pc l = Polling" "to_do_list l \<noteq> []" "wakers l = [2]"
    by (auto split: option.splits loop_pc.splits)
  have "loop_enabled (L_Wake 2) l" using l(4) by simp
  from no_lost_wakeup [OF loop_go_run [OF l(1)] this] l loop_go_run [OF l(1)] show ?thesis
    by (auto simp: eventfd_max_def)
qed

text \<open>C8: No function waits for ever: from every state of every interleaving there is a way to run all the
  functions handed over so far that takes only steps of the loop's own thread and the writes other
  threads have already begun: no new function, no event of another descriptor is needed.\<close>

theorem every_function_gets_run:
  assumes "loop_run (EventLoop_ctor t fd thread) xs l"
  shows "\<exists>ys l'. loop_run l ys l' \<and> (\<forall>y \<in> set ys. own_step y) \<and> executed l' = concat (map step_funcs xs)"
proof -
  have "drains l" "all_funcs l = concat (map step_funcs xs)" using reachable_loop [OF assms] drains_always by auto
  then show ?thesis unfolding drains_def by auto
qed

theorem every_function_gets_run_witness:
  "\<exists>l ys l'. loop_run (EventLoop_ctor False 3 1) [L_Poll False, L_Take, L_Push 2 ''a'', L_Finish, L_Push 4 ''b''] l
     \<and> loop_run l ys l' \<and> (\<forall>y \<in> set ys. own_step y) \<and> executed l' = [''a'', ''b'']"
proof -
  let ?xs = "[L_Poll False, L_Take, L_Push 2 ''a'', L_Finish, L_Push 4 ''b'']"
  have "loop_go ?xs (EventLoop_ctor False 3 1) \<noteq> None" by code_simp
  then obtain l where l: "loop_go ?xs (EventLoop_ctor False 3 1) = Some l" by blast
  from every_function_gets_run [OF loop_go_run [OF l]] loop_go_run [OF l] show ?thesis by auto
qed

section \<open>The list of functions as a queue\<close>

text \<open>What the users of a loop rely on: a queue to which functions are added and from which the first is
  run. The steps of a loop as operations of the queue; all others do not change it.\<close>

datatype 'f queue_op = Put 'f | Run 'f

fun queue_exec :: "'f queue_op list \<Rightarrow> 'f list \<Rightarrow> 'f list option" where
  "queue_exec [] q = Some q"
| "queue_exec (Put f # ops) q = queue_exec ops (q @ [f])"
| "queue_exec (Run f # ops) [] = None"
| "queue_exec (Run f # ops) (g # q) = (if f = g then queue_exec ops q else None)"

fun queue_view :: "'f loop_step \<Rightarrow> 'f EventLoop \<Rightarrow> 'f queue_op list" where
  "queue_view (L_Push t f) l = [Put f]"
| "queue_view (L_Queue f) l = [Put f]"
| "queue_view L_Run l = (case loop_pc l of Running (f # fs) \<Rightarrow> [Run f] | _ \<Rightarrow> [])"
| "queue_view _ l = []"

fun run_view :: "'f loop_step list \<Rightarrow> 'f EventLoop \<Rightarrow> 'f queue_op list" where
  "run_view [] l = []"
| "run_view (x # xs) l = queue_view x l @ (case loop_exec x l of Inr l1 \<Rightarrow> run_view xs l1 | Inl e \<Rightarrow> [])"

definition waiting :: "'f EventLoop \<Rightarrow> 'f list" where
  "waiting l = taken (loop_pc l) @ to_do_list l"

fun puts :: "'f queue_op list \<Rightarrow> 'f list" where
  "puts [] = []"
| "puts (Put f # ops) = f # puts ops"
| "puts (Run f # ops) = puts ops"

fun runs :: "'f queue_op list \<Rightarrow> 'f list" where
  "runs [] = []"
| "runs (Put f # ops) = runs ops"
| "runs (Run f # ops) = f # runs ops"

lemma puts_append [simp]: "puts (a @ b) = puts a @ puts b"
  by (induction a rule: puts.induct) simp_all

lemma runs_append [simp]: "runs (a @ b) = runs a @ runs b"
  by (induction a rule: runs.induct) simp_all

lemma queue_exec_append:
  "queue_exec (a @ b) q = (case queue_exec a q of None \<Rightarrow> None | Some q1 \<Rightarrow> queue_exec b q1)"
  by (induction a q rule: queue_exec.induct) simp_all

text \<open>One step: the view of the state after it is the queue after its operations.\<close>

lemma wakeup_keeps:
  "wakeup l = Inr l1 \<Longrightarrow> to_do_list l1 = to_do_list l \<and> loop_pc l1 = loop_pc l \<and> executed l1 = executed l"
  by (auto simp: wakeup_def result_simps)

lemma QueueOneFunc_adds:
  assumes "QueueOneFunc thread f l = Inr l1"
  shows "to_do_list l1 = to_do_list l @ [f] \<and> loop_pc l1 = loop_pc l \<and> executed l1 = executed l"
proof -
  have p: "to_do_list (push_func f l) = to_do_list l @ [f]" "loop_pc (push_func f l) = loop_pc l" "executed (push_func f l) = executed l"
    by (simp_all add: push_func_def)
  show ?thesis
    using assms p wakeup_keeps [of "push_func f l" l1] by (simp add: QueueOneFunc_def Let_def split: if_splits)
qed

lemma pending_step:
  assumes "loop_enabled x l" and "loop_exec x l = Inr l1"
  shows "queue_exec (queue_view x l) (waiting l) = Some (waiting l1) \<and> puts (queue_view x l) = step_funcs x
     \<and> executed l1 = executed l @ runs (queue_view x l)"
proof (cases x)
  case (L_Wake t)
  then obtain l2 where "wakeup l = Inr l2" "l1 = l2\<lparr>wakers := remove1 t (wakers l2)\<rparr>"
    using assms(2) by (auto simp: result_simps)
  then show ?thesis using L_Wake wakeup_keeps [of l l2] by (simp add: waiting_def)
next
  case (L_Queue f)
  then show ?thesis using assms(2) QueueOneFunc_adds [of "tid l" f l l1] by (simp add: waiting_def)
next
  case L_Wakeup
  then show ?thesis using assms by (auto simp: waiting_def HandleRead_wakeup_def result_simps)
next
  case L_Run
  then obtain f fs where "loop_pc l = Running (f # fs)" using assms(1) by (auto split: loop_pc.splits simp: neq_Nil_conv)
  then show ?thesis using L_Run assms(2) by (auto simp: waiting_def)
qed (use assms in \<open>auto simp: waiting_def push_func_def take_functors_def finish_functors_def\<close>)

lemma pending_run:
  "loop_run l xs l' \<Longrightarrow> queue_exec (run_view xs l) (waiting l) = Some (waiting l')
     \<and> puts (run_view xs l) = concat (map step_funcs xs) \<and> executed l' = executed l @ runs (run_view xs l)"
proof (induction rule: loop_run.induct)
  case (loop_cons x l l1 xs l2)
  then show ?case using pending_step [OF loop_cons.hyps(1,2)] by (simp add: queue_exec_append)
qed simp

text \<open>C10: A loop implements a first-in first-out queue of functions: in every interleaving of its steps with
  those of other threads, the functions taken and not yet run, followed by those on the list, are the
  state of a queue that is empty at first, to which each push adds at the end and from which each call
  takes the first; the functions pushed and those run are those added to and taken from the queue.\<close>

theorem loop_refines_queue:
  assumes "loop_run (EventLoop_ctor t fd thread) xs l"
  shows "queue_exec (run_view xs (EventLoop_ctor t fd thread)) [] = Some (taken (loop_pc l) @ to_do_list l)
     \<and> puts (run_view xs (EventLoop_ctor t fd thread)) = concat (map step_funcs xs)
     \<and> runs (run_view xs (EventLoop_ctor t fd thread)) = executed l"
  using pending_run [OF assms] by (simp add: waiting_def EventLoop_ctor_def split: prod.splits)

theorem loop_refines_queue_witness:
  "\<exists>l. loop_run (EventLoop_ctor False 3 1)
         [L_Push 2 ''a'', L_Wake 2, L_Poll True, L_Push 3 ''b'', L_Wakeup, L_Queue ''c'', L_Take, L_Run, L_Push 2 ''d''] l
     \<and> queue_exec [Put ''a'', Put ''b'', Put ''c'', Run ''a'', Put ''d''] [] = Some (taken (loop_pc l) @ to_do_list l)
     \<and> executed l = [''a'']"
proof -
  let ?xs = "[L_Push 2 ''a'', L_Wake 2, L_Poll True, L_Push 3 ''b'', L_Wakeup, L_Queue ''c'', L_Take, L_Run, L_Push 2 ''d'']"
  have "loop_go ?xs (EventLoop_ctor False 3 1) \<noteq> None" by code_simp
  then obtain l where l: "loop_run (EventLoop_ctor False 3 1) ?xs l" using loop_go_run by blast
  have v: "run_view ?xs (EventLoop_ctor False 3 1) = [Put ''a'', Put ''b'', Put ''c'', Run ''a'', Put ''d'']" by code_simp
  note t = loop_refines_queue [OF l, unfolded v]
  then have "executed l = [''a'']" by simp
  with t l show ?thesis by blast
qed

end
