(* ===== verification/IdleTimeout.thy ===== *)
theory IdleTimeout
  imports HttpServer EventLoop
begin

text \<open>
  Closing idle connections: \<open>HttpServer::onConnection\<close> and \<open>HttpServer::HandleActiveClose\<close> of
  \<open>http/HttpServer.cpp\<close>, over the timers of the connection's loop. The callback of such a timer holds a
  weak pointer to the connection: it is the number of an entry in a map of the connections that are
  still alive. The theory shows that every open connection always has a timer, and that a timer that
  finds its connection idle for too long closes it.
\<close>

section \<open>Handlers\<close>

type_synonym 'w served = "'w HttpServer \<times> (nat \<rightharpoonup> TcpConnection)"

definition HandleActiveClose ::
    "tq_env \<Rightarrow> nat \<Rightarrow> 'w served \<times> nat TimerQueue \<Rightarrow> ('w served \<times> nat TimerQueue) result" where
  "HandleActiveClose e conn = (\<lambda>((s, conns), q).
     case conns conn of
       None \<Rightarrow> Inr ((s, conns), q)
     | Some sp \<Rightarrow>
         bindE (AddSec (rounds e) (act_time sp) (timeout s)) (\<lambda>limit.
         bindE (read_clock e q) (\<lambda>(now, q1).
         if ts_less limit now then Inr ((s, conns(conn \<mapsto> HandleClose sp)), q1)
         else bindE (RunAfter e (timeout s) conn q1) (\<lambda>q2. Inr ((s, conns), q2)))))"

text \<open>The timer goes to the loop of the connection. (The log line is left out.)\<close>

definition onConnection ::
    "tq_env \<Rightarrow> nat \<Rightarrow> 'w served \<times> nat TimerQueue \<Rightarrow> ('w served \<times> nat TimerQueue) result" where
  "onConnection e conn = (\<lambda>((s, conns), q).
     if auto_close_conn s then bindE (RunAfter e (timeout s) conn q) (\<lambda>q1. Inr ((s, conns), q1))
     else Inr ((s, conns), q))"

section \<open>The callbacks keep the queue\<close>

text \<open>A timeout and times of activity that are far from the limits\<close>

definition served_ok :: "tq_env \<Rightarrow> 'w served \<Rightarrow> bool" where
  "served_ok e = (\<lambda>(s, conns). 0 \<le> rounds e (timeout s * 1000000) \<and> rounds e (timeout s * 1000000) \<le> 10 ^ 18
     \<and> (\<forall>n c. conns n = Some c \<longrightarrow> 0 \<le> micro_seconds (act_time c) \<and> micro_seconds (act_time c) \<le> 4 * 10 ^ 18))"

definition wait_us :: "tq_env \<Rightarrow> real \<Rightarrow> int" where
  "wait_us e s = \<lfloor>rounds e (s * 1000000)\<rfloor>"

lemma AddSec_ok:
  assumes "0 \<le> rounds e (s * 1000000)" "rounds e (s * 1000000) \<le> 10 ^ 18"
    and "0 \<le> micro_seconds t" "micro_seconds t \<le> 4 * 10 ^ 18"
  shows "AddSec (rounds e) t s = Inr (TimerStamp_ctor (micro_seconds t + wait_us e s))"
    and "0 \<le> wait_us e s" "wait_us e s \<le> 10 ^ 18"
proof -
  show d: "0 \<le> wait_us e s" "wait_us e s \<le> 10 ^ 18" using assms(1,2) by (auto simp: wait_us_def floor_le_iff)
  have "double_to_int64 (rounds e (s * 1000000)) = Inr (wait_us e s)"
    using assms(1) d by (auto simp: double_to_int64_def wait_us_def intro!: int64_expr_ok)
  moreover have "int64_expr (micro_seconds t + wait_us e s) = Inr (micro_seconds t + wait_us e s)"
    using assms(3,4) d by (intro int64_expr_ok) simp_all
  ultimately show "AddSec (rounds e) t s = Inr (TimerStamp_ctor (micro_seconds t + wait_us e s))"
    by (simp add: AddSec_def)
qed

text \<open>A timer for a connection is in the queue.\<close>

definition pending :: "nat TimerQueue \<Rightarrow> nat \<Rightarrow> bool" where
  "pending q conn \<longleftrightarrow> (\<exists>(ts, p) \<in> set (timers q). \<exists>t. timer_heap q p = Some t \<and> callback t = conn)"

lemma RunAfter_ok:
  assumes "tq_env_ok e" and "tq_inv e A q" and "0 \<le> rounds e (s * 1000000)" "rounds e (s * 1000000) \<le> 10 ^ 18"
  shows "\<exists>q'. RunAfter e s conn q = Inr q' \<and> tq_inv e A q' \<and> (armed q \<longrightarrow> armed q')
     \<and> active_timers q' = active_timers q \<and> set (timers q) \<subseteq> set (timers q')
     \<and> (\<forall>p \<in> dom (timer_heap q). timer_heap q' p = timer_heap q p) \<and> pending q' conn"
proof -
  obtain now where now: "read_clock e q = Inr (now, q\<lparr>clock_reads := clock_reads q + 1\<rparr>)"
      "0 \<le> micro_seconds now" "micro_seconds now \<le> 4 * 10 ^ 18"
    using read_clock_ok [OF assms(1)] by blast
  note a = AddSec_ok [OF assms(3,4) now(2,3)]
  let ?ts = "TimerStamp_ctor (micro_seconds now + wait_us e s)" and ?q = "q\<lparr>clock_reads := clock_reads q + 1\<rparr>"
  have t: "timer_ok e (Timer_ctor ?ts conn 0)"
    using a(2,3) now by (simp add: timer_ok_def Timer_ctor_def TimerStamp_ctor_def)
  have inv: "tq_inv e A ?q" using assms(2) tq_inv_cong [of ?q q e A] by simp
  obtain q' p where q': "AddTimer e ?ts conn 0 ?q = Inr q'" "tq_inv e A q'" "armed ?q \<longrightarrow> armed q'"
      "timers q' = insort (?ts, p) (timers ?q)" "active_timers q' = active_timers ?q"
      "timer_heap q' = (timer_heap ?q)(p \<mapsto> Timer_ctor ?ts conn 0)" "timer_heap ?q p = None"
    using AddTimer_ok [OF assms(1) inv t] by blast
  have "pending q' conn" using q'(4,6) by (auto simp: pending_def set_insort_key Timer_ctor_def)
  moreover have "armed ?q = armed q" by (simp add: armed_def split: list.split)
  ultimately show ?thesis
    using q' now(1) a(1) by (intro exI [of _ q']) (auto simp: RunAfter_def set_insort_key)
qed

lemma RunAfter_reads: "RunAfter e s cb q = Inr q' \<Longrightarrow> clock_reads q \<le> clock_reads q'"
  by (auto simp: RunAfter_def AddTimer_def Insert_def ResetTimerFd_def timer_at_def read_clock_def Let_def result_simps
      split: option.splits if_splits)

text \<open>What a callback does to the connections and the queue\<close>

lemma HandleActiveClose_spec:
  assumes "tq_env_ok e" and "tq_inv e A q" and "served_ok e (s, conns)"
  shows "\<exists>conns' q'. HandleActiveClose e conn ((s, conns), q) = Inr ((s, conns'), q') \<and> served_ok e (s, conns')
     \<and> tq_inv e A q' \<and> active_timers q' = active_timers q \<and> set (timers q) \<subseteq> set (timers q')
     \<and> (\<forall>p \<in> dom (timer_heap q). timer_heap q' p = timer_heap q p)
     \<and> clock_reads q \<le> clock_reads q' \<and> dom conns' = dom conns
     \<and> (\<forall>n. n \<noteq> conn \<longrightarrow> conns' n = conns n)
     \<and> (\<forall>c. conns conn = Some c \<longrightarrow>
          (\<exists>now. Now (readings e (clock_reads q)) = Inr now
             \<and> (if micro_seconds (act_time c) + wait_us e (timeout s) < micro_seconds now
                then conns' conn = Some (HandleClose c) else conns' conn = Some c \<and> pending q' conn)))"
proof (cases "conns conn")
  case None
  then show ?thesis using assms(2,3) by (intro exI [of _ conns] exI [of _ q]) (simp add: HandleActiveClose_def)
next
  case (Some c)
  have sv: "0 \<le> rounds e (timeout s * 1000000)" "rounds e (timeout s * 1000000) \<le> 10 ^ 18"
      "0 \<le> micro_seconds (act_time c)" "micro_seconds (act_time c) \<le> 4 * 10 ^ 18"
    using assms(3) Some by (auto simp: served_ok_def)
  note a = AddSec_ok [OF sv]
  let ?q = "q\<lparr>clock_reads := clock_reads q + 1\<rparr>"
  obtain now where now: "read_clock e q = Inr (now, ?q)" "Now (readings e (clock_reads q)) = Inr now"
    using read_clock_ok [OF assms(1)] by blast
  have inv: "tq_inv e A ?q" using assms(2) tq_inv_cong [of ?q q e A] by simp
  show ?thesis
  proof (cases "micro_seconds (act_time c) + wait_us e (timeout s) < micro_seconds now")
    case True
    have "served_ok e (s, conns(conn \<mapsto> HandleClose c))" using assms(3) Some by (auto simp: served_ok_def)
    then show ?thesis using True Some a(1) now inv
      by (intro exI [of _ "conns(conn \<mapsto> HandleClose c)"] exI [of _ ?q])
        (auto simp: HandleActiveClose_def ts_less_def TimerStamp_ctor_def)
  next
    case False
    obtain q' where q': "RunAfter e (timeout s) conn ?q = Inr q'" "tq_inv e A q'"
        "active_timers q' = active_timers ?q" "set (timers ?q) \<subseteq> set (timers q')"
        "\<forall>p \<in> dom (timer_heap ?q). timer_heap q' p = timer_heap ?q p" "pending q' conn"
      using RunAfter_ok [OF assms(1) inv sv(1,2)] by blast
    have "clock_reads q \<le> clock_reads q'" using RunAfter_reads [OF q'(1)] by simp
    then show ?thesis using False Some a(1) now q' assms(3)
      by (intro exI [of _ conns] exI [of _ q'])
        (simp add: HandleActiveClose_def ts_less_def TimerStamp_ctor_def)
  qed
qed

interpretation idle_timer: timer_callbacks HandleActiveClose served_ok
proof
  fix e A cb and q :: "nat TimerQueue" and w :: "'w served"
  assume a: "tq_env_ok e" "tq_inv e A q" "served_ok e w"
  obtain s conns where w: "w = (s, conns)" by (cases w)
  have "A \<subseteq> dom (timer_heap q)" using a(2) by (simp add: tq_inv_def)
  with HandleActiveClose_spec [OF a(1,2) a(3) [unfolded w], of cb]
  show "\<exists>w' q'. HandleActiveClose e cb (w, q) = Inr (w', q') \<and> served_ok e w' \<and> tq_inv e A q'
      \<and> active_timers q' = active_timers q \<and> set (timers q) \<subseteq> set (timers q')
      \<and> (\<forall>p \<in> A. timer_heap q' p = timer_heap q p)"
    unfolding w by blast
qed

section \<open>A round of callbacks\<close>

text \<open>A connection that is closed or gone; one that will be found idle for too long by any reading of the
  clock from the \<open>n\<close>-th on\<close>

definition shut :: "(nat \<rightharpoonup> TcpConnection) \<Rightarrow> nat \<Rightarrow> bool" where
  "shut conns k \<longleftrightarrow> (\<forall>c. conns k = Some c \<longrightarrow> conn_state c = Disconected)"

definition idle_too_long :: "tq_env \<Rightarrow> 'w HttpServer \<Rightarrow> nat \<Rightarrow> TcpConnection \<Rightarrow> bool" where
  "idle_too_long e s n c \<longleftrightarrow> (\<forall>m t. n \<le> m \<longrightarrow> Now (readings e m) = Inr t \<longrightarrow>
     micro_seconds (act_time c) + wait_us e (timeout s) < micro_seconds t)"

lemma pending_mono:
  assumes "pending q k" "tq_inv e A q" "set (timers q) \<subseteq> set (timers q')"
    "\<forall>p \<in> dom (timer_heap q). timer_heap q' p = timer_heap q p"
  shows "pending q' k"
proof -
  obtain ts p t where "(ts, p) \<in> set (timers q)" "timer_heap q p = Some t" "callback t = k"
    using assms(1) by (auto simp: pending_def)
  then have "(ts, p) \<in> set (timers q')" "timer_heap q' p = Some t" using assms(3,4) by (auto simp: dom_def)
  then show ?thesis using \<open>callback t = k\<close> by (auto simp: pending_def)
qed

lemma HandleActiveClose_round:
  assumes "tq_env_ok e"
  shows "tq_inv e A q \<Longrightarrow> served_ok e (s, conns) \<Longrightarrow>
     \<exists>conns' q'. foldE (HandleActiveClose e) cs ((s, conns), q) = Inr ((s, conns'), q')
       \<and> tq_inv e A q' \<and> served_ok e (s, conns') \<and> clock_reads q \<le> clock_reads q'
       \<and> (\<forall>k. pending q k \<longrightarrow> pending q' k) \<and> (\<forall>k. shut conns k \<longrightarrow> shut conns' k)
       \<and> (\<forall>k \<in> set cs. shut conns' k \<or> pending q' k)
       \<and> (\<forall>k \<in> set cs. \<forall>c. conns k = Some c \<longrightarrow> idle_too_long e s (clock_reads q) c \<longrightarrow> shut conns' k)
       \<and> (\<forall>k. k \<notin> set cs \<longrightarrow> conns' k = conns k) \<and> (\<forall>k. conns' k = conns k \<or> shut conns' k)"
proof (induction cs arbitrary: conns q)
  case (Cons k cs)
  obtain conns1 q1 where 1: "HandleActiveClose e k ((s, conns), q) = Inr ((s, conns1), q1)" "served_ok e (s, conns1)"
     "tq_inv e A q1" "set (timers q) \<subseteq> set (timers q1)" "\<forall>p \<in> dom (timer_heap q). timer_heap q1 p = timer_heap q p"
     "clock_reads q \<le> clock_reads q1" "dom conns1 = dom conns" "\<forall>n. n \<noteq> k \<longrightarrow> conns1 n = conns n"
     "\<forall>c. conns k = Some c \<longrightarrow> (\<exists>now. Now (readings e (clock_reads q)) = Inr now
             \<and> (if micro_seconds (act_time c) + wait_us e (timeout s) < micro_seconds now
                then conns1 k = Some (HandleClose c) else conns1 k = Some c \<and> pending q1 k))"
    using HandleActiveClose_spec [OF assms Cons.prems, of k] by blast
  obtain conns' q' where 2: "foldE (HandleActiveClose e) cs ((s, conns1), q1) = Inr ((s, conns'), q')"
     "tq_inv e A q'" "served_ok e (s, conns')" "clock_reads q1 \<le> clock_reads q'"
     "\<forall>k. pending q1 k \<longrightarrow> pending q' k" "\<forall>k. shut conns1 k \<longrightarrow> shut conns' k"
     "\<forall>k \<in> set cs. shut conns' k \<or> pending q' k"
     "\<forall>k \<in> set cs. \<forall>c. conns1 k = Some c \<longrightarrow> idle_too_long e s (clock_reads q1) c \<longrightarrow> shut conns' k"
     "\<forall>k. k \<notin> set cs \<longrightarrow> conns' k = conns1 k" "\<forall>k. conns' k = conns1 k \<or> shut conns' k"
    using Cons.IH [OF 1(3,2)] by blast
  have p: "pending q j \<longrightarrow> pending q1 j" for j using pending_mono [OF _ Cons.prems(1) 1(4,5)] by blast
  have none: "conns k = None \<longrightarrow> conns1 k = None" using 1(7) by (metis domIff)
  have cl: "shut conns j \<longrightarrow> shut conns1 j" for j
    using 1(8,9) none by (cases "j = k") (auto simp: shut_def split: if_splits)
  have head: "shut conns1 k \<or> pending q1 k" using 1(9) none by (cases "conns k") (auto simp: shut_def split: if_splits)
  have idle: "shut conns1 k" if h: "conns k = Some c" "idle_too_long e s (clock_reads q) c" for c
  proof -
    obtain now where now: "Now (readings e (clock_reads q)) = Inr now"
      "if micro_seconds (act_time c) + wait_us e (timeout s) < micro_seconds now
       then conns1 k = Some (HandleClose c) else conns1 k = Some c \<and> pending q1 k"
      using 1(9) h(1) by blast
    moreover have "micro_seconds (act_time c) + wait_us e (timeout s) < micro_seconds now"
      using h(2) now(1) unfolding idle_too_long_def by (meson order_refl)
    ultimately show ?thesis by (simp add: shut_def)
  qed
  have later: "idle_too_long e s (clock_reads q) c \<longrightarrow> idle_too_long e s (clock_reads q1) c" for c
    using 1(6) unfolding idle_too_long_def by (meson le_trans)
  have "shut conns' j" if "j \<in> set (k # cs)" "conns j = Some c" "idle_too_long e s (clock_reads q) c" for j c
    using that idle later 1(8) 2(6,8) by (cases "j = k") auto
  moreover have "shut conns' j \<or> pending q' j" if "j \<in> set (k # cs)" for j
    using that head 2(5,6,7) by auto
  moreover have "pending q j \<longrightarrow> pending q' j" "shut conns j \<longrightarrow> shut conns' j" for j using p cl 2(5,6) by blast+
  moreover have "conns' j = conns j \<or> shut conns' j" for j
  proof (cases "j = k")
    case True
    have "conns1 k = conns k \<or> shut conns1 k" using 1(9) none by (cases "conns k") (auto simp: shut_def split: if_splits)
    then show ?thesis using True 2(6) spec [OF 2(10), of k] by (elim disjE) simp_all
  next
    case False
    then show ?thesis using 1(8) spec [OF 2(10), of j] by simp
  qed
  ultimately show ?case using 1(1,6,8) 2(1-4,9) by (intro exI [of _ conns'] exI [of _ q']) auto
qed auto

section \<open>The server's connections and their timers\<close>

text \<open>What happens to a loop's connections: a new one is set up, one receives a message (which records the
  time), one is closed by its peer or by a handler, one is destroyed, the timer descriptor is
  readable.\<close>

datatype served_op = Sv_New nat TcpConnection | Sv_Message nat TimerStamp | Sv_Close nat | Sv_Gone nat | Sv_Timer

fun served_exec :: "tq_env \<Rightarrow> served_op \<Rightarrow> 'w served \<times> nat TimerQueue \<Rightarrow> ('w served \<times> nat TimerQueue) result" where
  "served_exec e (Sv_New k c) ((s, conns), q) = onConnection e k ((s, conns(k \<mapsto> c)), q)"
| "served_exec e (Sv_Message k t) ((s, conns), q) =
     Inr ((s, case conns k of Some c \<Rightarrow> conns(k \<mapsto> SetActTime t c) | None \<Rightarrow> conns), q)"
| "served_exec e (Sv_Close k) ((s, conns), q) =
     Inr ((s, case conns k of Some c \<Rightarrow> conns(k \<mapsto> HandleClose c) | None \<Rightarrow> conns), q)"
| "served_exec e (Sv_Gone k) ((s, conns), q) = Inr ((s, conns(k := None)), q)"
| "served_exec e Sv_Timer ((s, conns), q) = HandleRead e (HandleActiveClose e) ((s, conns), q)"

fun served_op_ok :: "served_op \<Rightarrow> bool" where
  "served_op_ok (Sv_New k c) \<longleftrightarrow> 0 \<le> micro_seconds (act_time c) \<and> micro_seconds (act_time c) \<le> 4 * 10 ^ 18"
| "served_op_ok (Sv_Message k t) \<longleftrightarrow> 0 \<le> micro_seconds t \<and> micro_seconds t \<le> 4 * 10 ^ 18"
| "served_op_ok _ \<longleftrightarrow> True"

definition served_inv :: "tq_env \<Rightarrow> 'w served \<Rightarrow> nat TimerQueue \<Rightarrow> bool" where
  "served_inv e = (\<lambda>(s, conns) q. served_ok e (s, conns) \<and> auto_close_conn s \<and> tq_inv e {} q \<and> armed q
     \<and> (\<forall>k. shut conns k \<or> pending q k))"

lemma pending_started:
  assumes "pending q k" and "k \<notin> set (due_callbacks now q)"
  shows "pending (started now q) k"
proof -
  obtain ts p t where t: "(ts, p) \<in> set (timers q)" "timer_heap q p = Some t" "callback t = k"
    using assms(1) by (auto simp: pending_def)
  have "(ts, p) \<notin> set (takeWhile (\<lambda>(ts, p). ts \<le> now) (timers q))"
  proof
    assume "(ts, p) \<in> set (takeWhile (\<lambda>(ts, p). ts \<le> now) (timers q))"
    then have "callback (the (timer_heap q p)) \<in> set (due_callbacks now q)" by (force simp: due_callbacks_def)
    then show False using t(2,3) assms(2) by simp
  qed
  then have "(ts, p) \<in> set (dropWhile (\<lambda>(ts, p). ts \<le> now) (timers q))"
    using t(1) by (metis Un_iff set_append takeWhile_dropWhile_id)
  then show ?thesis using t(2,3) by (force simp: pending_def started_def take_due_def Let_def)
qed

lemma shut_simps:
  "shut (conns(k := None)) j \<longleftrightarrow> j = k \<or> shut conns j"
  "shut conns j \<Longrightarrow> shut (case conns k of Some c \<Rightarrow> conns(k \<mapsto> HandleClose c) | None \<Rightarrow> conns) j"
  "shut conns j \<Longrightarrow> shut (case conns k of Some c \<Rightarrow> conns(k \<mapsto> SetActTime t c) | None \<Rightarrow> conns) j"
  by (auto simp: shut_def SetActTime_def split: option.split)

text \<open>One reading of the timer descriptor\<close>

lemma timer_round:
  assumes "tq_env_ok e" and "served_ok e (s, conns)" and "tq_inv e {} q"
  shows "\<exists>conns' q' now. HandleRead e (HandleActiveClose e) ((s, conns), q) = Inr ((s, conns'), q')
     \<and> served_ok e (s, conns') \<and> tq_inv e {} q' \<and> armed q' \<and> Now (readings e (clock_reads q)) = Inr now
     \<and> (\<forall>k. shut conns k \<longrightarrow> shut conns' k) \<and> (\<forall>k. pending q k \<longrightarrow> shut conns' k \<or> pending q' k)
     \<and> (\<forall>k \<in> set (due_callbacks now q). \<forall>c. conns k = Some c \<longrightarrow> idle_too_long e s (clock_reads q + 1) c \<longrightarrow> shut conns' k)
     \<and> (\<forall>k. k \<notin> set (due_callbacks now q) \<longrightarrow> conns' k = conns k) \<and> (\<forall>k. conns' k = conns k \<or> shut conns' k)"
proof -
  obtain now w' q' q3 where h: "Now (readings e (clock_reads q)) = Inr now"
      "HandleRead e (HandleActiveClose e) ((s, conns), q) = Inr (w', q')" "served_ok e w'" "tq_inv e {} q'" "armed q'"
      "foldE (HandleActiveClose e) (due_callbacks now q) ((s, conns), started now q) = Inr (w', q3)"
      "\<forall>(ts, p) \<in> set (timers q3). (ts, p) \<in> set (timers q') \<and> timer_heap q' p = timer_heap q3 p"
    using idle_timer.HandleRead_ok [OF assms(1,3,2)] by blast
  obtain conns' where r: "w' = (s, conns')" "\<forall>k. pending (started now q) k \<longrightarrow> pending q3 k"
      "\<forall>k. shut conns k \<longrightarrow> shut conns' k" "\<forall>k \<in> set (due_callbacks now q). shut conns' k \<or> pending q3 k"
      "\<forall>k \<in> set (due_callbacks now q). \<forall>c. conns k = Some c \<longrightarrow> idle_too_long e s (clock_reads (started now q)) c \<longrightarrow> shut conns' k"
      "\<forall>k. k \<notin> set (due_callbacks now q) \<longrightarrow> conns' k = conns k" "\<forall>k. conns' k = conns k \<or> shut conns' k"
    using HandleActiveClose_round [OF assms(1) started_inv(1) [OF assms(3), of now] assms(2), of "due_callbacks now q"] h(6) by auto
  have q3: "pending q3 k \<longrightarrow> pending q' k" for k using h(7) by (force simp: pending_def)
  have "shut conns' k \<or> pending q' k" if "pending q k" for k
  proof (cases "k \<in> set (due_callbacks now q)")
    case False
    then show ?thesis using that r(2) q3 pending_started by blast
  qed (use r(4) q3 in blast)
  moreover have "clock_reads (started now q) = clock_reads q + 1" by (simp add: started_def take_due_def Let_def)
  ultimately show ?thesis
    using h(1-5) r(1,3,5-7) by (intro exI [of _ conns'] exI [of _ q'] exI [of _ now]) simp
qed

lemma served_timer:
  assumes "tq_env_ok e" and "served_inv e (s, conns) q"
  shows "\<exists>conns' q' now. HandleRead e (HandleActiveClose e) ((s, conns), q) = Inr ((s, conns'), q')
     \<and> served_inv e (s, conns') q' \<and> Now (readings e (clock_reads q)) = Inr now
     \<and> (\<forall>k \<in> set (due_callbacks now q). \<forall>c. conns k = Some c \<longrightarrow> idle_too_long e s (clock_reads q + 1) c \<longrightarrow> shut conns' k)"
proof -
  have i: "served_ok e (s, conns)" "auto_close_conn s" "tq_inv e {} q" "\<forall>k. shut conns k \<or> pending q k"
    using assms(2) by (auto simp: served_inv_def)
  obtain conns' q' now where r: "HandleRead e (HandleActiveClose e) ((s, conns), q) = Inr ((s, conns'), q')"
     "served_ok e (s, conns')" "tq_inv e {} q'" "armed q'" "Now (readings e (clock_reads q)) = Inr now"
     "\<forall>k. shut conns k \<longrightarrow> shut conns' k" "\<forall>k. pending q k \<longrightarrow> shut conns' k \<or> pending q' k"
     "\<forall>k \<in> set (due_callbacks now q). \<forall>c. conns k = Some c \<longrightarrow> idle_too_long e s (clock_reads q + 1) c \<longrightarrow> shut conns' k"
    using timer_round [OF assms(1) i(1,3)] by (elim exE conjE) (rule that)
  have "\<forall>k. shut conns' k \<or> pending q' k" using r(6,7) i(4) by blast
  then show ?thesis using r i(2) by (intro exI [of _ conns'] exI [of _ q'] exI [of _ now]) (simp add: served_inv_def)
qed

lemma served_inv_conns:
  assumes "served_inv e (s, conns) q" "served_ok e (s, conns')" "\<And>j. shut conns j \<Longrightarrow> shut conns' j"
  shows "served_inv e (s, conns') q"
  using assms unfolding served_inv_def by blast

lemma served_step:
  assumes "tq_env_ok e" and "served_inv e (s, conns) q" and "served_op_ok x"
  shows "\<exists>conns' q'. served_exec e x ((s, conns), q) = Inr ((s, conns'), q') \<and> served_inv e (s, conns') q'"
proof (cases x)
  case Sv_Timer
  then show ?thesis using served_timer [OF assms(1,2)] by auto
next
  case (Sv_New k c)
  have i: "0 \<le> rounds e (timeout s * 1000000)" "rounds e (timeout s * 1000000) \<le> 10 ^ 18" "tq_inv e {} q"
      "served_ok e (s, conns)" "auto_close_conn s" "armed q" "\<forall>k. shut conns k \<or> pending q k"
    using assms(2) by (auto simp: served_inv_def served_ok_def)
  obtain q' where q': "RunAfter e (timeout s) k q = Inr q'" "tq_inv e {} q'" "armed q \<longrightarrow> armed q'"
     "set (timers q) \<subseteq> set (timers q')" "\<forall>p \<in> dom (timer_heap q). timer_heap q' p = timer_heap q p" "pending q' k"
    using RunAfter_ok [OF assms(1) i(3,1,2)] by blast
  have "served_ok e (s, conns(k \<mapsto> c))" using i(4) assms(3) by (auto simp: served_ok_def Sv_New)
  moreover have "shut (conns(k \<mapsto> c)) j \<or> pending q' j" for j
    using i(7) q'(6) pending_mono [OF _ i(3) q'(4,5)] by (cases "j = k") (auto simp: shut_def)
  ultimately show ?thesis using q' i(5,6) by (auto simp: Sv_New onConnection_def served_inv_def)
next
  case (Sv_Message k t)
  have "served_ok e (s, case conns k of Some c \<Rightarrow> conns(k \<mapsto> SetActTime t c) | None \<Rightarrow> conns)"
    using assms(2,3) by (auto simp: served_inv_def served_ok_def Sv_Message SetActTime_def split: option.split)
  then show ?thesis using served_inv_conns [OF assms(2)] shut_simps(3) by (simp add: Sv_Message)
next
  case (Sv_Close k)
  have "served_ok e (s, case conns k of Some c \<Rightarrow> conns(k \<mapsto> HandleClose c) | None \<Rightarrow> conns)"
    using assms(2) by (auto simp: served_inv_def served_ok_def split: option.split)
  then show ?thesis using served_inv_conns [OF assms(2)] shut_simps(2) by (simp add: Sv_Close)
next
  case (Sv_Gone k)
  have "served_ok e (s, conns(k := None))" using assms(2) by (auto simp: served_inv_def served_ok_def)
  then show ?thesis using served_inv_conns [OF assms(2)] by (simp add: Sv_Gone shut_simps(1))
qed

lemma served_run:
  assumes "tq_env_ok e" and "served_inv e (s, conns) q" and "\<forall>x \<in> set xs. served_op_ok x"
  shows "\<exists>conns' q'. foldE (served_exec e) xs ((s, conns), q) = Inr ((s, conns'), q') \<and> served_inv e (s, conns') q'"
  using assms(2,3)
proof (induction xs arbitrary: conns q)
  case (Cons x xs)
  obtain conns1 q1 where "served_exec e x ((s, conns), q) = Inr ((s, conns1), q1)" "served_inv e (s, conns1) q1"
    using served_step [OF assms(1) Cons.prems(1), of x] Cons.prems(2) by auto
  then show ?case using Cons.IH [of conns1 q1] Cons.prems(2) by auto
qed simp

section \<open>Properties of the timers\<close>

text \<open>A system whose clock advances by 100 seconds from one reading to the next, up to some time\<close>

definition example_env :: tq_env where
  "example_env = \<lparr>readings = (\<lambda>n. \<lparr>tv_sec = 100 * int (min n 1000), tv_nsec = 0\<rparr>), rounds = id,
     new_address = (\<lambda>A. Suc (Max (insert 0 A)))\<rparr>"

lemma example_readings: "Now (readings example_env n) = Inr (TimerStamp_ctor (100000000 * int (min n 1000)))"
proof -
  have "min n 1000 \<le> 1000" by simp
  then have "int (min n 1000) \<le> 1000" by linarith
  then show ?thesis unfolding example_env_def Now_def by (simp add: signed_divide_int_def)
qed

lemma example_env_ok: "tq_env_ok example_env"
  unfolding tq_env_ok_def
proof (intro conjI allI impI)
  fix n
  have "int (min n 1000) \<le> 1000" by linarith
  then show "\<exists>t. Now (readings example_env n) = Inr t \<and> 0 \<le> micro_seconds t \<and> micro_seconds t \<le> 4 * 10 ^ 18"
    unfolding example_readings by (simp add: TimerStamp_ctor_def)
next
  fix A :: "nat set"
  assume A: "finite A"
  show "new_address example_env A \<notin> A"
  proof
    assume "new_address example_env A \<in> A"
    then have "new_address example_env A \<le> Max (insert 0 A)" using A by (intro Max_ge) simp_all
    then show False by (simp add: example_env_def)
  qed
qed

definition example_server :: "unit HttpServer" where
  "example_server = HttpServer_ctor 60"

lemma example_server_ok: "served_ok example_env (example_server, Map.empty)" "auto_close_conn example_server"
  "wait_us example_env (timeout example_server) = 60000000"
  by (simp_all add: served_ok_def example_server_def HttpServer_ctor_def example_env_def wait_us_def)

lemma served_start:
  "served_ok e (s, Map.empty) \<Longrightarrow> auto_close_conn s \<Longrightarrow> served_inv e (s, Map.empty) (TimerQueue_ctor n)"
  by (simp add: served_inv_def shut_def)

text \<open>Whatever happens to the connections of a loop, in any order: the queue of timers is in order, every
  entry points to a live timer and every live timer is in the queue (none is leaked, freed twice or used
  after it was freed), the descriptor is armed for the earliest of them, and every connection that is
  open has a timer in the queue, so that it will be looked at.\<close>

lemma open_connections_have_timers:
  assumes "tq_env_ok e" and "served_ok e (s, Map.empty)" and "auto_close_conn s" and "\<forall>x \<in> set xs. served_op_ok x"
  shows "\<exists>conns q. foldE (served_exec e) xs ((s, Map.empty), TimerQueue_ctor n) = Inr ((s, conns), q)
     \<and> sorted (timers q) \<and> dom (timer_heap q) = snd ` set (timers q) \<and> armed q
     \<and> (\<forall>k c. conns k = Some c \<longrightarrow> conn_state c = Disconected \<or> pending q k)"
proof -
  obtain conns q where "foldE (served_exec e) xs ((s, Map.empty), TimerQueue_ctor n) = Inr ((s, conns), q)"
      "served_inv e (s, conns) q"
    using served_run [OF assms(1) served_start [OF assms(2,3)] assms(4)] by blast
  then show ?thesis by (intro exI [of _ conns] exI [of _ q]) (auto simp: served_inv_def tq_inv_def shut_def)
qed

lemma open_connections_have_timers_witness:
  "\<exists>conns q. foldE (served_exec example_env)
       [Sv_New 7 (TcpConnection_ctor Invalid False False Map.empty \<lparr>incoming = [], accepts = [], sent = []\<rparr> 9 1),
        Sv_Message 7 (TimerStamp_ctor 150), Sv_Timer, Sv_Close 7, Sv_Timer]
       ((example_server, Map.empty), TimerQueue_ctor 0) = Inr ((example_server, conns), q) \<and> armed q"
proof -
  have "\<forall>x \<in> set [Sv_New 7 (TcpConnection_ctor Invalid False False Map.empty \<lparr>incoming = [], accepts = [], sent = []\<rparr> 9 1),
        Sv_Message 7 (TimerStamp_ctor 150), Sv_Timer, Sv_Close 7, Sv_Timer]. served_op_ok x"
    by (simp add: TcpConnection_ctor_def TimerStamp_ctor0_def TimerStamp_ctor_def)
  from open_connections_have_timers [OF example_env_ok example_server_ok(1,2) this, of 0] show ?thesis by blast
qed



text \<open>The queue after the first timer, for a connection that is accepted at time 0 and idle at 200 seconds\<close>

definition example_queue :: "nat \<Rightarrow> nat TimerQueue" where
  "example_queue k = \<lparr>timers = [(TimerStamp_ctor 60000000, 1)], active_timers = [],
      timer_heap = [1 \<mapsto> Timer_ctor (TimerStamp_ctor 60000000) k 0],
      timerfd = Some (\<lparr>tv_sec = 0, tv_nsec = 100000\<rparr>, TimerStamp_ctor 100000000), clock_reads = 2\<rparr>"

lemma example_RunAfter: "RunAfter example_env 60 k (TimerQueue_ctor 0) = Inr (example_queue k)"
proof -
  have r: "read_clock example_env q = Inr (TimerStamp_ctor (100000000 * int (min (clock_reads q) 1000)), q\<lparr>clock_reads := clock_reads q + 1\<rparr>)" for q :: "nat TimerQueue"
    by (simp add: read_clock_def example_readings)
  have "AddSec (rounds example_env) (TimerStamp_ctor 0) 60 = Inr (TimerStamp_ctor 60000000)"
    by (simp add: AddSec_def double_to_int64_def example_env_def TimerStamp_ctor_def)
  then show ?thesis
    by (simp add: RunAfter_def r TimerQueue_ctor_def AddTimer_def Insert_def timer_at_def insort_insert_key_def ResetTimerFd_def
        Timer_ctor_def TimerStamp_ctor_def signed_divide_int_def signed_modulo_int_def sgn_if Let_def example_queue_def)
      (simp add: example_env_def)
qed

lemma example_due:
  "Now (readings example_env (clock_reads (example_queue k))) = Inr (TimerStamp_ctor 200000000)"
  "k \<in> set (due_callbacks (TimerStamp_ctor 200000000) (example_queue k))"
  by (simp add: example_readings example_queue_def)
    (simp add: due_callbacks_def Timer_ctor_def TimerStamp_order(2) TimerStamp_ctor_def example_queue_def)

lemma example_idle:
  assumes "timeout h = 60" "act_time c = TimerStamp_ctor 0"
  shows "idle_too_long example_env h (clock_reads (example_queue k) + 1) c"
proof -
  have "wait_us example_env 60 = 60000000" by (simp add: wait_us_def example_env_def)
  then show ?thesis
    using assms unfolding idle_too_long_def example_readings by (auto simp: TimerStamp_ctor_def min_def example_queue_def)
qed

text \<open>An idle connection is closed: when a timer of a connection goes off and the time since the last
  activity is longer than the timeout, the connection is closed, or already gone, after the handler.\<close>

lemma idle_connection_closed:
  assumes "tq_env_ok e" and "served_inv e (s, conns) q" and "Now (readings e (clock_reads q)) = Inr now"
    and "k \<in> set (due_callbacks now q)" and "conns k = Some c" and "idle_too_long e s (clock_reads q + 1) c"
  shows "\<exists>conns' q'. HandleRead e (HandleActiveClose e) ((s, conns), q) = Inr ((s, conns'), q')
     \<and> (\<forall>c'. conns' k = Some c' \<longrightarrow> conn_state c' = Disconected)"
proof -
  obtain conns' q' now' where h: "HandleRead e (HandleActiveClose e) ((s, conns), q) = Inr ((s, conns'), q')"
      "Now (readings e (clock_reads q)) = Inr now'"
      "\<forall>k \<in> set (due_callbacks now' q). \<forall>c. conns k = Some c \<longrightarrow> idle_too_long e s (clock_reads q + 1) c \<longrightarrow> shut conns' k"
    using served_timer [OF assms(1,2)] by blast
  have "now' = now" using h(2) assms(3) by simp
  then have "shut conns' k" using h(3) assms(4-6) by blast
  with h(1) show ?thesis by (intro exI [of _ conns'] exI [of _ q']) (simp add: shut_def)
qed

lemma idle_connection_closed_witness:
  "\<exists>conns q conns' q'. served_exec example_env
         (Sv_New 7 (TcpConnection_ctor Invalid False False Map.empty \<lparr>incoming = [], accepts = [], sent = []\<rparr> 9 1))
         ((example_server, Map.empty), TimerQueue_ctor 0) = Inr ((example_server, conns), q)
     \<and> HandleRead example_env (HandleActiveClose example_env) ((example_server, conns), q) = Inr ((example_server, conns'), q')
     \<and> (\<forall>c'. conns' 7 = Some c' \<longrightarrow> conn_state c' = Disconected)"
proof -
  let ?c = "TcpConnection_ctor Invalid False False Map.empty \<lparr>incoming = [], accepts = [], sent = []\<rparr> 9 1"
  have a: "act_time ?c = TimerStamp_ctor 0" by (simp add: TcpConnection_ctor_def TimerStamp_ctor0_def TimerStamp_ctor_def)
  have tm: "timeout example_server = 60" by (simp add: example_server_def HttpServer_ctor_def)
  have new: "served_exec example_env (Sv_New 7 ?c) ((example_server, Map.empty), TimerQueue_ctor 0)
      = Inr ((example_server, [7 \<mapsto> ?c]), example_queue 7)"
    using example_RunAfter [of 7] tm by (simp add: onConnection_def example_server_ok(2))
  have "served_op_ok (Sv_New 7 ?c)" using a by (simp add: TimerStamp_ctor_def)
  then have inv: "served_inv example_env (example_server, [7 \<mapsto> ?c]) (example_queue 7)"
    using served_step [OF example_env_ok served_start [OF example_server_ok(1,2)], of "Sv_New 7 ?c" 0] new by simp
  have c: "[7 \<mapsto> ?c] 7 = Some ?c" by simp
  from idle_connection_closed [OF example_env_ok inv example_due c example_idle [OF tm a]] new show ?thesis by blast
qed

end
