(* ===== verification/HttpSystem.thy ===== *)
theory HttpSystem
  imports TcpServer IdleTimeout
begin

text \<open>
  The whole HTTP server (\<open>http/HttpServer\<close> over \<open>tcp/TcpServer\<close> and \<open>utils/TimerQueue\<close>): the application's
  world, the map of connections with its loops, and the timers of every loop in one state. A step accepts
  a client, handles the events of a connection, lets the timers of a loop go off or runs the next function of a
  loop; the handlers are those of \<open>HttpServer\<close> and \<open>IdleTimeout\<close>, run on the objects of \<open>TcpServer\<close>. Shown
  for every interleaving: what stays consistent, that an idle client is let go, and that each client gets
  the answers to its own requests.
\<close>

section \<open>Any event on a connection\<close>

text \<open>What is assumed of the application: as long as its world is as it should be, it throws nothing but the
  given exceptions, and its responses are not longer than a bound.\<close>

definition app_ok :: "('w \<Rightarrow> bool) \<Rightarrow> exc set \<Rightarrow> nat \<Rightarrow> 'w HttpServer \<Rightarrow> iteration \<Rightarrow> bool" where
  "app_ok okw throws sz h iter \<longleftrightarrow> length bad_request \<le> sz
     \<and> (\<forall>req w b. okw w \<longrightarrow>
          (case on_request h req (w, HttpResponse_ctor b) of
             Inl x \<Rightarrow> x \<in> throws
           | Inr (w1, r) \<Rightarrow> okw w1 \<and> length (message iter r) \<le> sz))"

text \<open>A connection is well formed and where it was, and it has recorded the time if at all.\<close>

definition conn_kept :: "'w HttpServer \<Rightarrow> timespec \<Rightarrow> TcpConnection \<Rightarrow> TcpConnection \<Rightarrow> bool" where
  "conn_kept h clock c c' \<longleftrightarrow> conn_ok c' \<and> same_place c c'
     \<and> (act_time c' = act_time c \<or> Now clock = Inr (act_time c'))"

lemma same_place_more [simp]:
  "same_place c (d\<lparr>read_buf := b\<rparr>) = same_place c d" "same_place c (d\<lparr>conn_context := x\<rparr>) = same_place c d"
  "same_place c (d\<lparr>act_time := t\<rparr>) = same_place c d"
  "same_place (c\<lparr>channel := SetReadyEvents ev (channel c)\<rparr>) d = same_place c d"
  by (simp_all add: same_place_def SetReadyEvents_def)

lemma sends:
  assumes "conn_ok c" and "write_index (send_buf c) + int (length m) + 8 \<le> INT_MAX"
  shows "\<exists>c'. Send_string m c = Inr c' \<and> conn_ok c' \<and> same_place c c' \<and> act_time c' = act_time c"
proof -
  have ok: "conn_inv c" "writes_ok c" using assms(1) by (simp_all add: conn_ok_def)
  obtain c' where c': "Send_string m c = Inr c'" "conn_inv c'" "writes_ok c'" "same_but_io c c'"
    using Send_spec [OF ok assms(2)] by blast
  have "conn_ok c'" using conn_ok_same [OF assms(1) c'(4,2,3) close_callback_io(3) [OF c'(1)]] .
  moreover have "same_place c c'" using conn_exec_same_place [of "Op_Send m" c c'] c'(1) by simp
  ultimately show ?thesis using c'(1,4) by (auto simp: same_but_io_def)
qed

lemma kept_close:
  assumes "conn_ok c'" "same_place c c'"
  shows "conn_ok (HandleClose c')" "same_place c (HandleClose c')"
  using HandleClose_ok(1) [OF assms(1)] same_place_trans [OF assms(2)] by simp_all

lemma onRequest_ok:
  assumes "app_ok okw throws sz h iter" "okw w" "conn_ok c" "write_index (send_buf c) + int sz + 8 \<le> INT_MAX"
  shows "(\<exists>x. onRequest h iter req (w, c) = Inl x \<and> x \<in> throws)
     \<or> (\<exists>w' c'. onRequest h iter req (w, c) = Inr (w', c') \<and> okw w' \<and> conn_ok c' \<and> same_place c c' \<and> act_time c' = act_time c)"
proof -
  define b where "b = (GetHeaderString req ''Connection'' = ''close''
      \<or> rq_version req = kHTTP_1_0 \<and> GetHeaderString req ''Connection'' \<noteq> ''Keep-Alive'')"
  have a: "case on_request h req (w, HttpResponse_ctor b) of Inl x \<Rightarrow> x \<in> throws
      | Inr (w1, r) \<Rightarrow> okw w1 \<and> length (message iter r) \<le> sz"
    using assms(1,2) by (simp add: app_ok_def)
  show ?thesis
  proof (cases "on_request h req (w, HttpResponse_ctor b)")
    case (Inl x)
    then show ?thesis using a by (simp add: onRequest_def Let_def b_def [symmetric])
  next
    case (Inr wr)
    then obtain w1 r where r: "on_request h req (w, HttpResponse_ctor b) = Inr (w1, r)" by (cases wr) simp
    then have g: "okw w1" "write_index (send_buf c) + int (length (message iter r)) + 8 \<le> INT_MAX" using a assms(4) by simp_all
    obtain c' where c': "Send_string (message iter r) c = Inr c'" "conn_ok c'" "same_place c c'" "act_time c' = act_time c"
      using sends [OF assms(3) g(2)] by blast
    have "onRequest h iter req (w, c) = Inr (w1, if close_connection r then HandleClose c' else c')"
      using r c'(1) by (simp add: onRequest_def Let_def b_def [symmetric])
    then show ?thesis using g(1) c'(2-4) kept_close [OF c'(2,3)] by (cases "close_connection r") auto
  qed
qed

text \<open>The exceptions that can leave the handlers\<close>

definition may_throw :: "exc set \<Rightarrow> exc \<Rightarrow> bool" where
  "may_throw throws x \<longleftrightarrow> x = Out_of_range \<or> x = Invalid_argument \<or> x \<in> throws"

definition sends_room :: "nat \<Rightarrow> TcpConnection \<Rightarrow> bool" where
  "sends_room sz c \<longleftrightarrow> write_index (send_buf c) + int sz + 8 \<le> INT_MAX"

lemma onMessage_ok:
  assumes a: "app_ok okw throws sz h iter" "okw w" and c: "conn_ok c" "sends_room sz c" and t: "clock_ok h clock"
  shows "(\<exists>x. onMessage h iter clock (w, c) = Inl x \<and> may_throw throws x)
     \<or> (\<exists>w' c'. onMessage h iter clock (w, c) = Inr (w', c') \<and> okw w' \<and> conn_kept h clock c c')"
proof -
  obtain t' where t': "(if auto_close_conn h then bindE (Now clock) (\<lambda>t. Inr (SetActTime t c)) else Inr c) = Inr (c\<lparr>act_time := t'\<rparr>)"
      "t' = act_time c \<or> Now clock = Inr t'"
  proof (cases "auto_close_conn h")
    case True
    then obtain t1 where "Now clock = Inr t1" using t by (auto simp: clock_ok_def)
    then show thesis using that [of t1] True by (simp add: SetActTime_def)
  next
    case False
    then show thesis using that [of "act_time c"] by simp
  qed
  define c1 where "c1 = c\<lparr>act_time := t'\<rparr>"
  have ok1: "conn_ok c1" using conn_ok_cong [OF c(1), of "read_buf c" "sock c" "channel c" t'] c(1)
    by (simp add: c1_def conn_ok_def conn_inv_def)
  show ?thesis
  proof (cases "conn_state c = Connected \<and> \<not> Buffer_IsEmpty (read_buf c)")
    case False
    then have "onMessage h iter clock (w, c) = Inr (w, if conn_state c = Connected then c1 else c)"
      using t'(1) by (auto simp: onMessage_def c1_def)
    then show ?thesis using a(2) c(1) ok1 t'(2) by (auto simp: conn_kept_def c1_def)
  next
    case True
    have b: "binv (read_buf c)" using c(1) by (simp add: conn_ok_def conn_inv_def)
    have r: "RetrieveAllAsString (read_buf c) = Inr (contents (read_buf c), RetrieveAll (read_buf c))" "binv (RetrieveAll (read_buf c))"
      using RetrieveAllAsString_spec [OF b] RetrieveAll_spec(1) [OF b] by simp_all
    show ?thesis
    proof (cases "ParseRequest (contents (read_buf c)) (conn_context c)")
      case (Inl x)
      then have "onMessage h iter clock (w, c) = Inl x" using True t'(1) r(1) by (simp add: onMessage_def)
      then show ?thesis using ParseRequest_error [OF Inl] by (auto simp: may_throw_def)
    next
      case (Inr ck)
      then obtain ctx k where p: "ParseRequest (contents (read_buf c)) (conn_context c) = Inr (ctx, k)" by (cases ck) simp
      define c2 where "c2 = c1\<lparr>read_buf := RetrieveAll (read_buf c), conn_context := ctx\<rparr>"
      have e: "onMessage h iter clock (w, c) = (if \<not> k then bindE (Send_cstr bad_request c2) (\<lambda>c3. Inr (w, HandleClose c3))
            else if IsComplete ctx then
              bindE (onRequest h iter (ctx_request ctx) (w, c2)) (\<lambda>(w1, c3). Inr (w1, c3\<lparr>conn_context := Reset (conn_context c3)\<rparr>))
            else Inr (w, c2))"
        using True t'(1) r(1) p by (simp add: onMessage_def c2_def c1_def Let_def)
      have "conn_ok (c1\<lparr>read_buf := RetrieveAll (read_buf c)\<rparr>)"
        using conn_ok_cong [OF ok1, of "RetrieveAll (read_buf c)" "sock c1" "channel c1" t'] r(2) by (simp add: c1_def)
      then have c2: "conn_ok c2" "same_place c c2" "act_time c2 = t'" "write_index (send_buf c2) + int sz + 8 \<le> INT_MAX"
        using c(2) by (simp_all add: c2_def c1_def sends_room_def)
      have kept: "conn_kept h clock c d" if "conn_ok d" "same_place c2 d" "act_time d = t'" for d
        using that same_place_trans [OF c2(2)] t'(2) by (auto simp: conn_kept_def)
      show ?thesis
      proof (cases k)
        case False
        have "write_index (send_buf c2) + int (length bad_request) + 8 \<le> INT_MAX" using c2(4) a(1) by (simp add: app_ok_def)
        then obtain c3 where c3: "Send_string bad_request c2 = Inr c3" "conn_ok c3" "same_place c2 c3" "act_time c3 = act_time c2"
          using sends [OF c2(1)] by blast
        then have "onMessage h iter clock (w, c) = Inr (w, HandleClose c3)"
          using e False Send_cstr_eq [OF bad_request_text(1)] by simp
        then show ?thesis using a(2) kept [of "HandleClose c3"] kept_close [OF c3(2,3)] c3(4) c2(3) by auto
      next
        case k: True
        show ?thesis
        proof (cases "IsComplete ctx")
          case False
          then show ?thesis using e k a(2) kept [OF c2(1) _ c2(3)] by simp
        next
          case True
          from onRequest_ok [OF a c2(1,4), of "ctx_request ctx"] show ?thesis
          proof (elim disjE exE conjE)
            fix x assume "onRequest h iter (ctx_request ctx) (w, c2) = Inl x" "x \<in> throws"
            then show ?thesis using e k True by (simp add: may_throw_def)
          next
            fix w' c3 assume "onRequest h iter (ctx_request ctx) (w, c2) = Inr (w', c3)" "okw w'" "conn_ok c3" "same_place c2 c3"
              "act_time c3 = act_time c2"
            then show ?thesis using e k True c2(3) kept [of "c3\<lparr>conn_context := Reset (conn_context c3)\<rparr>"] by simp
          qed
        qed
      qed
    qed
  qed
qed

lemma reads:
  assumes "conn_ok c" "conn_room sz c"
  shows "\<exists>c'. ReadNonBlocking c = Inr c' \<and> conn_ok c' \<and> same_place c c' \<and> act_time c' = act_time c \<and> sends_room sz c'"
proof -
  have "conn_room (length (op_msg Op_Read) + sz) c" using assms(2) by simp
  from conn_exec_step [OF assms(1) this] obtain c' where c': "ReadNonBlocking c = Inr c'" "conn_ok c'" "conn_room sz c'" by auto
  have "same_place c c'" using conn_exec_same_place [of Op_Read c c'] c'(1) by simp
  moreover have "act_time c' = act_time c" using ReadNonBlocking_spec [OF assms] c'(1) by (auto simp: Let_def)
  ultimately show ?thesis using c' by (auto simp: conn_room_def sends_room_def)
qed

lemma writes:
  assumes "conn_ok c"
  shows "\<exists>c'. HandleWrite c = Inr c' \<and> conn_ok c' \<and> same_place c c' \<and> act_time c' = act_time c"
proof -
  have ok: "conn_inv c" "writes_ok c" using assms by (simp_all add: conn_ok_def)
  obtain c' where c': "HandleWrite c = Inr c'" "conn_inv c'" "writes_ok c'" "same_but_io c c'"
    using HandleWrite_spec [OF ok] by blast
  have "conn_ok c'" using conn_ok_same [OF assms c'(4,2,3) close_callback_io(2) [OF c'(1)]] .
  moreover have "same_place c c'" using conn_exec_same_place [of Op_HandleWrite c c'] c'(1) by simp
  ultimately show ?thesis using c'(1,4) by (auto simp: same_but_io_def)
qed

text \<open>Whatever events the kernel reports on the socket\<close>

lemma conn_ready_ok:
  assumes a: "app_ok okw throws sz h iter" "okw w" and c: "conn_ok c" "conn_room sz c" and t: "clock_ok h clock"
  shows "(\<exists>x. conn_ready h iter clock ev (w, c) = Inl x \<and> may_throw throws x)
     \<or> (\<exists>w' c'. conn_ready h iter clock ev (w, c) = Inr (w', c') \<and> okw w' \<and> conn_kept h clock c c')"
proof -
  define ch where "ch = SetReadyEvents ev (channel c)"
  define c0 where "c0 = c\<lparr>channel := ch\<rparr>"
  define msg where "msg = (if short_and (ready_events ch) (EPOLLIN OR EPOLLPRI OR EPOLLRDHUP) \<noteq> 0
     then HandleMessage (Some (onMessage h iter clock)) (w, c0) else Inr (w, c0))"
  have e: "conn_ready h iter clock ev (w, c) = bindE msg (\<lambda>wc.
      if short_and (ready_events ch) EPOLLOUT \<noteq> 0 then bindE (HandleWrite (snd wc)) (\<lambda>c1. Inr (fst wc, c1)) else Inr wc)"
    by (simp add: conn_ready_def on_ready_def HandleEvent_def HandleEventWithGuard_def msg_def ch_def c0_def Let_def case_prod_beta)
  have c0: "conn_ok c0" "conn_room sz c0" "same_place c c0" "act_time c0 = act_time c"
    using c conn_ok_ready [of ev c] by (simp_all add: c0_def ch_def conn_room_def same_place_def SetReadyEvents_def)
  have m: "(\<exists>x. msg = Inl x \<and> may_throw throws x) \<or> (\<exists>w' c'. msg = Inr (w', c') \<and> okw w' \<and> conn_kept h clock c c')"
  proof (cases "short_and (ready_events ch) (EPOLLIN OR EPOLLPRI OR EPOLLRDHUP) = 0")
    case True
    then show ?thesis using a(2) c0 by (auto simp: msg_def conn_kept_def)
  next
    case False
    obtain c1 where c1: "ReadNonBlocking c0 = Inr c1" "conn_ok c1" "same_place c0 c1" "act_time c1 = act_time c0" "sends_room sz c1"
      using reads [OF c0(1,2)] by blast
    have "msg = onMessage h iter clock (w, c1)" using False c1(1) by (simp add: msg_def HandleMessage_def)
    moreover have "conn_kept h clock c d" if "conn_kept h clock c1 d" for d
      using that same_place_trans [OF same_place_trans [OF c0(3) c1(3)]] c0(4) c1(4) by (auto simp: conn_kept_def)
    ultimately show ?thesis using onMessage_ok [OF a c1(2,5) t] by auto
  qed
  then show ?thesis
  proof (elim disjE exE conjE)
    fix w' c' assume r: "msg = Inr (w', c')" "okw w'" and k: "conn_kept h clock c c'"
    obtain c2 where c2: "HandleWrite c' = Inr c2" "conn_ok c2" "same_place c' c2" "act_time c2 = act_time c'"
      using writes k by (auto simp: conn_kept_def)
    have "conn_kept h clock c c2" using k c2(2-4) same_place_trans [OF _ c2(3)] by (auto simp: conn_kept_def)
    then show ?thesis using e r k c2(1) by auto
  qed (use e in auto)
qed

section \<open>The whole server\<close>

text \<open>The world of the application, the connections, and the timers of every loop. A handler of a connection
  runs on the object (\<open>on_object\<close>), so that the server's close callback is called where the code calls it.\<close>

record ('w, 'l) HttpSystem =
  app_world :: 'w
  tcp :: "'l TcpServer"
  loop_timers :: "'l \<Rightarrow> nat TimerQueue"

text \<open>\<open>HttpServer::onConnection\<close> as the connection callback of the server, and \<open>HttpServer::HandleActiveClose\<close> on
  a weak pointer to one of the server's connections\<close>

definition connection_callback :: "'w HttpServer \<Rightarrow> tq_env \<Rightarrow> nat \<Rightarrow> nat TimerQueue conn_callback" where
  "connection_callback h e conn = (\<lambda>(q, c).
     bindE (onConnection e conn ((h, [conn \<mapsto> c]), q)) (\<lambda>(_, q1). Inr (q1, c)))"

definition active_close :: "'w HttpServer \<Rightarrow> tq_env \<Rightarrow> nat \<Rightarrow> nat TimerQueue conn_callback" where
  "active_close h e conn = (\<lambda>(q, c).
     bindE (HandleActiveClose e conn ((h, [conn \<mapsto> c]), q)) (\<lambda>((_, m), q1). Inr (q1, the (m conn))))"

definition timer_callback ::
    "'w HttpServer \<Rightarrow> tq_env \<Rightarrow> nat \<Rightarrow> 'l TcpServer \<times> nat TimerQueue \<Rightarrow> ('l TcpServer \<times> nat TimerQueue) result" where
  "timer_callback h e conn = (\<lambda>(v, q).
     case objects v conn of
       None \<Rightarrow> Inr (v, q)
     | Some _ \<Rightarrow> bindE (on_object (active_close h e conn) conn (q, v)) (\<lambda>(q1, v1). Inr (v1, q1)))"

text \<open>A client is accepted, the kernel reports events on a connection (with the time its handler will read),
  the timers of a loop go off, the main loop or another one runs the next function of its list.\<close>

datatype 'l http_step =
    H_Accept conn_env int
  | H_Ready nat timespec "32 word"
  | H_Timer 'l
  | H_Main
  | H_Loop 'l

fun http_exec :: "'w HttpServer \<Rightarrow> iteration \<Rightarrow> ('l \<Rightarrow> tq_env) \<Rightarrow> 'l http_step
     \<Rightarrow> ('w, 'l) HttpSystem \<Rightarrow> ('w, 'l) HttpSystem result" where
  "http_exec h iter env (H_Accept e fd) s =
     bindE (GetNextLoop (thread_pool (tcp s))) (\<lambda>(l, _).
     bindE (server_exec (Some (connection_callback h (env l) (env_address e))) (V_Accept e fd) (loop_timers s l, tcp s)) (\<lambda>(q, v).
     Inr (s\<lparr>tcp := v, loop_timers := (loop_timers s)(l := q)\<rparr>)))"
| "http_exec h iter env (H_Ready p clock ev) s =
     bindE (on_object (conn_ready h iter clock ev) p (app_world s, tcp s)) (\<lambda>(w, v). Inr (s\<lparr>app_world := w, tcp := v\<rparr>))"
| "http_exec h iter env (H_Timer l) s =
     bindE (HandleRead (env l) (timer_callback h (env l)) (tcp s, loop_timers s l)) (\<lambda>(v, q).
     Inr (s\<lparr>tcp := v, loop_timers := (loop_timers s)(l := q)\<rparr>))"
| "http_exec h iter env H_Main s = bindE (run_main_task (tcp s)) (\<lambda>v. Inr (s\<lparr>tcp := v\<rparr>))"
| "http_exec h iter env (H_Loop l) s = bindE (run_loop_task l (tcp s)) (\<lambda>v. Inr (s\<lparr>tcp := v\<rparr>))"

text \<open>What the system provides: descriptors and addresses that are not in use, and sizes and times within
  the limits. (An address is in use as long as a timer holds a weak pointer to it.)\<close>

definition time_ok :: "TimerStamp \<Rightarrow> bool" where
  "time_ok t \<longleftrightarrow> 0 \<le> micro_seconds t \<and> micro_seconds t \<le> 4 * 10 ^ 18"

fun http_enabled :: "'w HttpServer \<Rightarrow> nat \<Rightarrow> 'l http_step \<Rightarrow> ('w, 'l) HttpSystem \<Rightarrow> bool" where
  "http_enabled h sz (H_Accept e fd) s \<longleftrightarrow> server_enabled (V_Accept e fd) (tcp s)
     \<and> (\<forall>l. \<not> pending (loop_timers s l) (env_address e))"
| "http_enabled h sz (H_Ready p clock ev) s \<longleftrightarrow> (\<exists>t. Now clock = Inr t \<and> time_ok t)
     \<and> (case objects (tcp s) p of Some (l, c) \<Rightarrow> conn_room sz c | None \<Rightarrow> False)"
| "http_enabled h sz (H_Timer l) s \<longleftrightarrow> timerfd (loop_timers s l) \<noteq> None"
| "http_enabled h sz H_Main s \<longleftrightarrow> main_tasks (tcp s) \<noteq> []"
| "http_enabled h sz (H_Loop l) s \<longleftrightarrow> loop_tasks (tcp s) l \<noteq> []"

inductive http_run :: "'w HttpServer \<Rightarrow> iteration \<Rightarrow> ('l \<Rightarrow> tq_env) \<Rightarrow> nat \<Rightarrow> ('w, 'l) HttpSystem \<Rightarrow> 'l http_step list
     \<Rightarrow> ('w, 'l) HttpSystem \<Rightarrow> bool" for h iter env sz where
  http_nil: "http_run h iter env sz s [] s"
| http_cons: "http_enabled h sz x s \<Longrightarrow> http_exec h iter env x s = Inr s1 \<Longrightarrow> http_run h iter env sz s1 xs s2
    \<Longrightarrow> http_run h iter env sz s (x # xs) s2"

definition HttpSystem_start :: "'w \<Rightarrow> 'l TcpServer \<Rightarrow> ('w, 'l) HttpSystem" where
  "HttpSystem_start w v = \<lparr>app_world = w, tcp = v, loop_timers = (\<lambda>l. TimerQueue_ctor 0)\<rparr>"

section \<open>Invariant\<close>

text \<open>The connections as the timers see them\<close>

definition view :: "'l TcpServer \<Rightarrow> nat \<rightharpoonup> TcpConnection" where
  "view v p = (case objects v p of Some (l, c) \<Rightarrow> Some (c\<lparr>loop_epoll := epolls v l\<rparr>) | None \<Rightarrow> None)"

definition http_inv :: "('w \<Rightarrow> bool) \<Rightarrow> 'w HttpServer \<Rightarrow> ('l \<Rightarrow> tq_env) \<Rightarrow> ('w, 'l) HttpSystem \<Rightarrow> bool" where
  "http_inv okw h env s \<longleftrightarrow> okw (app_world s) \<and> server_inv (tcp s)
     \<and> (\<forall>l. served_ok (env l) (h, view (tcp s)) \<and> tq_inv (env l) {} (loop_timers s l) \<and> armed (loop_timers s l))
     \<and> (auto_close_conn h \<longrightarrow> (\<forall>p l c. objects (tcp s) p = Some (l, c) \<longrightarrow>
          conn_state c = Disconected \<or> pending (loop_timers s l) p))"

lemma view_upd:
  assumes "objects v' = (objects v)(p \<mapsto> (l, c))" "epolls v' = (epolls v)(l := loop_epoll c)" "loop_epoll c = epolls v l"
  shows "view v' = (view v)(p \<mapsto> c)"
  using assms by (auto simp: view_def fun_eq_iff split: option.splits)

lemma shut_view: "shut (view v) p \<longleftrightarrow> (\<forall>l c. objects v p = Some (l, c) \<longrightarrow> conn_state c = Disconected)"
  by (cases "objects v p") (auto simp: shut_def view_def)

lemma served_ok_view:
  "served_ok e (h, view v) \<longleftrightarrow> 0 \<le> rounds e (timeout h * 1000000) \<and> rounds e (timeout h * 1000000) \<le> 10 ^ 18
     \<and> (\<forall>p l c. objects v p = Some (l, c) \<longrightarrow> time_ok (act_time c))"
  by (fastforce simp: served_ok_def view_def time_ok_def split: option.splits)

text \<open>Which loop and descriptor each connection has\<close>

definition same_loops :: "'l TcpServer \<Rightarrow> 'l TcpServer \<Rightarrow> bool" where
  "same_loops v v' \<longleftrightarrow>
     (\<forall>p. map_option (\<lambda>(l, c). (l, connfd c)) (objects v' p) = map_option (\<lambda>(l, c). (l, connfd c)) (objects v p))"

text \<open>The timer callback does on the server what \<open>HandleActiveClose\<close> does on the view.\<close>

lemma timer_callback_sim:
  assumes inv: "server_inv v" and r: "HandleActiveClose e p ((h, view v), q) = Inr ((h', m), q')"
  shows "\<exists>v'. timer_callback h e p (v, q) = Inr (v', q') \<and> h' = h \<and> server_inv v' \<and> view v' = m \<and> same_loops v v'"
proof (cases "objects v p")
  case None
  then have "view v p = None" by (simp add: view_def)
  then show ?thesis using inv r None by (auto simp: HandleActiveClose_def timer_callback_def same_loops_def)
next
  case (Some lc)
  then obtain l c where o: "objects v p = Some (l, c)" by (cases lc) simp
  let ?c = "c\<lparr>loop_epoll := epolls v l\<rparr>"
  have w: "view v p = Some ?c" using o by (simp add: view_def)
  have ok: "conn_ok ?c" using object_ok_fields(4) [OF server_invD(4) [OF inv o]] .
  obtain c1 where c1: "HandleActiveClose e p ((h, [p \<mapsto> ?c]), q) = Inr ((h, [p \<mapsto> c1]), q')" "m = (view v)(p \<mapsto> c1)" "h' = h"
      "c1 = ?c \<or> c1 = HandleClose ?c"
  proof -
    obtain t now q1 where 1: "AddSec (rounds e) (act_time c) (timeout h) = Inr t" "read_clock e q = Inr (now, q1)"
        "(if ts_less t now then Inr ((h, (view v)(p \<mapsto> HandleClose ?c)), q1)
          else bindE (RunAfter e (timeout h) p q1) (\<lambda>q2. Inr ((h, view v), q2))) = Inr ((h', m), q')"
      using r w by (auto simp: HandleActiveClose_def result_simps)
    have e: "HandleActiveClose e p ((h, [p \<mapsto> ?c]), q)
       = (if ts_less t now then Inr ((h, [p \<mapsto> HandleClose ?c]), q1)
          else bindE (RunAfter e (timeout h) p q1) (\<lambda>q2. Inr ((h, [p \<mapsto> ?c]), q2)))"
      using 1(1,2) by (simp add: HandleActiveClose_def)
    show thesis
    proof (cases "ts_less t now")
      case True
      then show thesis using 1(3) e by (intro that [of "HandleClose ?c"]) simp_all
    next
      case False
      then have f: "RunAfter e (timeout h) p q1 = Inr q'" "h' = h" "m = view v" using 1(3) by (auto simp: result_simps)
      show thesis
      proof (rule that [of ?c])
        show "HandleActiveClose e p ((h, [p \<mapsto> ?c]), q) = Inr ((h, [p \<mapsto> ?c]), q')" using False e f(1) by simp
        show "m = (view v)(p \<mapsto> ?c)" using map_upd_triv [of "view v" p ?c, OF w] by (simp only: f(3))
      qed (simp_all add: f(2))
    qed
  qed
  have k: "conn_ok c1" "same_place ?c c1" "loop_epoll c1 = epolls v l" using c1(4) ok HandleClose_ok(1) [OF ok] by auto
  have ac: "active_close h e p (q, ?c) = Inr (q', c1)" using c1(1) by (simp add: active_close_def)
  obtain v' where v': "on_object (active_close h e p) p (q, v) = Inr (q', v')" "server_inv v'"
      "objects v' = (objects v)(p \<mapsto> (l, c1))" "epolls v' = (epolls v)(l := loop_epoll c1)"
    using on_object_ok [where f = "active_close h e p" and w = q and ?w1.0 = q', OF inv o ac k(1,2)] by (elim exE conjE) (rule that)
  moreover have "connfd c1 = connfd c" using k(2) by (simp add: same_place_def)
  ultimately show ?thesis using view_upd [OF v'(3,4) k(3)] c1(2,3) o
    by (intro exI [of _ v']) (simp add: timer_callback_def same_loops_def)
qed

section \<open>Every step keeps the invariant\<close>

lemma same_loops_Some:
  assumes "same_loops v v'" "objects v' p = Some (l, c)"
  shows "\<exists>c0. objects v p = Some (l, c0) \<and> connfd c0 = connfd c"
proof -
  have "map_option (\<lambda>(l, c). (l, connfd c)) (objects v p) = Some (l, connfd c)"
    using assms(1) [unfolded same_loops_def, rule_format, of p] assms(2) by simp
  then show ?thesis by (cases "objects v p") auto
qed

lemma same_loops_sym: "same_loops v v' \<Longrightarrow> same_loops v' v"
  by (simp add: same_loops_def)

lemma timer_step:
  assumes inv: "http_inv okw h env s" and e: "tq_env_ok (env l)"
  shows "\<exists>s' now. http_exec h iter env (H_Timer l) s = Inr s' \<and> http_inv okw h env s' \<and> app_world s' = app_world s
     \<and> same_loops (tcp s) (tcp s') \<and> Now (readings (env l) (clock_reads (loop_timers s l))) = Inr now
     \<and> (\<forall>p \<in> set (due_callbacks now (loop_timers s l)). \<forall>c. view (tcp s) p = Some c \<longrightarrow>
          idle_too_long (env l) h (clock_reads (loop_timers s l) + 1) c \<longrightarrow> shut (view (tcp s')) p)
     \<and> (\<forall>p. view (tcp s') p = view (tcp s) p \<or> shut (view (tcp s')) p)"
proof -
  have i: "server_inv (tcp s)" "served_ok (env l) (h, view (tcp s))" "tq_inv (env l) {} (loop_timers s l)"
    using inv by (simp_all add: http_inv_def)
  obtain m q' now where r: "HandleRead (env l) (HandleActiveClose (env l)) ((h, view (tcp s)), loop_timers s l) = Inr ((h, m), q')"
     "served_ok (env l) (h, m)" "tq_inv (env l) {} q'" "armed q'" "Now (readings (env l) (clock_reads (loop_timers s l))) = Inr now"
     "\<forall>k. shut (view (tcp s)) k \<longrightarrow> shut m k" "\<forall>k. pending (loop_timers s l) k \<longrightarrow> shut m k \<or> pending q' k"
     "\<forall>k \<in> set (due_callbacks now (loop_timers s l)). \<forall>c. view (tcp s) k = Some c \<longrightarrow>
        idle_too_long (env l) h (clock_reads (loop_timers s l) + 1) c \<longrightarrow> shut m k"
     "\<forall>k. m k = view (tcp s) k \<or> shut m k"
    using timer_round [OF e i(2,3)] by (elim exE conjE) (rule that)
  let ?R = "\<lambda>w v. server_inv v \<and> w = (h, view v) \<and> same_loops (tcp s) v"
  have "\<exists>v. HandleRead (env l) (timer_callback h (env l)) (tcp s, loop_timers s l) = Inr (v, q') \<and> ?R (h, m) v"
  proof (rule HandleRead_sim [where R = ?R, OF _ r(1)])
    fix cb v q q' and w w' :: "'a HttpServer \<times> (nat \<rightharpoonup> TcpConnection)"
    assume R: "server_inv v \<and> w = (h, view v) \<and> same_loops (tcp s) v" and x: "HandleActiveClose (env l) cb (w, q) = Inr (w', q')"
    obtain h' m' where w': "w' = (h', m')" by (cases w')
    obtain v' where "timer_callback h (env l) cb (v, q) = Inr (v', q')" "h' = h" "server_inv v'" "view v' = m'" "same_loops v v'"
      using timer_callback_sim [of v "env l" cb h q h' m' q'] R x w' by auto
    then show "\<exists>v'. timer_callback h (env l) cb (v, q) = Inr (v', q') \<and> ?R w' v'"
      using R w' by (auto simp: same_loops_def)
  qed (use i(1) in \<open>simp add: same_loops_def\<close>)
  then obtain v where v: "HandleRead (env l) (timer_callback h (env l)) (tcp s, loop_timers s l) = Inr (v, q')"
      "server_inv v" "m = view v" "same_loops (tcp s) v" by auto
  let ?s = "s\<lparr>tcp := v, loop_timers := (loop_timers s)(l := q')\<rparr>"
  have "http_inv okw h env ?s"
    unfolding http_inv_def
  proof (intro conjI allI impI)
    show "served_ok (env l') (h, view (tcp ?s))" for l'
      using inv r(2) unfolding v(3) http_inv_def served_ok_view by simp
    fix p l' c assume a: "auto_close_conn h" "objects (tcp ?s) p = Some (l', c)"
    show "conn_state c = Disconected \<or> pending (loop_timers ?s l') p"
    proof (rule disjCI)
      assume n: "\<not> pending (loop_timers ?s l') p"
      obtain c0 where c0: "objects (tcp s) p = Some (l', c0)" using same_loops_Some [OF v(4), of p l' c] a(2) by auto
      then have "shut (view (tcp s)) p \<or> pending (loop_timers s l') p" using inv a(1) by (fastforce simp: http_inv_def shut_view)
      then have "shut m p" using n r(6,7) by (cases "l' = l") auto
      then show "conn_state c = Disconected" using a(2) unfolding v(3) shut_view by simp
    qed
  qed (use inv v(2) r(3,4) in \<open>auto simp: http_inv_def\<close>)
  then show ?thesis using v(1,4) r(5,8,9) v(3) by (intro exI [of _ ?s] exI [of _ now]) simp
qed

lemma ready_step:
  assumes inv: "http_inv okw h env s" and a: "app_ok okw throws sz h iter" and en: "http_enabled h sz (H_Ready p clock ev) s"
  shows "(\<exists>x. http_exec h iter env (H_Ready p clock ev) s = Inl x \<and> may_throw throws x)
     \<or> (\<exists>s'. http_exec h iter env (H_Ready p clock ev) s = Inr s' \<and> http_inv okw h env s')"
proof -
  have i: "server_inv (tcp s)" "okw (app_world s)" using inv by (simp_all add: http_inv_def)
  obtain l c t where o: "objects (tcp s) p = Some (l, c)" "conn_room sz c" "Now clock = Inr t" "time_ok t"
    using en by (auto split: option.splits)
  let ?c = "c\<lparr>loop_epoll := epolls (tcp s) l\<rparr>"
  have ok: "conn_ok ?c" using object_ok_fields(4) [OF server_invD(4) [OF i(1) o(1)]] .
  have rm: "conn_room sz ?c" using o(2) by (simp add: conn_room_def)
  have ck: "clock_ok h clock" using o(3) by (simp add: clock_ok_def)
  from conn_ready_ok [OF a i(2) ok rm ck, of ev] show ?thesis
  proof (elim disjE exE conjE)
    fix x assume "conn_ready h iter clock ev (app_world s, ?c) = Inl x" "may_throw throws x"
    then show ?thesis using o(1) by (simp add: on_object_def object_at_def)
  next
    fix w' c' assume r: "conn_ready h iter clock ev (app_world s, ?c) = Inr (w', c')" "okw w'" "conn_kept h clock ?c c'"
    then have k: "conn_ok c'" "same_place ?c c'" "time_ok (act_time c')"
      using inv o by (auto simp: conn_kept_def http_inv_def served_ok_view)
    obtain v' where v': "on_object (conn_ready h iter clock ev) p (app_world s, tcp s) = Inr (w', v')" "server_inv v'"
        "objects v' = (objects (tcp s))(p \<mapsto> (l, c'))"
      using on_object_ok [where f = "conn_ready h iter clock ev" and w = "app_world s" and ?w1.0 = w', OF i(1) o(1) r(1) k(1,2)]
      by (elim exE conjE) (rule that)
    let ?s = "s\<lparr>app_world := w', tcp := v'\<rparr>"
    have "http_inv okw h env ?s"
      unfolding http_inv_def
    proof (intro conjI allI impI)
      show "served_ok (env l') (h, view (tcp ?s))" for l'
        using inv k(3) unfolding http_inv_def served_ok_view by (simp add: v'(3))
      fix q l' d assume "auto_close_conn h" "objects (tcp ?s) q = Some (l', d)"
      then show "conn_state d = Disconected \<or> pending (loop_timers ?s l') q"
        using inv o(1) k(2) by (fastforce simp: http_inv_def v'(3) same_place_def split: if_splits)
    qed (use inv r(2) v'(2) in \<open>auto simp: http_inv_def\<close>)
    then show ?thesis using v'(1) by simp
  qed
qed

lemma accept_http_step:
  assumes inv: "http_inv okw h env s" and e: "\<And>l. tq_env_ok (env l)" and en: "http_enabled h sz (H_Accept ce fd) s"
  shows "\<exists>s'. http_exec h iter env (H_Accept ce fd) s = Inr s' \<and> http_inv okw h env s' \<and> app_world s' = app_world s
     \<and> (\<exists>l c. objects (tcp s') = (objects (tcp s))(env_address ce \<mapsto> (l, c)) \<and> conn_state c = Connected
           \<and> c = new_conn ce fd l (tcp s)
           \<and> (\<exists>tp. GetNextLoop (thread_pool (tcp s)) = Inr (l, tp) \<and> tcp s' = accepted ce fd l tp (tcp s))
           \<and> (auto_close_conn h \<longrightarrow> RunAfter (env l) (timeout h) (env_address ce) (loop_timers s l) = Inr (loop_timers s' l)))"
proof -
  let ?v = "tcp s" and ?a = "env_address ce"
  have i: "server_inv ?v" using inv by (simp add: http_inv_def)
  have en': "0 \<le> fd" "fd \<notin> open_fds ?v" "objects ?v ?a = None" "socket_ok (env_socket ce)" using en by simp_all
  obtain l tp where g: "GetNextLoop (thread_pool ?v) = Inr (l, tp)"
    using pool.get_ok [OF server_invD(1) [OF i]] by blast
  let ?q = "loop_timers s l" and ?c = "new_conn ce fd l ?v"
  have tq: "tq_inv (env l) {} ?q" "armed ?q" and sv: "served_ok (env l) (h, view ?v)" using inv by (simp_all add: http_inv_def)
  obtain q' where q': "connection_callback h (env l) ?a (?q, ?c) = Inr (q', ?c)" "tq_inv (env l) {} q'" "armed q'"
      "auto_close_conn h \<longrightarrow> pending q' ?a \<and> RunAfter (env l) (timeout h) ?a ?q = Inr q'" "\<forall>k. pending ?q k \<longrightarrow> pending q' k"
  proof (cases "auto_close_conn h")
    case True
    obtain q' where q': "RunAfter (env l) (timeout h) ?a ?q = Inr q'" "tq_inv (env l) {} q'" "armed ?q \<longrightarrow> armed q'"
       "set (timers ?q) \<subseteq> set (timers q')" "\<forall>p \<in> dom (timer_heap ?q). timer_heap q' p = timer_heap ?q p" "pending q' ?a"
      using RunAfter_ok [OF e tq(1)] sv by (force simp: served_ok_view)
    have "connection_callback h (env l) ?a (?q, ?c) = Inr (q', ?c)"
      using True q'(1) by (simp add: connection_callback_def onConnection_def)
    then show thesis using that q'(1-3,6) tq(2) pending_mono [OF _ tq(1) q'(4,5)] by blast
  next
    case False
    then have "connection_callback h (env l) ?a (?q, ?c) = Inr (?q, ?c)" by (simp add: connection_callback_def onConnection_def)
    then show thesis using that tq False by blast
  qed
  let ?s = "s\<lparr>tcp := accepted ce fd l tp ?v, loop_timers := (loop_timers s)(l := q')\<rparr>"
  have "server_exec (Some (connection_callback h (env l) ?a)) (V_Accept ce fd) (?q, ?v) = Inr (q', accepted ce fd l tp ?v)"
    using accept_exec [OF g en'(1), where on_connect = "Some (connection_callback h (env l) ?a)" and w = ?q and w' = q'] q'(1) by simp
  then have x: "http_exec h iter env (H_Accept ce fd) s = Inr ?s" using g by (simp del: server_exec.simps)
  have objs: "objects (accepted ce fd l tp ?v) = (objects ?v)(?a \<mapsto> (l, ?c))" by (simp add: accepted_def)
  have c: "conn_state ?c = Connected" "time_ok (act_time ?c)"
    by (simp_all add: new_conn_def established_eq set_close_callback_def TcpConnection_ctor_def time_ok_def TimerStamp_ctor0_def
        TimerStamp_ctor_def)
  have "http_inv okw h env ?s"
    unfolding http_inv_def
  proof (intro conjI allI impI)
    show "server_inv (tcp ?s)" using accepted_inv [OF i g en'] by simp
    show "served_ok (env l') (h, view (tcp ?s))" for l'
      using inv c(2) unfolding http_inv_def served_ok_view by (simp add: objs)
    fix p l' d assume "auto_close_conn h" "objects (tcp ?s) p = Some (l', d)"
    then show "conn_state d = Disconected \<or> pending (loop_timers ?s l') p"
      using inv q'(4,5) by (fastforce simp: http_inv_def objs split: if_splits)
  qed (use inv q'(2,3) in \<open>auto simp: http_inv_def\<close>)
  then show ?thesis using x objs c(1) g q'(4) by (intro exI [of _ ?s]) auto
qed

text \<open>Steps that take connections away or leave them as they are\<close>

lemma http_inv_tcp:
  assumes "http_inv okw h env s" "server_inv v" "\<And>p l c. objects v p = Some (l, c) \<Longrightarrow> objects (tcp s) p = Some (l, c)"
  shows "http_inv okw h env (s\<lparr>tcp := v\<rparr>)"
  using assms unfolding http_inv_def served_ok_view by (auto; blast)

lemma task_http_step:
  assumes inv: "http_inv okw h env s" and x: "x = H_Main \<or> x = H_Loop l" and en: "http_enabled h sz x s"
  shows "\<exists>v. http_exec h iter env x s = Inr (s\<lparr>tcp := v\<rparr>) \<and> http_inv okw h env (s\<lparr>tcp := v\<rparr>)
     \<and> server_exec None (if x = H_Main then V_Main else V_Loop l) ((), tcp s) = Inr ((), v)"
proof -
  have i: "server_inv (tcp s)" using inv by (simp add: http_inv_def)
  let ?y = "if x = H_Main then V_Main else V_Loop l"
  have y: "server_enabled ?y (tcp s)" "is_task ?y" using x en by auto
  have "quiet (None :: unit conn_callback option)" by (simp add: quiet_def)
  then obtain v where v: "server_exec (None :: unit conn_callback option) ?y ((), tcp s) = Inr ((), v)" "server_inv v"
    using server_step_ok [of "((), tcp s)" None ?y] i y(1) by auto
  have "objects (tcp s) p = Some (l', c)" if "objects v p = Some (l', c)" for p l' c
    using task_step(2) [OF i y(2,1) v(1), of p] that by auto
  note k = http_inv_tcp [OF inv v(2) this]
  have "http_exec h iter env x s = Inr (s\<lparr>tcp := v\<rparr>)" using x v(1) by (auto simp: result_simps)
  then show ?thesis using k v(1) by blast
qed

lemma http_step_ok:
  assumes inv: "http_inv okw h env s" and e: "\<And>l. tq_env_ok (env l)" and a: "app_ok okw throws sz h iter"
    and en: "http_enabled h sz x s"
  shows "(\<exists>y. http_exec h iter env x s = Inl y \<and> may_throw throws y \<and> (\<exists>p clock ev. x = H_Ready p clock ev))
     \<or> (\<exists>s'. http_exec h iter env x s = Inr s' \<and> http_inv okw h env s')"
proof (cases x)
  case (H_Accept ce fd)
  then show ?thesis using accept_http_step [OF inv e en [unfolded H_Accept], of iter] by auto
next
  case (H_Ready p clock ev)
  then show ?thesis using ready_step [OF inv a en [unfolded H_Ready]] by auto
next
  case (H_Timer l)
  then show ?thesis using timer_step [OF inv e, of iter l] by blast
next
  case H_Main
  then show ?thesis using task_http_step [OF inv _ en, of undefined iter] by blast
next
  case (H_Loop l)
  then show ?thesis using task_http_step [OF inv _ en, of l iter] by blast
qed

lemma http_run_inv:
  assumes "http_run h iter env sz s xs s2" "\<And>l. tq_env_ok (env l)" "app_ok okw throws sz h iter" "http_inv okw h env s"
  shows "http_inv okw h env s2"
  using assms(1,4)
proof induction
  case (http_cons x s s1 xs s2)
  then show ?case using http_step_ok [OF http_cons.prems assms(2,3) http_cons.hyps(1)] by auto
qed

lemma started_http_inv:
  assumes "n \<le> INT_MAX" "okw w" "\<And>l. 0 \<le> rounds (env l) (timeout h * 1000000) \<and> rounds (env l) (timeout h * 1000000) \<le> 10 ^ 18"
  shows "http_inv okw h env (HttpSystem_start w (started_server ls n main))"
proof -
  have "objects (started_server ls n main) = Map.empty"
    by (simp add: started_server_def Start_server_def SetThreadNum_server_def TcpServer_ctor_def)
  then show ?thesis using assms started_server_inv [of n ls main]
    by (simp add: http_inv_def HttpSystem_start_def served_ok_view)
qed

section \<open>Running the functions of the loops\<close>

fun http_task :: "'l http_step \<Rightarrow> bool" where
  "http_task H_Main = True"
| "http_task (H_Loop l) = True"
| "http_task _ = False"

fun server_task :: "'l http_step \<Rightarrow> 'l server_step" where
  "server_task (H_Loop l) = V_Loop l"
| "server_task _ = V_Main"

lemma http_tasks:
  assumes "http_run h iter env sz s ys s2" "http_inv okw h env s" "\<forall>y \<in> set ys. http_task y"
  shows "server_run None ((), tcp s) (map server_task ys) ((), tcp s2) \<and> (\<forall>y \<in> set (map server_task ys). is_task y)
     \<and> app_world s2 = app_world s \<and> loop_timers s2 = loop_timers s"
  using assms
proof induction
  case (http_cons x s s1 xs s2)
  obtain l where x: "x = H_Main \<or> x = H_Loop l" using http_cons.prems(2) by (cases x) auto
  obtain v where v: "http_exec h iter env x s = Inr (s\<lparr>tcp := v\<rparr>)" "http_inv okw h env (s\<lparr>tcp := v\<rparr>)"
      "server_exec None (if x = H_Main then V_Main else V_Loop l) ((), tcp s) = Inr ((), v)"
    using task_http_step [OF http_cons.prems(1) x http_cons.hyps(1)] by blast
  then have s1: "s1 = s\<lparr>tcp := v\<rparr>" using http_cons.hyps(2) by simp
  have t: "server_task x = (if x = H_Main then V_Main else V_Loop l)" "is_task (server_task x)"
      "server_enabled (server_task x) (tcp s)"
    using x http_cons.hyps(1) by auto
  have r: "server_run None ((), v) (map server_task xs) ((), tcp s2)"
      "\<forall>y \<in> set (map server_task xs). is_task y" "app_world s2 = app_world s" "loop_timers s2 = loop_timers s"
    using http_cons.IH v(2) http_cons.prems(2) s1 by simp_all
  have "server_run None ((), tcp s) (server_task x # map server_task xs) ((), tcp s2)"
    using server_cons [OF _ _ r(1)] t(3) v(3) t(1) by simp
  then show ?case using r t(2) by simp
qed (simp add: server_nil)

lemma http_tasks_few:
  assumes "http_run h iter env sz s ys s2" "http_inv okw h env s" "\<forall>y \<in> set ys. http_task y"
  shows "length ys \<le> length (main_tasks (tcp s)) + card (shut_objects (tcp s))"
  using task_run [of None "((), tcp s)" "map server_task ys" "((), tcp s2)"] http_tasks [OF assms] assms(2)
  by (simp add: quiet_def http_inv_def)

definition no_tasks :: "'l TcpServer \<Rightarrow> bool" where
  "no_tasks v \<longleftrightarrow> main_tasks v = [] \<and> (\<forall>l. loop_tasks v l = [])"

lemma http_tasks_finish:
  assumes "http_inv okw h env s"
  shows "\<exists>ys s2. http_run h iter env sz s ys s2 \<and> (\<forall>y \<in> set ys. http_task y) \<and> no_tasks (tcp s2)"
  using assms
proof (induction "length (main_tasks (tcp s)) + card (shut_objects (tcp s))" arbitrary: s rule: less_induct)
  case less
  show ?case
  proof (cases "no_tasks (tcp s)")
    case True
    then show ?thesis by (intro exI [of _ "[]"] exI [of _ s]) (simp add: http_nil)
  next
    case False
    then obtain x l where x: "x = H_Main \<or> x = H_Loop l" "http_enabled h sz x s"
      unfolding no_tasks_def by (metis http_enabled.simps(4,5))
    obtain v where v: "http_exec h iter env x s = Inr (s\<lparr>tcp := v\<rparr>)" "http_inv okw h env (s\<lparr>tcp := v\<rparr>)"
      "server_exec None (if x = H_Main then V_Main else V_Loop l) ((), tcp s) = Inr ((), v)"
      using task_http_step [OF less.prems x] by blast
    have t: "is_task (if x = H_Main then V_Main else V_Loop l)" "server_enabled (if x = H_Main then V_Main else V_Loop l) (tcp s)"
      using x by auto
    have "length (main_tasks v) + card (shut_objects v) < length (main_tasks (tcp s)) + card (shut_objects (tcp s))"
      using task_step(1) [OF _ t v(3)] less.prems by (simp add: http_inv_def)
    then obtain ys s2 where "http_run h iter env sz (s\<lparr>tcp := v\<rparr>) ys s2" "\<forall>y \<in> set ys. http_task y" "no_tasks (tcp s2)"
      using less.hyps [of "s\<lparr>tcp := v\<rparr>"] v(2) by auto
    then show ?thesis using http_cons [OF x(2) v(1)] x(1) by (intro exI [of _ "x # ys"] exI [of _ s2]) auto
  qed
qed

text \<open>When the functions have run, a connection that was closed is gone, and its descriptor free.\<close>

lemma http_tasks_done:
  assumes run: "http_run h iter env sz s ys s2" and inv: "http_inv okw h env s" and t: "\<forall>y \<in> set ys. http_task y"
    and o: "objects (tcp s) p = Some (l, c)" "conn_state c = Disconected"
    and idle: "no_tasks (tcp s2)"
  shows "objects (tcp s2) p = None \<and> connfd c \<notin> open_fds (tcp s2)"
proof -
  have i: "server_inv (tcp s)" using inv by (simp add: http_inv_def)
  note r = http_tasks [OF run inv t]
  have q: "quiet (None :: unit conn_callback option)" by (simp add: quiet_def)
  have i2: "server_inv (tcp s2)" using server_run_inv [of None "((), tcp s)" _ "((), tcp s2)"] r q i by auto
  have k: "\<And>q. objects (tcp s2) q = objects (tcp s) q \<or> q \<in> shut_objects (tcp s) \<and> objects (tcp s2) q = None"
    using task_run [of None "((), tcp s)" "map server_task ys" "((), tcp s2)"] r q i by simp
  have "shut_objects (tcp s2) = {}" using shut_task [OF i2] idle by (auto simp: no_tasks_def)
  then have gone: "objects (tcp s2) p = None" using k [of p] o by (auto simp: shut_objects_def)
  moreover have "connfd c \<notin> open_fds (tcp s2)"
  proof
    assume "connfd c \<in> open_fds (tcp s2)"
    then obtain q l' d where d: "objects (tcp s2) q = Some (l', d)" "connfd d = connfd c"
      using server_invD(11) [OF i2] by blast
    then have "objects (tcp s) q = Some (l', d)" using k [of q] by auto
    then have "q = p" using server_invD(5) [OF i _ o(1)] d(2) by blast
    then show False using d(1) gone by simp
  qed
  ultimately show ?thesis by blast
qed

section \<open>One client among others\<close>

text \<open>Whether a request asks for the connection to be closed; a response that is an answer of the
  application to it, in a world as it should be\<close>

definition asks_close :: "HttpRequest \<Rightarrow> bool" where
  "asks_close req \<longleftrightarrow> GetHeaderString req ''Connection'' = ''close''
     \<or> rq_version req = kHTTP_1_0 \<and> GetHeaderString req ''Connection'' \<noteq> ''Keep-Alive''"

definition answered :: "('w \<Rightarrow> bool) \<Rightarrow> 'w HttpServer \<Rightarrow> HttpRequest \<Rightarrow> HttpResponse \<Rightarrow> bool" where
  "answered okw h req r \<longleftrightarrow> (\<exists>w w1. okw w \<and> on_request h req (w, HttpResponse_ctor (asks_close req)) = Inr (w1, r))"

text \<open>What the parser makes of the texts that arrive, and the answers to the requests among them\<close>

inductive talk :: "('w \<Rightarrow> bool) \<Rightarrow> 'w HttpServer \<Rightarrow> HttpContext \<Rightarrow> string list \<Rightarrow> HttpContext \<Rightarrow> (HttpRequest \<times> HttpResponse) list \<Rightarrow> bool"
  for okw h where
  talk_nil: "talk okw h ctx [] ctx []"
| talk_more: "ParseRequest t ctx = Inr (ctx1, True) \<Longrightarrow> \<not> IsComplete ctx1 \<Longrightarrow> talk okw h ctx1 ts ctx2 qrs
    \<Longrightarrow> talk okw h ctx (t # ts) ctx2 qrs"
| talk_answer: "ParseRequest t ctx = Inr (ctx1, True) \<Longrightarrow> IsComplete ctx1 \<Longrightarrow> answered okw h (ctx_request ctx1) r
    \<Longrightarrow> talk okw h (Reset ctx1) ts ctx2 qrs \<Longrightarrow> talk okw h ctx (t # ts) ctx2 ((ctx_request ctx1, r) # qrs)"

inductive_cases talk_ConsE: "talk okw h ctx (t # ts) ctx2 qrs"
inductive_cases talk_NilE: "talk okw h ctx [] ctx2 qrs"

text \<open>A connection between two events\<close>

definition session_at :: "HttpContext \<Rightarrow> read_result list \<Rightarrow> string \<Rightarrow> TcpConnection \<Rightarrow> bool" where
  "session_at ctx ins out c \<longleftrightarrow> conn_state c = Connected \<and> read_index (read_buf c) = 8 \<and> write_index (read_buf c) = 8
     \<and> conn_context c = ctx \<and> incoming (sock c) = ins \<and> outgoing c = out"

lemma session_at_epoll [simp]: "session_at ctx ins out (c\<lparr>loop_epoll := ep\<rparr>) = session_at ctx ins out c"
  by (simp add: session_at_def outgoing_def)

lemma session_message:
  assumes s: "session_at ctx (arrival ps @ ins) out c" "conn_ok c" and ps: "pieces_ok ps" "clock_ok h clock"
    and a: "app_ok okw throws sz h iter" "okw w" "conn_room sz c"
    and r: "HandleMessage (Some (onMessage h iter clock)) (w, c\<lparr>channel := SetReadyEvents ev (channel c)\<rparr>) = Inr (w', c')"
      "conn_state c' = Connected"
  shows "\<exists>ctx1. ParseRequest (concat ps) ctx = Inr (ctx1, True)
     \<and> (if IsComplete ctx1 then \<exists>r. answered okw h (ctx_request ctx1) r \<and> session_at (Reset ctx1) ins (out @ message iter r) c'
        else session_at ctx1 ins out c')"
proof -
  have i: "idle c" "incoming (sock c) = arrival ps @ ins" "conn_context c = ctx" "outgoing c = out"
    using s by (simp_all add: session_at_def idle_def)
  obtain c2 where c2: "idle c2" "outgoing c2 = out" "incoming (sock c2) = ins" "write_index (send_buf c2) = write_index (send_buf c)"
     "bindE (ParseRequest (concat ps) ctx) (\<lambda>(context, ok).
         let c3 = c2\<lparr>conn_context := context\<rparr>
         in if \<not> ok then bindE (Send_cstr bad_request c3) (\<lambda>c4. Inr (w, HandleClose c4))
            else if IsComplete context then
              bindE (onRequest h iter (ctx_request context) (w, c3)) (\<lambda>(w1, c4).
              Inr (w1, c4\<lparr>conn_context := Reset (conn_context c4)\<rparr>))
            else Inr (w, c3)) = Inr (w', c')"
    using idle_message [OF i(1) ps(1) i(2) ps(2), where iter = iter and w = w and ev = ev] r(1) i(3,4) by auto
  obtain ctx1 k where p: "ParseRequest (concat ps) ctx = Inr (ctx1, k)" using c2(5) by (auto simp: result_simps)
  have k: k using c2(5) p r(2) by (auto simp: result_simps Let_def split: if_splits)
  let ?c = "c2\<lparr>conn_context := ctx1\<rparr>"
  have at: "session_at ctx1 ins out ?c" using c2(1-3) by (simp add: session_at_def idle_def)
  show ?thesis
  proof (cases "IsComplete ctx1")
    case False
    then show ?thesis using c2(5) p k at by (simp add: Let_def)
  next
    case True
    obtain w1 c4 where o: "onRequest h iter (ctx_request ctx1) (w, ?c) = Inr (w1, c4)" "c' = c4\<lparr>conn_context := Reset (conn_context c4)\<rparr>"
      using c2(5) p k True by (auto simp: Let_def result_simps)
    let ?q = "ctx_request ctx1"
    obtain w2 x where x: "on_request h ?q (w, HttpResponse_ctor (asks_close ?q)) = Inr (w2, x)"
      using o(1) by (auto simp: onRequest_def Let_def result_simps asks_close_def)
    have len: "length (message iter x) \<le> sz" "okw w2"
      using a(1,2) x unfolding app_ok_def by (metis (no_types, lifting) case_prodD old.sum.simps(6))+
    have "write_index (send_buf ?c) + int (length (message iter x)) + 8 \<le> INT_MAX"
      using len a(3) c2(4) by (simp add: conn_room_def)
    moreover have "conn_ok ?c" using c2(1) by (simp add: idle_def)
    ultimately obtain c5 where c5: "onRequest h iter ?q (w, ?c) = Inr (w2, if close_connection x then HandleClose c5 else c5)"
        "outgoing c5 = outgoing ?c @ message iter x" "same_but_io ?c c5"
      using onRequest_spec [of ?c h ?q w w2 x iter] x unfolding asks_close_def by blast
    have nc: "\<not> close_connection x" using o r(2) c5(1) by auto
    then have "c4 = c5" using o(1) c5(1) by simp
    then have "session_at (Reset ctx1) ins (out @ message iter x) c'"
      using o(2) c5(2,3) at by (simp add: session_at_def same_but_io_def)
    moreover have "answered okw h ?q x" using a(2) x by (auto simp: answered_def)
    ultimately show ?thesis using p k True by auto
  qed
qed

text \<open>Any event: it reads when one of these bits is set.\<close>

definition reads_input :: "32 word \<Rightarrow> bool" where
  "reads_input ev \<longleftrightarrow> short_and (ucast ev) (EPOLLIN OR EPOLLPRI OR EPOLLRDHUP) \<noteq> 0"

lemma reads_input_cases: "reads_input EPOLLIN" "\<not> reads_input EPOLLOUT"
  using ready_EPOLLIN(1) [of "Channel_ctor False 0"]
    short_and_zero [of "ucast EPOLLOUT" "EPOLLIN OR EPOLLPRI OR EPOLLRDHUP"]
  by (auto simp: reads_input_def SetReadyEvents_def bit_unsigned_iff bit_or_iff epoll_bit)

lemma session_write:
  assumes "conn_ok c" "session_at ctx ins out c" "HandleWrite c = Inr c'"
  shows "session_at ctx ins out c'"
proof -
  have ok: "conn_inv c" "writes_ok c" using assms(1) by (simp_all add: conn_ok_def)
  then have "outgoing c' = outgoing c" "same_but_io c c'" using HandleWrite_spec [OF ok] assms(3) by auto
  then show ?thesis using assms(2) by (simp add: session_at_def same_but_io_def)
qed

lemma session_event:
  assumes s: "session_at ctx (if reads_input ev then arrival ps @ ins else ins) out c" "conn_ok c"
    and ps: "reads_input ev \<Longrightarrow> pieces_ok ps" "reads_input ev \<Longrightarrow> clock_ok h clock"
    and a: "app_ok okw throws sz h iter" "okw w" "conn_room sz c" "clock_ok h clock"
    and r: "conn_ready h iter clock ev (w, c) = Inr (w', c')" "conn_state c' = Connected"
  shows "if reads_input ev
     then \<exists>ctx1. ParseRequest (concat ps) ctx = Inr (ctx1, True)
     \<and> (if IsComplete ctx1 then \<exists>r. answered okw h (ctx_request ctx1) r \<and> session_at (Reset ctx1) ins (out @ message iter r) c'
        else session_at ctx1 ins out c')
     else session_at ctx ins out c'"
proof -
  let ?c0 = "c\<lparr>channel := SetReadyEvents ev (channel c)\<rparr>"
  let ?w = "short_and (ucast ev) EPOLLOUT \<noteq> 0"
  define msg where "msg = (if reads_input ev then HandleMessage (Some (onMessage h iter clock)) (w, ?c0) else Inr (w, ?c0))"
  have "conn_ready h iter clock ev (w, c) = bindE msg (\<lambda>wc. if ?w then bindE (HandleWrite (snd wc)) (\<lambda>c1. Inr (fst wc, c1)) else Inr wc)"
    (is "_ = ?r")
    by (simp add: conn_ready_def on_ready_def HandleEvent_def HandleEventWithGuard_def msg_def reads_input_def Let_def SetReadyEvents_def case_prod_beta)
  then have "?r = Inr (w', c')" using r(1) by (simp only:)
  then obtain c1 where c1: "msg = Inr (w', c1)" "if ?w then HandleWrite c1 = Inr c' else c1 = c'"
    by (auto simp: result_simps split: if_splits)
  have c0: "conn_ok ?c0" "conn_room sz ?c0" using s(2) a(3) by (simp_all add: conn_ok_ready conn_room_def)
  have ok1: "conn_ok c1"
  proof (cases "reads_input ev")
    case True
    obtain c2 where c2: "ReadNonBlocking ?c0 = Inr c2" "conn_ok c2" "sends_room sz c2" using reads [OF c0] by blast
    have "onMessage h iter clock (w, c2) = Inr (w', c1)" using True c1(1) c2(1) by (simp add: msg_def HandleMessage_def)
    then show ?thesis using onMessage_ok [OF a(1,2) c2(2,3) a(4)] by (auto simp: conn_kept_def)
  next
    case False
    then show ?thesis using c1(1) c0(1) by (simp add: msg_def)
  qed
  have st: "conn_state c1 = Connected"
  proof (cases ?w)
    case True
    then have "same_but_io c1 c'" using HandleWrite_spec [of c1] ok1 c1(2) by (auto simp: conn_ok_def)
    then show ?thesis using r(2) by (simp add: same_but_io_def)
  qed (use c1(2) r(2) in simp)
  have w: "session_at x y z c'" if "session_at x y z c1" for x y z
    using session_write [OF ok1 that] c1(2) that by (cases ?w) simp_all
  show ?thesis
  proof (cases "reads_input ev")
    case True
    then have m: "HandleMessage (Some (onMessage h iter clock)) (w, ?c0) = Inr (w', c1)" using c1(1) by (simp add: msg_def)
    have s': "session_at ctx (arrival ps @ ins) out c" using s(1) True by simp
    show ?thesis using session_message [OF s' s(2) ps [OF True] a(1-3) m st] w True by (simp split: if_splits; blast)
  next
    case False
    then have "c1 = ?c0" using c1(1) by (simp add: msg_def)
    moreover have "session_at ctx ins out ?c0" using s(1) False by (simp add: session_at_def outgoing_def)
    ultimately show ?thesis using w False by simp
  qed
qed

text \<open>Steps that concern other clients\<close>

fun concerns :: "nat \<Rightarrow> 'l http_step \<Rightarrow> bool" where
  "concerns p (H_Accept e fd) \<longleftrightarrow> env_address e = p"
| "concerns p (H_Ready q clock ev) \<longleftrightarrow> q = p"
| "concerns p _ \<longleftrightarrow> False"

text \<open>Such a step leaves a connection alone, but for what the kernel watches for others, or closes it.\<close>

lemma other_step:
  assumes inv: "http_inv okw h env s" and e: "\<And>l. tq_env_ok (env l)" and en: "http_enabled h sz x s"
    and x: "http_exec h iter env x s = Inr s'" "\<not> concerns p x"
  shows "(\<exists>l c ep. objects (tcp s) p = Some (l, c) \<and> objects (tcp s') p = Some (l, c\<lparr>loop_epoll := ep\<rparr>)) \<or> shut (view (tcp s')) p"
proof -
  have i: "server_inv (tcp s)" using inv by (simp add: http_inv_def)
  have same: ?thesis if "objects (tcp s') p = objects (tcp s) p \<or> objects (tcp s') p = None"
  proof (cases "objects (tcp s') p")
    case None
    then show ?thesis unfolding shut_view by simp
  next
    case (Some lc)
    then have "objects (tcp s) p = Some (fst lc, snd lc)" "objects (tcp s') p = Some (fst lc, (snd lc)\<lparr>loop_epoll := loop_epoll (snd lc)\<rparr>)"
      using that by simp_all
    then show ?thesis by blast
  qed
  show ?thesis
  proof (cases x)
    case (H_Accept ce fd)
    then obtain s1 l c where "http_exec h iter env x s = Inr s1" "objects (tcp s1) = (objects (tcp s))(env_address ce \<mapsto> (l, c))"
      using accept_http_step [OF inv e en [unfolded H_Accept], of iter] by blast
    then show ?thesis using x H_Accept by (intro same) auto
  next
    case (H_Ready q clock ev)
    then obtain w v where v: "on_object (conn_ready h iter clock ev) q (app_world s, tcp s) = Inr (w, v)" "tcp s' = v"
      using x(1) by (auto simp: result_simps)
    show ?thesis using on_object_objects [OF v(1)] v(2) x(2) H_Ready by (intro same) auto
  next
    case (H_Timer l)
    obtain s1 where s1: "http_exec h iter env x s = Inr s1" "same_loops (tcp s) (tcp s1)"
        "view (tcp s1) p = view (tcp s) p \<or> shut (view (tcp s1)) p"
      using timer_step [OF inv e, of iter l] H_Timer by blast
    then have s': "s1 = s'" using x(1) by simp
    show ?thesis
    proof (cases "shut (view (tcp s')) p")
      case False
      then have w: "view (tcp s') p = view (tcp s) p" using s1(3) s' by simp
      obtain l' c' where o: "objects (tcp s') p = Some (l', c')" using False unfolding shut_view by blast
      obtain c where c: "objects (tcp s) p = Some (l', c)" using same_loops_Some [OF s1(2), of p l' c'] o s' by blast
      have "c'\<lparr>loop_epoll := epolls (tcp s') l'\<rparr> = c\<lparr>loop_epoll := epolls (tcp s) l'\<rparr>" using w o c by (simp add: view_def)
      then have "c' = c\<lparr>loop_epoll := loop_epoll c'\<rparr>" by (cases c; cases c') simp
      then show ?thesis using o c by metis
    qed simp
  next
    case H_Main
    obtain v where v: "http_exec h iter env x s = Inr (s\<lparr>tcp := v\<rparr>)" "server_exec None (if x = H_Main then V_Main else V_Loop undefined) ((), tcp s) = Inr ((), v)"
      using task_http_step [OF inv _ en, of undefined iter] H_Main by blast
    have "objects v p = objects (tcp s) p \<or> objects v p = None"
      using task_step(2) [OF i _ _ v(2), of p] en H_Main by auto
    then show ?thesis using v(1) x(1) by (intro same) auto
  next
    case (H_Loop l)
    obtain v where v: "http_exec h iter env x s = Inr (s\<lparr>tcp := v\<rparr>)" "server_exec None (if x = H_Main then V_Main else V_Loop l) ((), tcp s) = Inr ((), v)"
      using task_http_step [OF inv _ en, of l iter] H_Loop by blast
    have "objects v p = objects (tcp s) p \<or> objects v p = None"
      using task_step(2) [OF i _ _ v(2), of p] en H_Loop by auto
    then show ?thesis using v(1) x(1) by (intro same) auto
  qed
qed

text \<open>A connection that is closed or gone stays so, until its address is used again.\<close>

fun accepts_at :: "nat \<Rightarrow> 'l http_step \<Rightarrow> bool" where
  "accepts_at p (H_Accept e fd) \<longleftrightarrow> env_address e = p"
| "accepts_at p _ \<longleftrightarrow> False"

lemma shut_step:
  assumes inv: "http_inv okw h env s" and e: "\<And>l. tq_env_ok (env l)" and a: "app_ok okw throws sz h iter" and en: "http_enabled h sz x s"
    and x: "http_exec h iter env x s = Inr s'" "\<not> accepts_at p x" and p: "shut (view (tcp s)) p"
  shows "shut (view (tcp s')) p"
proof (cases "concerns p x")
  case False
  from other_step [OF inv e en x(1) False] p show ?thesis unfolding shut_view by force
next
  case True
  then obtain clock ev where r: "x = H_Ready p clock ev" using x(2) by (cases x) auto
  obtain w v where v: "on_object (conn_ready h iter clock ev) p (app_world s, tcp s) = Inr (w, v)" "tcp s' = v"
    using x(1) r by (auto simp: result_simps)
  obtain l c c' where o: "objects (tcp s) p = Some (l, c)" "conn_ready h iter clock ev (app_world s, c\<lparr>loop_epoll := epolls (tcp s) l\<rparr>) = Inr (w, c')"
      "objects v = (objects (tcp s))(p \<mapsto> (l, c'))"
    using on_object_objects [OF v(1)] by blast
  have i: "server_inv (tcp s)" "okw (app_world s)" using inv by (simp_all add: http_inv_def)
  have "conn_ok (c\<lparr>loop_epoll := epolls (tcp s) l\<rparr>)" using object_ok_fields(4) [OF server_invD(4) [OF i(1) o(1)]] .
  moreover have "conn_room sz (c\<lparr>loop_epoll := epolls (tcp s) l\<rparr>)" "clock_ok h clock"
    using en r o(1) by (auto simp: conn_room_def clock_ok_def)
  ultimately have "conn_kept h clock (c\<lparr>loop_epoll := epolls (tcp s) l\<rparr>) c'"
    using conn_ready_ok [OF a i(2), of "c\<lparr>loop_epoll := epolls (tcp s) l\<rparr>" clock ev] o(2) by auto
  moreover have "conn_state c = Disconected" using p o(1) unfolding shut_view by blast
  ultimately have "conn_state c' = Disconected" by (auto simp: conn_kept_def same_place_def)
  then show ?thesis unfolding shut_view v(2) o(3) by simp
qed

lemma shut_run:
  assumes "http_run h iter env sz s xs s2" "\<And>l. tq_env_ok (env l)" "app_ok okw throws sz h iter" "http_inv okw h env s"
    and "\<forall>x \<in> set xs. \<not> accepts_at p x" "shut (view (tcp s)) p"
  shows "shut (view (tcp s2)) p"
  using assms(1,4-6)
proof induction
  case (http_cons x s s1 xs s2)
  have "http_inv okw h env s1"
    using http_step_ok [OF http_cons.prems(1) assms(2,3) http_cons.hyps(1)] http_cons.hyps(2) by auto
  moreover have "shut (view (tcp s1)) p"
    using shut_step [OF http_cons.prems(1) assms(2,3) http_cons.hyps(1,2) _ http_cons.prems(3)] http_cons.prems(2) by simp
  ultimately show ?case using http_cons.IH http_cons.prems(2) by simp
qed

text \<open>The events of one connection in a run, and the times of those that read\<close>

fun events_at :: "nat \<Rightarrow> 'l http_step list \<Rightarrow> (timespec \<times> 32 word) list" where
  "events_at p [] = []"
| "events_at p (x # xs) = (case x of H_Ready q clock ev \<Rightarrow> if q = p then [(clock, ev)] else [] | _ \<Rightarrow> []) @ events_at p xs"

definition inputs_at :: "nat \<Rightarrow> 'l http_step list \<Rightarrow> timespec list" where
  "inputs_at p xs = map fst (filter (\<lambda>(clock, ev). reads_input ev) (events_at p xs))"

lemma inputs_at_simps:
  "inputs_at p [] = []"
  "\<not> concerns p x \<Longrightarrow> inputs_at p (x # xs) = inputs_at p xs"
  "inputs_at p (H_Ready p clock ev # xs) = (if reads_input ev then clock # inputs_at p xs else inputs_at p xs)"
  by (auto simp: inputs_at_def split: http_step.split)

lemma session_run:
  assumes "http_run h iter env sz s xs s2" and e: "\<And>l. tq_env_ok (env l)" and a: "app_ok okw throws sz h iter"
    and "http_inv okw h env s" and "\<forall>x \<in> set xs. \<not> accepts_at p x" and "objects (tcp s) p = Some (l, c)"
    and "session_at ctx (arrivals evs @ ins) out c" and "inputs_at p xs = map fst evs" and "events_ok h evs"
    and end': "objects (tcp s2) p = Some (l2, c2)" "conn_state c2 = Connected"
  shows "\<exists>ctx2 qrs. talk okw h ctx (events_text evs) ctx2 qrs \<and> session_at ctx2 ins (out @ responses_text iter (map snd qrs)) c2"
  using assms(1,4-9) end'
proof (induction arbitrary: l c ctx out evs)
  case (http_nil s)
  then have "evs = []" "c2 = c" by (simp_all add: inputs_at_simps)
  then show ?case using http_nil.prems(4) talk_nil [of okw h ctx]
    by (intro exI [of _ ctx] exI [of _ "[]"]) (simp add: events_text_def arrivals_def responses_text_def)
next
  case (http_cons x s s1 xs s2)
  have inv1: "http_inv okw h env s1"
    using http_step_ok [OF http_cons.prems(1) e a http_cons.hyps(1)] http_cons.hyps(2) by auto
  have na: "\<not> accepts_at p x" "\<forall>x \<in> set xs. \<not> accepts_at p x" using http_cons.prems(2) by simp_all
  have ns: "\<not> shut (view (tcp s1)) p"
    using shut_run [OF http_cons.hyps(3) e a inv1 na(2)] http_cons.prems(7,8) unfolding shut_view by auto
  show ?case
  proof (cases "concerns p x")
    case False
    then obtain ep where o: "objects (tcp s1) p = Some (l, c\<lparr>loop_epoll := ep\<rparr>)"
      using other_step [OF http_cons.prems(1) e http_cons.hyps(1,2) False] ns http_cons.prems(3) by auto
    have "inputs_at p xs = map fst evs" using http_cons.prems(5) inputs_at_simps(2) [OF False] by simp
    from http_cons.IH [OF inv1 na(2) o _ this http_cons.prems(6-8)] http_cons.prems(4) show ?thesis by simp
  next
    case True
    then obtain clock ev where x: "x = H_Ready p clock ev" using na(1) by (cases x) auto
    obtain w v where v: "on_object (conn_ready h iter clock ev) p (app_world s, tcp s) = Inr (w, v)" "tcp s1 = v"
      using http_cons.hyps(2) x by (auto simp: result_simps)
    let ?c = "c\<lparr>loop_epoll := epolls (tcp s) l\<rparr>"
    obtain c1 where c1: "conn_ready h iter clock ev (app_world s, ?c) = Inr (w, c1)" "objects v = (objects (tcp s))(p \<mapsto> (l, c1))"
      using on_object_objects [OF v(1)] http_cons.prems(3) by auto
    have i: "server_inv (tcp s)" "okw (app_world s)" using http_cons.prems(1) by (simp_all add: http_inv_def)
    have ok: "conn_ok ?c" using object_ok_fields(4) [OF server_invD(4) [OF i(1) http_cons.prems(3)]] .
    have rm: "conn_room sz ?c" "clock_ok h clock" using http_cons.hyps(1) x http_cons.prems(3) by (auto simp: conn_room_def clock_ok_def)
    have "conn_kept h clock ?c c1" using conn_ready_ok [OF a i(2) ok rm, of ev] c1(1) by auto
    then have "conn_state c1 = Connected \<or> conn_state c1 = Disconected"
      using http_cons.prems(4) by (auto simp: conn_kept_def same_place_def session_at_def)
    then have st: "conn_state c1 = Connected" using ns unfolding shut_view v(2) c1(2) by auto
    have o1: "objects (tcp s1) p = Some (l, c1)" using v(2) c1(2) by simp
    note IH = http_cons.IH [OF inv1 na(2) o1 _ _ _ http_cons.prems(7,8)]
    show ?thesis
    proof (cases "reads_input ev")
      case False
      then have "session_at ctx (arrivals evs @ ins) out c1"
        using session_event [OF _ ok _ _ a i(2) rm c1(1) st, where ctx = ctx and ins = "arrivals evs @ ins" and out = out] http_cons.prems(4)
        by simp
      then show ?thesis using IH http_cons.prems(5,6) x False by (simp add: inputs_at_simps)
    next
      case True
      obtain ps evs' where evs: "evs = (clock, ps) # evs'" "inputs_at p xs = map fst evs'"
        using http_cons.prems(5) x True by (cases evs) (auto simp: inputs_at_simps)
      have eo: "clock_ok h clock" "pieces_ok ps" "events_ok h evs'" using http_cons.prems(6) by (auto simp: evs events_ok_def)
      have at: "session_at ctx (if reads_input ev then arrival ps @ (arrivals evs' @ ins) else arrivals evs' @ ins) out ?c"
        using http_cons.prems(4) True by (simp add: evs arrivals_def)
      obtain ctx1 where p: "ParseRequest (concat ps) ctx = Inr (ctx1, True)"
          "if IsComplete ctx1 then \<exists>r. answered okw h (ctx_request ctx1) r \<and> session_at (Reset ctx1) (arrivals evs' @ ins) (out @ message iter r) c1
           else session_at ctx1 (arrivals evs' @ ins) out c1"
        using session_event [OF at ok eo(2,1) a i(2) rm c1(1) st] True by auto
      have texts: "events_text evs = concat ps # events_text evs'" by (simp add: evs events_text_def)
      show ?thesis
      proof (cases "IsComplete ctx1")
        case False
        then obtain ctx2 qrs where "talk okw h ctx1 (events_text evs') ctx2 qrs" "session_at ctx2 ins (out @ responses_text iter (map snd qrs)) c2"
          using IH [OF _ evs(2) eo(3), of ctx1 out] p(2) by auto
        then show ?thesis using talk_more [OF p(1) False, of okw h] unfolding texts by blast
      next
        case True
        then obtain r where r: "answered okw h (ctx_request ctx1) r" "session_at (Reset ctx1) (arrivals evs' @ ins) (out @ message iter r) c1"
          using p(2) by auto
        obtain ctx2 qrs where t: "talk okw h (Reset ctx1) (events_text evs') ctx2 qrs"
            "session_at ctx2 ins ((out @ message iter r) @ responses_text iter (map snd qrs)) c2"
          using IH [OF r(2) evs(2) eo(3)] by blast
        then have "session_at ctx2 ins (out @ responses_text iter (map snd ((ctx_request ctx1, r) # qrs))) c2"
          by (simp add: responses_text_def)
        then show ?thesis using talk_answer [OF p(1) True r(1) t(1)] unfolding texts by blast
      qed
    qed
  qed
qed

text \<open>The requests of a talk are those that were written, however they were cut.\<close>

lemma talk_feed:
  assumes "talk okw h ctx (ts @ us) ctx2 qrs" "feed ts ctx = Inr (ctx1, True, [])" "IsComplete ctx1" "ts \<noteq> []"
  shows "\<exists>r qrs'. qrs = (ctx_request ctx1, r) # qrs' \<and> answered okw h (ctx_request ctx1) r \<and> talk okw h (Reset ctx1) us ctx2 qrs'"
  using assms
proof (induction ts arbitrary: ctx qrs)
  case (Cons t ts)
  obtain c1 k where p: "ParseRequest t ctx = Inr (c1, k)" using Cons.prems(2) by (auto simp: result_simps)
  have "talk okw h ctx (t # (ts @ us)) ctx2 qrs" using Cons.prems(1) by simp
  then show ?case
  proof (rule talk_ConsE)
    fix x assume x: "ParseRequest t ctx = Inr (x, True)" "\<not> IsComplete x" "talk okw h x (ts @ us) ctx2 qrs"
    then have c: "c1 = x" "k" using p by simp_all
    then have "ts \<noteq> []" using Cons.prems(2,3) p x(2) by auto
    moreover have "feed ts x = Inr (ctx1, True, [])" using Cons.prems(2) p c x(2) calculation by (auto split: if_splits)
    ultimately show ?thesis using Cons.IH [OF x(3)] Cons.prems(3) by blast
  next
    fix x r qrs' assume x: "ParseRequest t ctx = Inr (x, True)" "IsComplete x" "answered okw h (ctx_request x) r"
      "talk okw h (Reset x) (ts @ us) ctx2 qrs'" "qrs = (ctx_request x, r) # qrs'"
    then have c: "c1 = x" "k" using p by simp_all
    then have "ts = []" "x = ctx1" using Cons.prems(2) p x(2) by (auto split: if_splits)
    then show ?thesis using x by auto
  qed
qed simp

lemma talk_requests:
  assumes "talk okw h (HttpContext_ctor False) (concat (map events_text evss)) ctx2 qrs"
    and "\<forall>rq \<in> set rqs. request_ok rq" and "list_all2 (brings h) rqs evss"
  shows "\<exists>rs. qrs = zip (map the_request rqs) rs \<and> list_all2 (answered okw h) (map the_request rqs) rs"
  using assms
proof (induction rqs arbitrary: evss qrs)
  case Nil
  then show ?case by (auto elim: talk_NilE)
next
  case (Cons rq rqs)
  obtain evs evss' where evss: "evss = evs # evss'" "brings h rq evs" "list_all2 (brings h) rqs evss'"
    using Cons.prems(3) by (auto simp: list_all2_Cons1)
  obtain m u hs b where rq: "rq = (m, u, hs, b)" by (cases rq)
  have ev: "events_ok h evs" "concat (events_text evs) = request_text rq" using evss(2) by (simp_all add: brings_def)
  have ne: "[] \<notin> set (events_text evs)"
    using ev(1) by (fastforce simp: events_ok_def events_text_def pieces_ok_def neq_Nil_conv)
  have nn: "events_text evs \<noteq> []" using ev(2) by (auto simp: rq)
  have ok: "request_ok rq" using Cons.prems(2) by simp
  have fd: "feed (events_text evs) (HttpContext_ctor False) = Inr (parsed_request m u hs b, True, [])"
    using ok ev(2) ne unfolding rq by (intro feed_content_length) auto
  have tr: "the_request rq = ctx_request (parsed_request m u hs b)" by (simp add: rq)
  obtain r qrs' where r: "qrs = (the_request rq, r) # qrs'" "answered okw h (the_request rq) r"
      "talk okw h (Reset (parsed_request m u hs b)) (concat (map events_text evss')) ctx2 qrs'"
    using talk_feed [OF _ fd parsed_request_fields(1) nn, of okw h "concat (map events_text evss')" ctx2 qrs] Cons.prems(1) tr evss(1)
    by auto
  have "Reset (parsed_request m u hs b) = HttpContext_ctor False"
    by (simp add: Reset_eq parsed_request_def HttpContext_ctor_def)
  then obtain rs where "qrs' = zip (map the_request rqs) rs" "list_all2 (answered okw h) (map the_request rqs) rs"
    using Cons.IH [OF _ _ evss(3)] r(3) Cons.prems(2) by auto
  then show ?case using r(1,2) by (intro exI [of _ "r # rs"]) simp
qed

section \<open>Properties of the whole server\<close>

text \<open>What holds between two steps: the map, the live connections and the descriptors agree; the timers of
  every loop are in order, none leaked or dangling, and the descriptor is armed for the first; with a
  timeout, every open connection has a timer on its own loop.\<close>

definition http_consistent :: "'w HttpServer \<Rightarrow> ('w, 'l) HttpSystem \<Rightarrow> bool" where
  "http_consistent h s \<longleftrightarrow> server_consistent (tcp s)
     \<and> (\<forall>l. sorted (timers (loop_timers s l)) \<and> dom (timer_heap (loop_timers s l)) = snd ` set (timers (loop_timers s l))
          \<and> armed (loop_timers s l))
     \<and> (auto_close_conn h \<longrightarrow> (\<forall>p l c. objects (tcp s) p = Some (l, c) \<longrightarrow>
          conn_state c = Disconected \<or> pending (loop_timers s l) p))"

lemma http_inv_consistent: "http_inv okw h env s \<Longrightarrow> http_consistent h s"
  using server_inv_consistent [of "tcp s"] by (auto simp: http_inv_def http_consistent_def tq_inv_def)

text \<open>Environments of the loops: fine clocks and allocators, and a timeout within the limits\<close>

definition loops_ok :: "'w HttpServer \<Rightarrow> ('l \<Rightarrow> tq_env) \<Rightarrow> bool" where
  "loops_ok h env \<longleftrightarrow> (\<forall>l. tq_env_ok (env l) \<and> 0 \<le> rounds (env l) (timeout h * 1000000)
     \<and> rounds (env l) (timeout h * 1000000) \<le> 10 ^ 18)"

lemma reachable_http:
  assumes "n \<le> INT_MAX" "loops_ok h env" "app_ok okw throws sz h iter" "okw w"
    and "http_run h iter env sz (HttpSystem_start w (started_server ls n main)) xs s"
  shows "http_inv okw h env s"
  using http_run_inv [OF assms(5) _ assms(3)] started_http_inv [of n okw w env h ls main] assms(1,2,4) by (simp add: loops_ok_def)

section \<open>An example\<close>

text \<open>A server that counts requests and greets, with a timeout of 60 seconds, and one client with one request\<close>

definition greet :: "nat http_callback" where
  "greet req = (\<lambda>(n, r). Inr (n + 1, SetResponseBody ''hi'' (SetStatusCode k200OK r)))"

definition greeter :: "nat HttpServer" where
  "greeter = set_http_callback greet (HttpServer_ctor 60)"

definition greet_request :: http_req where
  "greet_request = (''GET'', ''/b'', [(''Content-Length'', ''0'')], [])"

definition greet_event :: "timespec \<times> string list" where
  "greet_event = (\<lparr>tv_sec = 1, tv_nsec = 0\<rparr>, [request_text greet_request])"

definition greet_client :: conn_env where
  "greet_client = \<lparr>env_state = Invalid, env_tied = False, env_headers = False,
     env_socket = \<lparr>incoming = arrivals [greet_event], accepts = [W_sent 1000], sent = []\<rparr>, env_address = 0\<rparr>"

definition greet_start :: "(nat, nat) HttpSystem" where
  "greet_start = HttpSystem_start 0 (started_server (\<lambda>i. i) 2 99)"

lemma greet_simps: "timeout greeter = 60" "auto_close_conn greeter" "on_request greeter = greet"
  by (simp_all add: greeter_def set_http_callback_def HttpServer_ctor_def)

lemma greet_ok: "app_ok (\<lambda>_. True) {} 200 greeter (\<lambda>m. [])" "loops_ok greeter (\<lambda>l :: nat. example_env)"
proof -
  have "length (message (\<lambda>m. []) (SetResponseBody ''hi'' (SetStatusCode k200OK (HttpResponse_ctor b)))) \<le> 200" for b
    by (cases b; simp; code_simp)
  then show "app_ok (\<lambda>_. True) {} 200 greeter (\<lambda>m. [])"
    by (simp add: app_ok_def greet_simps greet_def bad_request_text)
  have "rounds example_env = id" by (simp add: example_env_def)
  then show "loops_ok greeter (\<lambda>l :: nat. example_env)"
    using example_env_ok by (simp add: loops_ok_def greet_simps)
qed

lemma greet_accepted:
  "\<exists>s c. http_exec greeter (\<lambda>m. []) (\<lambda>l. example_env) (H_Accept greet_client 7) greet_start = Inr s
     \<and> http_run greeter (\<lambda>m. []) (\<lambda>l. example_env) 200 greet_start [H_Accept greet_client 7] s
     \<and> http_enabled greeter 200 (H_Accept greet_client 7) greet_start
     \<and> http_inv (\<lambda>_. True) greeter (\<lambda>l. example_env) s
     \<and> objects (tcp s) 0 = Some (0, c) \<and> c = new_conn greet_client 7 0 (tcp greet_start) \<and> loop_timers s 0 = example_queue 0 \<and> app_world s = 0"
proof -
  let ?v = "tcp greet_start"
  have inv: "http_inv (\<lambda>_. True) greeter (\<lambda>l. example_env) greet_start"
    unfolding greet_start_def using greet_ok(2) by (intro started_http_inv) (simp_all add: loops_ok_def)
  have "length (request_text greet_request) \<le> 1024" by code_simp
  then have k: "socket_ok (env_socket greet_client)"
    by (simp add: greet_client_def socket_ok_def greet_event_def arrivals_def arrival_def)
  have v: "objects ?v = Map.empty" "open_fds ?v = {}"
    by (simp_all add: greet_start_def HttpSystem_start_def started_server_def Start_server_def SetThreadNum_server_def TcpServer_ctor_def)
  have en: "http_enabled greeter 200 (H_Accept greet_client 7) greet_start"
    using k v by (simp add: greet_start_def HttpSystem_start_def pending_def TimerQueue_ctor_def)
  obtain s l c tp where s: "http_exec greeter (\<lambda>m. []) (\<lambda>l. example_env) (H_Accept greet_client 7) greet_start = Inr s"
      "http_inv (\<lambda>_. True) greeter (\<lambda>l. example_env) s" "objects (tcp s) = (objects ?v)(0 \<mapsto> (l, c))"
      "c = new_conn greet_client 7 l ?v" "GetNextLoop (thread_pool ?v) = Inr (l, tp)"
      "RunAfter example_env 60 0 (loop_timers greet_start l) = Inr (loop_timers s l)" "app_world s = app_world greet_start"
    using accept_http_step [OF inv example_env_ok en, of "\<lambda>m. []"] greet_simps(1,2) by (auto simp: greet_client_def)
  have "l = 0"
    using s(5) by (simp add: greet_start_def HttpSystem_start_def started_server_def Start_server_def SetThreadNum_server_def SetThreadNum_def
        TcpServer_ctor_def Start_pool_def EventLoopThreadPool_ctor_def upt_rec GetNextLoop_def vec_at_def Let_def split: if_splits)
  moreover have "loop_timers greet_start l = TimerQueue_ctor 0" by (simp add: greet_start_def HttpSystem_start_def)
  then have "loop_timers s l = example_queue 0" using s(6) example_RunAfter [of 0] by simp
  moreover have "http_run greeter (\<lambda>m. []) (\<lambda>l. example_env) 200 greet_start [H_Accept greet_client 7] s"
    by (rule http_cons [OF en s(1) http_nil])
  moreover have "app_world greet_start = 0" by (simp add: greet_start_def HttpSystem_start_def)
  ultimately show ?thesis using s en by auto
qed

text \<open>The client's request is handled.\<close>

lemma greet_served:
  "\<exists>s1 s2 c. http_exec greeter (\<lambda>m. []) (\<lambda>l. example_env) (H_Accept greet_client 7) greet_start = Inr s1
     \<and> http_run greeter (\<lambda>m. []) (\<lambda>l. example_env) 200 s1 [H_Ready 0 (fst greet_event) EPOLLIN] s2
     \<and> http_enabled greeter 200 (H_Accept greet_client 7) greet_start
     \<and> objects (tcp s2) 0 = Some (0 :: nat, c) \<and> conn_state c = Connected"
proof -
  obtain s1 c where s1: "http_exec greeter (\<lambda>m. []) (\<lambda>l. example_env) (H_Accept greet_client 7) greet_start = Inr s1"
      "http_enabled greeter 200 (H_Accept greet_client 7) greet_start" "http_inv (\<lambda>_. True) greeter (\<lambda>l. example_env) s1"
      "objects (tcp s1) 0 = Some (0, c)" "c = new_conn greet_client 7 0 (tcp greet_start)" "app_world s1 = 0"
    using greet_accepted by blast
  let ?c = "c\<lparr>loop_epoll := epolls (tcp s1) 0\<rparr>"
  have i: "server_inv (tcp s1)" using s1(3) by (simp add: http_inv_def)
  have ok: "conn_ok ?c" using object_ok_fields(4) [OF server_invD(4) [OF i s1(4)]] .
  have f: "conn_state c = Connected" "read_buf c = Buffer_ctor" "send_buf c = Buffer_ctor" "conn_context c = HttpContext_ctor False"
      "incoming (sock c) = arrivals [greet_event]"
    by (simp_all add: s1(5) new_conn_def established_eq set_close_callback_def greet_client_def)
  have idle: "idle ?c" using ok f(1,2) by (simp add: idle_def Buffer_ctor_def kPrePendIndex_def)
  have len: "length (request_text greet_request) \<le> 1024" "request_text greet_request \<noteq> []" "request_ok greet_request" by code_simp+
  have ck: "clock_ok greeter (fst greet_event)" "\<exists>t. Now (fst greet_event) = Inr t \<and> time_ok t"
    by (simp_all add: clock_ok_def greet_event_def Now_def time_ok_def signed_divide_int_def TimerStamp_ctor_def)
  have ev: "events_ok greeter [greet_event]" "concat (events_text [greet_event]) = request_text greet_request"
    using ck(1) len by (simp_all add: events_ok_def pieces_ok_def events_text_def greet_event_def)
  let ?r = "SetResponseBody ''hi'' (SetStatusCode k200OK (HttpResponse_ctor False))"
  have rm: "write_index (send_buf ?c) + int (length (message (\<lambda>m. []) ?r)) + 8 \<le> INT_MAX"
    unfolding f(3) by (simp add: f(3)) code_simp
  have on: "on_request greeter (the_request greet_request) (0, HttpResponse_ctor False) = Inr (1, ?r)"
    by (simp add: greet_simps greet_def)
  have open_: "\<not> close_connection ?r" by (simp add: SetResponseBody_def SetStatusCode_def HttpResponse_ctor_def)
  obtain c' where c': "serve greeter (\<lambda>m. []) [greet_event] (0, ?c) = Inr (1, c')" "idle c'"
    using serve_request [OF idle _ len(3) ev, where rs = "[]" and w = 0 and ?w1.0 = 1 and r = ?r and iter = "\<lambda>m. []"] f on rm open_
    by (auto simp: greet_event_def)
  have ready: "conn_ready greeter (\<lambda>m. []) (fst greet_event) EPOLLIN (app_world s1, ?c) = Inr (1, c')"
    using c'(1) s1(6)
    by (cases "conn_ready greeter (\<lambda>m. []) (fst greet_event) EPOLLIN (0, ?c)") (simp_all add: serve_def greet_event_def)
  have room: "conn_room 200 c"
    using f len(1) by (simp add: conn_room_def Buffer_ctor_def kPrePendIndex_def arrivals_def arrival_def greet_event_def)
  then have "conn_room 200 ?c" by (simp add: conn_room_def)
  then have k: "conn_ok c'" "same_place ?c c'"
    using conn_ready_ok [OF greet_ok(1) _ ok _ ck(1), where w = "app_world s1" and ev = EPOLLIN] ready by (auto simp: conn_kept_def)
  obtain v where v: "on_object (conn_ready greeter (\<lambda>m. []) (fst greet_event) EPOLLIN) 0 (app_world s1, tcp s1) = Inr (1, v)"
      "objects v = (objects (tcp s1))(0 \<mapsto> (0, c'))"
    using on_object_ok [where f = "conn_ready greeter (\<lambda>m. []) (fst greet_event) EPOLLIN" and w = "app_world s1" and ?w1.0 = 1, OF i s1(4) ready k]
    by (elim exE conjE) (rule that)
  let ?s = "s1\<lparr>app_world := 1, tcp := v\<rparr>"
  have "http_exec greeter (\<lambda>m. []) (\<lambda>l. example_env) (H_Ready 0 (fst greet_event) EPOLLIN) s1 = Inr ?s" using v(1) by simp
  moreover have "http_enabled greeter 200 (H_Ready 0 (fst greet_event) EPOLLIN) s1" using ck(2) s1(4) room by simp
  ultimately have "http_run greeter (\<lambda>m. []) (\<lambda>l. example_env) 200 s1 [H_Ready 0 (fst greet_event) EPOLLIN] ?s"
    using http_cons http_nil by blast
  then show ?thesis using s1(1,2) v(2) c'(2)
    by (intro exI [of _ s1] exI [of _ ?s] exI [of _ c']) (simp add: idle_def)
qed



text \<open>C7: An idle client does not keep its descriptor: whatever the server has been doing, when the timer of a
  connection without activity for longer than the timeout goes off, the functions that its loop and the main
  loop then have in their lists are finitely many, can be run, and when they have run the connection is
  destroyed and its descriptor closed.\<close>

theorem idle_client_disconnected:
  assumes "n \<le> INT_MAX" and "loops_ok h env" and "app_ok okw throws sz h iter" and "okw w"
    and "http_run h iter env sz (HttpSystem_start w (started_server ls n main)) xs s"
    and "objects (tcp s) p = Some (l, c)" and "Now (readings (env l) (clock_reads (loop_timers s l))) = Inr now"
    and "p \<in> set (due_callbacks now (loop_timers s l))" and "idle_too_long (env l) h (clock_reads (loop_timers s l) + 1) c"
  shows "\<exists>s1. http_exec h iter env (H_Timer l) s = Inr s1
     \<and> (\<forall>ys s2. http_run h iter env sz s1 ys s2 \<longrightarrow> (\<forall>y \<in> set ys. http_task y) \<longrightarrow>
          length ys \<le> length (main_tasks (tcp s1)) + card (shut_objects (tcp s1))
        \<and> (no_tasks (tcp s2) \<longrightarrow> objects (tcp s2) p = None \<and> connfd c \<notin> open_fds (tcp s2)))
     \<and> (\<exists>ys s2. http_run h iter env sz s1 ys s2 \<and> (\<forall>y \<in> set ys. http_task y) \<and> no_tasks (tcp s2))"
proof -
  have inv: "http_inv okw h env s" using reachable_http [OF assms(1-5)] .
  have e: "tq_env_ok (env l)" using assms(2) by (simp add: loops_ok_def)
  have "view (tcp s) p = Some (c\<lparr>loop_epoll := epolls (tcp s) l\<rparr>)" using assms(6) by (simp add: view_def)
  moreover have "idle_too_long (env l) h (clock_reads (loop_timers s l) + 1) (c\<lparr>loop_epoll := epolls (tcp s) l\<rparr>)"
    using assms(9) by (simp add: idle_too_long_def)
  ultimately obtain s1 where s1: "http_exec h iter env (H_Timer l) s = Inr s1" "http_inv okw h env s1"
      "same_loops (tcp s) (tcp s1)" "shut (view (tcp s1)) p"
    using timer_step [OF inv e, of iter] assms(7,8) by auto
  obtain c1 where c1: "objects (tcp s1) p = Some (l, c1)" "connfd c1 = connfd c"
    using same_loops_Some [OF same_loops_sym [OF s1(3)] assms(6)] by blast
  then have d: "conn_state c1 = Disconected" using s1(4) unfolding shut_view by blast
  have few: "length ys \<le> length (main_tasks (tcp s1)) + card (shut_objects (tcp s1))"
    if "http_run h iter env sz s1 ys s2" "\<forall>y \<in> set ys. http_task y" for ys s2
    using http_tasks_few [OF that(1) s1(2) that(2)] .
  note gone = http_tasks_done [OF _ s1(2) _ c1(1) d, unfolded c1(2)]
  show ?thesis
  proof (intro exI [of _ s1] conjI allI impI)
    show "\<exists>ys s2. http_run h iter env sz s1 ys s2 \<and> (\<forall>y \<in> set ys. http_task y) \<and> no_tasks (tcp s2)"
      using http_tasks_finish [OF s1(2)] .
  qed (use s1(1) few gone in blast)+
qed

theorem idle_client_disconnected_witness:
  "\<exists>s s1 ys s2. http_run greeter (\<lambda>m. []) (\<lambda>l. example_env) 200 greet_start [H_Accept greet_client 7] s
     \<and> objects (tcp s) 0 \<noteq> None \<and> http_exec greeter (\<lambda>m. []) (\<lambda>l. example_env) (H_Timer 0) s = Inr s1
     \<and> http_run greeter (\<lambda>m. []) (\<lambda>l. example_env) 200 s1 ys s2 \<and> objects (tcp s2) 0 = None"
proof -
  obtain s c where s: "http_run greeter (\<lambda>m. []) (\<lambda>l. example_env) 200 greet_start [H_Accept greet_client 7] s"
      "objects (tcp s) 0 = Some (0, c)" "c = new_conn greet_client 7 0 (tcp greet_start)" "loop_timers s 0 = example_queue 0"
    using greet_accepted by blast
  have "act_time c = TimerStamp_ctor 0"
    by (simp add: s(3) new_conn_def established_eq set_close_callback_def TcpConnection_ctor_def TimerStamp_ctor0_def TimerStamp_ctor_def)
  note idle = example_idle [OF greet_simps(1) this, of 0]
  from idle_client_disconnected [OF _ greet_ok(2,1) _ s(1) [unfolded greet_start_def] s(2), of "TimerStamp_ctor 200000000"]
  show ?thesis using s(1,2) example_due [of 0] idle unfolding s(4) by fastforce
qed



end
