(* ===== verification/EchoServer.thy ===== *)
theory EchoServer
  imports HttpServer TcpServer
begin

text \<open>
  The echo server of \<open>echo_server.cpp\<close> (class \<open>EchoServer\<close>), the library's smallest application: its message
  callback sends back what was read and closes the connection. It starts no other threads, so that all
  connections are on the main loop. What it prints is one string; the number of the thread and the
  addresses of the peers are parameters. The theory shows, for every interleaving of accepts, events and
  functions of the loop, what each client gets.
\<close>

section \<open>The server\<close>

record echo_env =
  cout_tid :: int
  peer_address :: "int \<Rightarrow> string \<times> nat"

record 'l EchoServer =
  tcp_server :: "'l TcpServer"
  echo_connect :: "string conn_callback"
  echo_message :: "string conn_callback"

definition endl :: string where
  "endl = [CHR 0x0A]"

definition onConnection_echo :: "echo_env \<Rightarrow> string conn_callback" where
  "onConnection_echo e = (\<lambda>(out, c).
     let (ip, port) = peer_address e (connfd c)
     in Inr (out @ to_string_int (cout_tid e) @ '' EchoServer::OnNewConnection : new connection ''
          @ ''[fd#'' @ to_string_int (connfd c) @ '']'' @ '' from '' @ ip @ '':'' @ to_string port @ endl, c))"

definition onMessage_echo :: "echo_env \<Rightarrow> string conn_callback" where
  "onMessage_echo e = (\<lambda>(out, c).
     if conn_state c = Connected then
       bindE (PeekAllAsString (read_buf c)) (\<lambda>m.
       let out1 = out @ to_string_int (cout_tid e) @ '' Message from clent: '' @ m @ endl
       in bindE (RetrieveAllAsString (read_buf c)) (\<lambda>(s, b).
          bindE (Send_string s (c\<lparr>read_buf := b\<rparr>)) (\<lambda>c1.
          Inr (out1, HandleClose c1))))
     else Inr (out, c))"

definition EchoServer_ctor :: "echo_env \<Rightarrow> 'l \<Rightarrow> 'l EchoServer" where
  "EchoServer_ctor e lp =
     \<lparr>tcp_server = TcpServer_ctor lp, echo_connect = onConnection_echo e, echo_message = onMessage_echo e\<rparr>"

definition start :: "(nat \<Rightarrow> 'l) \<Rightarrow> 'l EchoServer \<Rightarrow> 'l EchoServer" where
  "start started s = s\<lparr>tcp_server := Start_server started (tcp_server s)\<rparr>"

section \<open>Any event on a connection\<close>

text \<open>The room there must be for an event: for all that the client sends\<close>

definition echo_room :: "TcpConnection \<Rightarrow> bool" where
  "echo_room c \<longleftrightarrow> conn_room (length (ingoing c)) c"

text \<open>From one state of a connection to a later one: its bytes are kept, and they are sent only when it closes.\<close>

definition echo_kept :: "TcpConnection \<Rightarrow> TcpConnection \<Rightarrow> bool" where
  "echo_kept c c' \<longleftrightarrow> outgoing c' @ ingoing c' = outgoing c @ ingoing c
     \<and> (conn_state c' = Connected \<or> conn_state c \<noteq> Connected \<longrightarrow> outgoing c' = outgoing c)"

lemma echo_kept_trans: "echo_kept a b \<Longrightarrow> echo_kept b c \<Longrightarrow> same_place b c \<Longrightarrow> same_place a b \<Longrightarrow> echo_kept a c"
  by (auto simp: echo_kept_def same_place_def)

lemma echo_op:
  assumes "conn_ok c" "conn_room n c" "op_msg f = []"
  shows "\<exists>c'. conn_exec f c = Inr c' \<and> conn_ok c' \<and> same_place c c' \<and> echo_kept c c' \<and> conn_room n c' \<and> ingoing c' = ingoing c"
  using conn_exec_step [of c f n] conn_exec_same_place [of f c] assms by (fastforce simp: echo_kept_def)

lemma onMessage_echo_ok:
  assumes "conn_ok c" "echo_room c"
  shows "\<exists>out' c'. onMessage_echo e (out, c) = Inr (out', c') \<and> conn_ok c' \<and> same_place c c' \<and> echo_kept c c' \<and> conn_room 0 c'"
proof (cases "conn_state c = Connected")
  case False
  moreover have "conn_room 0 c" using assms(2) by (simp add: echo_room_def conn_room_def)
  ultimately show ?thesis using assms(1) by (simp add: onMessage_echo_def echo_kept_def)
next
  case True
  have b: "binv (read_buf c)" using assms(1) by (simp add: conn_ok_def conn_inv_def)
  let ?m = "contents (read_buf c)" and ?c = "c\<lparr>read_buf := RetrieveAll (read_buf c)\<rparr>"
  have r: "RetrieveAllAsString (read_buf c) = Inr (?m, RetrieveAll (read_buf c))" "binv (RetrieveAll (read_buf c))"
      "contents (RetrieveAll (read_buf c)) = []"
    using RetrieveAllAsString_spec [OF b] RetrieveAll_spec(1) [OF b] RetrieveAll_spec(2) by simp_all
  then have p: "PeekAllAsString (read_buf c) = Inr ?m" by (auto simp: RetrieveAllAsString_def result_simps)
  have ok: "conn_ok ?c" using conn_ok_cong [OF assms(1), of "RetrieveAll (read_buf c)" "sock c" "channel c" "act_time c"] r(2) by simp
  have "conn_room (length (op_msg (Op_Send ?m)) + 0) ?c"
    using assms(2) b by (auto simp: echo_room_def conn_room_def ingoing_def RetrieveAll_def kPrePendIndex_def binv_def)
  from conn_exec_step [OF ok this] obtain c1 where c1: "Send_string ?m ?c = Inr c1" "conn_ok c1" "conn_room 0 c1"
      "outgoing c1 = outgoing ?c @ ?m" "ingoing c1 = ingoing ?c" by auto
  have s: "same_place ?c c1" using conn_exec_same_place [of "Op_Send ?m" ?c c1] c1(1) by simp
  have "same_place c ?c" by (simp add: same_place_def)
  then have "same_place c (HandleClose c1)" using same_place_trans same_place_trans [OF _ s] same_place_HandleClose by blast
  moreover have "echo_kept c (HandleClose c1)"
    using HandleClose_ok [OF c1(2)] c1(4,5) r(3) True by (simp add: echo_kept_def ingoing_def outgoing_def)
  moreover have "conn_room 0 (HandleClose c1)" using c1(3) by (simp add: conn_room_def)
  ultimately show ?thesis using p r(1) c1(1) True HandleClose_ok(1) [OF c1(2)] by (simp add: onMessage_echo_def)
qed

lemma echo_ready_ok:
  assumes "conn_ok c" "echo_room c"
  shows "\<exists>out' c'. on_ready (onMessage_echo e) ev (out, c) = Inr (out', c') \<and> conn_ok c' \<and> same_place c c' \<and> echo_kept c c'"
proof -
  define ch where "ch = SetReadyEvents ev (channel c)"
  define c0 where "c0 = c\<lparr>channel := ch\<rparr>"
  have c0: "conn_ok c0" "echo_room c0" "same_place c c0" "echo_kept c c0"
    using assms conn_ok_ready [of ev c]
    by (simp_all add: c0_def ch_def echo_room_def conn_room_def ingoing_def outgoing_def same_place_def echo_kept_def SetReadyEvents_def)
  define msg where "msg = (if short_and (ready_events ch) (EPOLLIN OR EPOLLPRI OR EPOLLRDHUP) \<noteq> 0
     then HandleMessage (Some (onMessage_echo e)) (out, c0) else Inr (out, c0))"
  have e: "on_ready (onMessage_echo e) ev (out, c) = bindE msg (\<lambda>wc.
      if short_and (ready_events ch) EPOLLOUT \<noteq> 0 then bindE (HandleWrite (snd wc)) (\<lambda>c1. Inr (fst wc, c1)) else Inr wc)"
    by (simp add: on_ready_def HandleEvent_def HandleEventWithGuard_def msg_def ch_def c0_def Let_def case_prod_beta)
  obtain out1 c1 where c1: "msg = Inr (out1, c1)" "conn_ok c1" "same_place c c1" "echo_kept c c1" "conn_room 0 c1"
  proof (cases "short_and (ready_events ch) (EPOLLIN OR EPOLLPRI OR EPOLLRDHUP) = 0")
    case True
    moreover have "conn_room 0 c0" using c0(2) by (simp add: echo_room_def conn_room_def)
    ultimately show thesis using that c0 by (simp add: msg_def)
  next
    case False
    obtain d where d: "ReadNonBlocking c0 = Inr d" "conn_ok d" "same_place c0 d" "echo_kept c0 d" "echo_room d"
      using echo_op [OF c0(1), of "length (ingoing c0)" Op_Read] c0(2) by (fastforce simp: echo_room_def)
    obtain out1 c1 where m: "onMessage_echo e (out, d) = Inr (out1, c1)" "conn_ok c1" "same_place d c1" "echo_kept d c1" "conn_room 0 c1"
      using onMessage_echo_ok [OF d(2,5)] by blast
    have "same_place c d" "echo_kept c d" using same_place_trans [OF c0(3) d(3)] echo_kept_trans [OF c0(4) d(4,3) c0(3)] by simp_all
    then show thesis using that [of out1 c1] m d(1) False same_place_trans [OF _ m(3)] echo_kept_trans [OF _ m(4,3)]
      by (simp add: msg_def HandleMessage_def)
  qed
  obtain c2 where c2: "HandleWrite c1 = Inr c2" "conn_ok c2" "same_place c1 c2" "echo_kept c1 c2"
    using echo_op [OF c1(2,5), of Op_HandleWrite] by auto
  show ?thesis using e c1 c2 same_place_trans [OF c1(3) c2(3)] echo_kept_trans [OF c1(4) c2(4,3) c1(3)] by auto
qed

section \<open>Interleavings\<close>

text \<open>A client is accepted, the kernel reports events on a connection, the loop runs the next function of its
  list. (There is one loop; the steps are those of a server with any loops.)\<close>

datatype 'l echo_step = E_Accept conn_env int | E_Ready nat "32 word" | E_Main | E_Loop 'l

fun echo_exec :: "'l EchoServer \<Rightarrow> 'l echo_step \<Rightarrow> string \<times> 'l TcpServer \<Rightarrow> (string \<times> 'l TcpServer) result" where
  "echo_exec h (E_Accept ce fd) s = server_exec (Some (echo_connect h)) (V_Accept ce fd) s"
| "echo_exec h (E_Ready p ev) s = on_object (on_ready (echo_message h) ev) p s"
| "echo_exec h E_Main s = server_exec (Some (echo_connect h)) V_Main s"
| "echo_exec h (E_Loop l) s = server_exec (Some (echo_connect h)) (V_Loop l) s"

fun echo_enabled :: "'l echo_step \<Rightarrow> 'l TcpServer \<Rightarrow> bool" where
  "echo_enabled (E_Accept ce fd) v \<longleftrightarrow> server_enabled (V_Accept ce fd) v"
| "echo_enabled (E_Ready p ev) v \<longleftrightarrow> (case objects v p of Some (l, c) \<Rightarrow> echo_room c | None \<Rightarrow> False)"
| "echo_enabled E_Main v \<longleftrightarrow> main_tasks v \<noteq> []"
| "echo_enabled (E_Loop l) v \<longleftrightarrow> loop_tasks v l \<noteq> []"

inductive echo_run :: "'l EchoServer \<Rightarrow> string \<times> 'l TcpServer \<Rightarrow> 'l echo_step list \<Rightarrow> string \<times> 'l TcpServer \<Rightarrow> bool" for h where
  echo_nil: "echo_run h s [] s"
| echo_cons: "echo_enabled x (snd s) \<Longrightarrow> echo_exec h x s = Inr s1 \<Longrightarrow> echo_run h s1 xs s2 \<Longrightarrow> echo_run h s (x # xs) s2"

fun echo_accepts :: "nat \<Rightarrow> 'l echo_step \<Rightarrow> bool" where
  "echo_accepts p (E_Accept ce fd) \<longleftrightarrow> env_address ce = p"
| "echo_accepts p _ \<longleftrightarrow> False"

lemma quiet_echo:
  "quiet (Some (echo_connect (start started (EchoServer_ctor e main))))"
  "echo_message (start started (EchoServer_ctor e main)) = onMessage_echo e"
  by (auto simp: quiet_def start_def EchoServer_ctor_def onConnection_echo_def split: prod.split)

text \<open>What a step does to a connection that it does not accept\<close>

definition later :: "nat \<Rightarrow> 'l TcpServer \<Rightarrow> 'l TcpServer \<Rightarrow> bool" where
  "later p v v' \<longleftrightarrow> (\<forall>l c'. objects v' p = Some (l, c') \<longrightarrow>
     (\<exists>c. objects v p = Some (l, c) \<and> echo_kept c c' \<and> (conn_state c' = conn_state c \<or> conn_state c' = Disconected)))"

lemma later_same: "objects v' p = objects v p \<or> objects v' p = None \<Longrightarrow> later p v v'"
  by (auto simp: later_def echo_kept_def)

lemma later_trans: "later p u v \<Longrightarrow> later p v w \<Longrightarrow> later p u w"
  unfolding later_def echo_kept_def by fastforce

lemma echo_task_step:
  assumes "server_inv v" "quiet g" "is_task y" "server_enabled y v"
  shows "\<exists>out' v'. server_exec g y (out, v) = Inr (out', v') \<and> server_inv v' \<and> (\<forall>p. later p v v')"
proof -
  obtain out' v' where s: "server_exec g y (out, v) = Inr (out', v')" "server_inv v'"
    using server_step_ok [of "(out, v)" g y] assms by auto
  have "later p v v'" for p using task_step(2) [OF assms(1,3,4) s(1), of p] by (intro later_same) auto
  then show ?thesis using s by blast
qed

lemma echo_step_ok:
  assumes "server_inv v" "quiet (Some (echo_connect h))" "echo_message h = onMessage_echo e" "echo_enabled x v"
  shows "\<exists>out' v'. echo_exec h x (out, v) = Inr (out', v') \<and> server_inv v' \<and> (\<forall>p. \<not> echo_accepts p x \<longrightarrow> later p v v')"
proof (cases x)
  case (E_Accept ce fd)
  then have en: "0 \<le> fd" "fd \<notin> open_fds v" "objects v (env_address ce) = None" "socket_ok (env_socket ce)" using assms(4) by simp_all
  obtain l tp where g: "GetNextLoop (thread_pool v) = Inr (l, tp)"
    using pool.get_ok [OF server_invD(1) [OF assms(1)]] by blast
  obtain out' where "echo_connect h (out, new_conn ce fd l v) = Inr (out', new_conn ce fd l v)"
    using assms(2) by (auto simp: quiet_def)
  then have "echo_exec h x (out, v) = Inr (out', accepted ce fd l tp v)"
    using accept_exec [OF g en(1), where on_connect = "Some (echo_connect h)" and w = out and w' = out'] E_Accept by simp
  moreover have "later p v (accepted ce fd l tp v)" if "\<not> echo_accepts p x" for p
    using that E_Accept by (intro later_same) (auto simp: accepted_def)
  ultimately show ?thesis using accepted_inv [OF assms(1) g en] by blast
next
  case (E_Ready q ev)
  then obtain l c where o: "objects v q = Some (l, c)" "echo_room c" using assms(4) by (auto split: option.splits)
  let ?c = "c\<lparr>loop_epoll := epolls v l\<rparr>"
  have ok: "conn_ok ?c" using object_ok_fields(4) [OF server_invD(4) [OF assms(1) o(1)]] .
  have "echo_room ?c" using o(2) by (simp add: echo_room_def conn_room_def ingoing_def)
  then obtain out' c' where r: "on_ready (onMessage_echo e) ev (out, ?c) = Inr (out', c')" and k: "conn_ok c'" "same_place ?c c'" "echo_kept ?c c'"
    using echo_ready_ok [OF ok] by blast
  obtain v' where v': "on_object (on_ready (onMessage_echo e) ev) q (out, v) = Inr (out', v')" "server_inv v'"
      "objects v' = (objects v)(q \<mapsto> (l, c'))"
    using on_object_ok [where f = "on_ready (onMessage_echo e) ev" and w = out and ?w1.0 = out', OF assms(1) o(1) r k(1,2)] by (elim exE conjE) (rule that)
  have "later p v v'" for p
    using k o(1) by (auto simp: later_def v'(3) echo_kept_def same_place_def outgoing_def ingoing_def)
  then show ?thesis using v' E_Ready assms(3) by auto
next
  case E_Main
  then show ?thesis using echo_task_step [OF assms(1,2), of V_Main out] assms(4) by simp
next
  case (E_Loop l)
  then show ?thesis using echo_task_step [OF assms(1,2), of "V_Loop l" out] assms(4) by simp
qed

lemma echo_run_ok:
  assumes "echo_run h s xs s2" "server_inv (snd s)" "quiet (Some (echo_connect h))" "echo_message h = onMessage_echo e"
  shows "server_inv (snd s2) \<and> (\<forall>p. (\<forall>x \<in> set xs. \<not> echo_accepts p x) \<longrightarrow> later p (snd s) (snd s2))"
  using assms(1,2)
proof induction
  case (echo_cons x s s1 xs s2)
  have "server_inv (snd s1)" "\<And>p. \<not> echo_accepts p x \<Longrightarrow> later p (snd s) (snd s1)"
    using echo_step_ok [OF echo_cons.prems assms(3,4) echo_cons.hyps(1), of "fst s"] echo_cons.hyps(2) by auto
  then show ?case using echo_cons.IH later_trans by (metis list.set_intros)
qed (simp add: later_same)

section \<open>One event\<close>

lemma echo_event:
  assumes "idle c" and "pieces_ok ps" and "incoming (sock c) = arrival ps @ rs"
    and "write_index (send_buf c) + int (length (concat ps)) + 8 \<le> INT_MAX"
  shows "\<exists>c'. on_ready (onMessage_echo e) EPOLLIN (out, c)
        = Inr (out @ to_string_int (cout_tid e) @ '' Message from clent: '' @ concat ps @ endl, c')
     \<and> outgoing c' = outgoing c @ concat ps \<and> conn_state c' = Disconected \<and> close_calls c' = 1"
proof -
  define ch where "ch = SetReadyEvents EPOLLIN (channel c)"
  obtain b where b: "ReadNonBlocking (c\<lparr>channel := ch\<rparr>) = Inr (c\<lparr>channel := ch, read_buf := b, sock := (sock c)\<lparr>incoming := rs\<rparr>\<rparr>)"
      "binv b" "contents b = concat ps"
    using idle_read [OF assms(1-3)] by blast
  let ?c = "c\<lparr>channel := ch, sock := (sock c)\<lparr>incoming := rs\<rparr>, read_buf := RetrieveAll b\<rparr>"
  have ok: "conn_ok (c\<lparr>channel := ch\<rparr>)" "conn_state c = Connected" using assms(1) conn_ok_ready [of EPOLLIN c] by (simp_all add: idle_def ch_def)
  have ok1: "conn_ok ?c"
    using ok(1) b(2) assms(3) by (auto simp: conn_ok_def conn_inv_def writes_ok_def reads_ok_def closed_once_def)
  have "conn_inv ?c" "writes_ok ?c" using ok1 by (simp_all add: conn_ok_def)
  then obtain c1 where c1: "Send_string (concat ps) ?c = Inr c1" "conn_inv c1" "writes_ok c1" "outgoing c1 = outgoing ?c @ concat ps"
      "same_but_io ?c c1"
    using Send_spec [of ?c "concat ps"] assms(4) by auto
  have "conn_ok c1" using conn_ok_same [OF ok1 c1(5,2,3) close_callback_io(3) [OF c1(1)]] .
  then have "conn_ok (HandleClose c1)" "outgoing (HandleClose c1) = outgoing c @ concat ps"
    using HandleClose_ok [of c1] c1(4) by (simp_all add: outgoing_def)
  moreover have "PeekAllAsString b = Inr (contents b)"
    using RetrieveAllAsString_spec [OF b(2)] by (simp add: RetrieveAllAsString_def result_simps)
  then have "on_ready (onMessage_echo e) EPOLLIN (out, c)
      = Inr (out @ to_string_int (cout_tid e) @ '' Message from clent: '' @ concat ps @ endl, HandleClose c1)"
    unfolding on_ready_in ch_def [symmetric]
    using b(1,3) ok(2) c1(1) RetrieveAllAsString_spec [OF b(2)] by (simp add: HandleMessage_def onMessage_echo_def)
  ultimately show ?thesis by (auto simp: conn_ok_def closed_once_def)
qed

section \<open>What a client of the echo server gets\<close>

lemma started_echo_inv: "server_inv (tcp_server (start started (EchoServer_ctor e main)))"
  by (simp add: start_def EchoServer_ctor_def TcpServer_ctor_inv)


text \<open>A client that sends \<open>hi\<close>\<close>

definition hi_client :: conn_env where
  "hi_client = \<lparr>env_state = Invalid, env_tied = False, env_headers = False,
     env_socket = \<lparr>incoming = arrival [''hi''], accepts = [W_sent 2], sent = []\<rparr>, env_address = 0\<rparr>"

definition hi_env :: echo_env where
  "hi_env = \<lparr>cout_tid = 5, peer_address = (\<lambda>fd. (''127.0.0.1'', 9))\<rparr>"

definition hi_server :: "nat EchoServer" where
  "hi_server = start (\<lambda>i. i) (EchoServer_ctor hi_env 0)"


end
