(* ===== verification/Spec2Isabelle.thy ===== *)
theory Spec2Isabelle
  imports FileServer Directories AsyncLogger Logger HttpSystem EchoServer
begin

text \<open>
  A verification development for the C++ HTTP file server: an epoll-based network library
  (\<open>tcp/\<close>), an HTTP layer and the file server on top of it (\<open>http/\<close>), and utilities, among them
  timers and an asynchronous logger (\<open>utils/\<close>).

  \<^bold>\<open>How the program works.\<close> The main thread accepts clients (\<open>Acceptor\<close>) and gives each to one of a pool
  of event loops, one per thread (\<open>TcpServer\<close>, \<open>EventLoopThreadPool\<close>). A loop waits in \<open>epoll\<close> and
  calls the callbacks of the channels that are ready: a connection reads what has arrived into its
  buffer, the HTTP server feeds it to the parser of the connection and, when a request is complete,
  calls the file server, whose response is sent; what the socket does not take is sent when it becomes
  writable. A connection that ends is taken out of the server's map in the main thread and destroyed in
  its own. Other threads hand functions to a loop over a list and wake it through a descriptor. Timers
  close idle connections. Log statements are formatted into lines that a thread of their own writes to
  files.

  \<^bold>\<open>Theories.\<close> Each models one part, in the order of the calls, its state as a record with the class's
  members, one definition per function with the source's name:
    \<^item> \<open>Prelude\<close>: results (\<open>Inl\<close> an exception, a failed assertion or undefined behaviour), \<open>int\<close>, \<open>size_t\<close> and
      \<open>int64_t\<close> arithmetic with wrap-around or overflow written out, loops over lists that may fail.
      \<open>CppString\<close>: the operations of \<open>std::string\<close> and the number conversions the program uses.
    \<^item> \<open>Buffer\<close> (\<open>utils/Buffer.h, .cpp\<close>): the byte queue with its two indices into a vector.
    \<^item> \<open>HttpRequest\<close>, \<open>HttpContext\<close>, \<open>HttpResponse\<close> (\<open>http/\<close>): the request, the incremental parser, the
      response and its text.
    \<^item> \<open>FileHandler\<close> (\<open>utils/FileHandler\<close>) and \<open>FileServer\<close> (\<open>http/FileServer\<close>): files as a map from paths to
      contents, and the request handlers.
    \<^item> \<open>Directories\<close> (\<open>utils/FileHandler.cpp\<close>): the tree of directories below that map, with the functions that make,
      remove, move and list.
    \<^item> \<open>Channel\<close> (\<open>tcp/Channel\<close>, \<open>tcp/Epoller\<close>): event masks at their width and the kernel's interest list.
    \<^item> \<open>TcpConnection\<close> (\<open>tcp/TcpConnection\<close>): reading, writing and closing, over a socket that is given as
      the results of the system calls to come.
    \<^item> \<open>HttpServer\<close> (\<open>http/HttpServer\<close>): what happens when a message has been read.
    \<^item> \<open>TimerStamp\<close> (\<open>utils/TimerStamp.h\<close>), \<open>TimerQueue\<close> (\<open>utils/Timer.h\<close>, \<open>utils/TimerQueue\<close>): the ordered set
      of timers, pointers into a heap of timers. \<open>IdleTimeout\<close> (\<open>http/HttpServer.cpp\<close>): the idle timeout
      over both.
    \<^item> \<open>EventLoop\<close> (\<open>tcp/EventLoop\<close>): the list of functions and the wakeup, as steps of the loop's thread and
      of other threads.
    \<^item> \<open>ThreadPool\<close> (\<open>tcp/EventLoopThread\<close>, \<open>tcp/EventLoopThreadPool\<close>): the start of a loop's thread, the
      round robin. \<open>TcpServer\<close> (\<open>tcp/TcpServer\<close>, \<open>tcp/Acceptor\<close>): accepting, the map of connections with
      shared ownership, closing across threads.
    \<^item> \<open>HttpSystem\<close> (\<open>http/HttpServer.cpp\<close> over the above): the server as a whole, the connections of all loops with
      their timers and the world of the application; its steps run the handlers of \<open>HttpServer\<close> and
      \<open>IdleTimeout\<close> on the objects of \<open>TcpServer\<close>.
    \<^item> \<open>EchoServer\<close> (\<open>echo_server.cpp\<close>): the smallest application of the library, on one loop, with what each
      of its clients gets.
    \<^item> \<open>LogFile\<close>, \<open>LogStream\<close>, \<open>Logger\<close>, \<open>AsyncLogger\<close> (\<open>utils/\<close>): the log file, the formatting stream with its
      fixed array, a log statement, the logging thread as interleaved steps.
    \<^item> This theory: the file server as the application of the HTTP server, and what a client sees.

  \<^bold>\<open>What is shown.\<close> Invariants: of the buffer's indices; of channel and interest list; of a connection and
  its buffers; of the timer queue (ordered, every entry a live timer, armed for the first); of a loop
  (no lost wakeup); of the server (map, live connections and open descriptors agree). Functional
  behaviour: the parser on every division of a text into pieces, the responses and their text, the
  handlers of the file server, a whole session over a connection, a whole upload and download, and the
  sessions of many clients interleaved with each other, with timers and with closing connections. Across
  threads, for every interleaving: functions handed to a loop run once and in order, closed connections
  are destroyed and their descriptors closed, log lines are written once. Termination and progress:
  starting a loop's thread, writing a log file, sending the waiting bytes, running queued functions.
  Errors: which exceptions the parser can throw, malformed requests, failed writes and accepts. Where
  the code does not do what it means to, the property says what it does.

  \<^bold>\<open>Interfaces.\<close> Locales state what one part relies on of another: the byte queue (\<open>Buffer\<close>), timer callbacks
  that keep the queue (\<open>TimerQueue\<close>, interpreted with the idle timeout), the supply of loops
  (\<open>ThreadPool\<close>); each is interpreted on the definitions of the program.

  \<^bold>\<open>Bounds.\<close> No fuel is used: the parser's and the stream's loops are functions with termination proofs;
  loops that wait for the system are sequences of steps of any length. Sizes appear where the code
  computes with \<open>int\<close>: bytes in a buffer stay below \<open>2 ^ 31\<close> in the theorems on connections, fewer than
  \<open>2 ^ 64 - 2\<close> steps are made between two looks at a wakeup counter, times stay some 100000 years away
  from the limits of 64 bits.

  \<^bold>\<open>Parameters.\<close> What the code takes from outside: results of system calls, clock readings, rounding of
  double arithmetic, the allocator, the order of iteration over an unordered map, the order of a
  directory listing, the text of \<open>snprintf\<close> for doubles and of system errors.

  \<^bold>\<open>Not modelled.\<close> \<open>PathUtils::GetRelativePath\<close>, which has no caller and whose result on paths that do not exist
  is a matter of the library; links, rights and mounted file systems; what is left of a directory that is
  removed under the name of a dot (a parameter); log lines of the handlers
  (they change no state of the server) and what is printed when a system call fails; destructors that run
  only when the process ends (server, thread pool); the main programs, the test client and the tests, which
  only call the library. Each step of the interleavings is a critical section or a piece of code that touches only
  its own thread's state; data races outside of that (a timer added from the main thread) are not
  modelled but noted as findings.
\<close>

section \<open>The file server on a connection\<close>

text \<open>\<open>FileServer::FileServer\<close>: an HTTP server whose callback is \<open>AnalyzeRequest\<close>, over the file system\<close>

definition FileServer_ctor :: "fs_env \<Rightarrow> real \<Rightarrow> file_system HttpServer" where
  "FileServer_ctor e tm = set_http_callback (\<lambda>req (fs, r). AnalyzeRequest e req fs r) (HttpServer_ctor tm)"

lemma on_request_FileServer [simp]: "on_request (FileServer_ctor e tm) req (fs, r) = AnalyzeRequest e req fs r"
  by (simp add: FileServer_ctor_def set_http_callback_def)

text \<open>The two answers\<close>

definition created_answer :: HttpResponse where
  "created_answer = SetStatusMessage ''Created'' (SetStatusCode k201Created (HttpResponse_ctor False))"

definition download_answer :: "string \<Rightarrow> string \<Rightarrow> HttpResponse" where
  "download_answer p body =
     AddHeader ''Cache-Control'' ''no-cache'' (AddHeader ''Content-Disposition'' (''attachment; filename='' @ GetFileName p)
       (SetContentLength (int (length body)) (SetResponseBody body (SetContentType (getMimeType p)
         (SetStatusMessage ''OK'' (SetStatusCode k200OK (HttpResponse_ctor False)))))))"

lemma plain_text_drop: "plain_text s \<Longrightarrow> plain_text (drop n s)"
  by (auto simp: plain_text_def dest: in_set_dropD)

lemma plain_text_GetFileName: "plain_text p \<Longrightarrow> plain_text (GetFileName p)"
  by (simp add: GetFileName_def plain_text_drop split: option.splits)

lemma plain_text_request_filename: "plain_text u \<Longrightarrow> plain_text (request_filename u)"
  by (simp add: request_filename_def plain_text_drop split: option.splits)

lemma plain_text_mime: "plain_text (getMimeType p)"
proof -
  have "list_all (\<lambda>(k, t). CHR 0x0D \<notin> set t) mime_types" by (simp add: mime_types_def)
  then have "plain_text t" if "map_of mime_types k = Some t" for k t
    using map_of_SomeD [OF that] by (auto simp: list_all_iff plain_text_def)
  then show ?thesis by (auto simp: getMimeType_def Let_def plain_text_def split: option.splits)
qed

text \<open>The setters keep a response made of single lines\<close>

lemma response_ok_setters:
  "response_ok (HttpResponse_ctor b)"
  "response_ok r \<Longrightarrow> response_ok (SetStatusCode c r)" "response_ok r \<Longrightarrow> response_ok (SetCloseConnection b r)"
  "response_ok r \<Longrightarrow> response_ok (SetResponseBody t r)"
  "response_ok r \<Longrightarrow> plain_text m \<Longrightarrow> response_ok (SetStatusMessage m r)"
  "response_ok r \<Longrightarrow> plain_text k \<Longrightarrow> plain_text v \<Longrightarrow> CHR '':'' \<notin> set k \<Longrightarrow> response_ok (AddHeader k v r)"
  "response_ok r \<Longrightarrow> plain_text v \<Longrightarrow> response_ok (SetContentType v r)"
  "response_ok r \<Longrightarrow> plain_text (to_string (size_t n)) \<Longrightarrow> response_ok (SetContentLength n r)"
  by (auto simp: response_ok_def HttpResponse_ctor_def SetStatusCode_def SetCloseConnection_def SetResponseBody_def
      SetStatusMessage_def AddHeader_def SetContentType_def SetContentLength_def Let_def plain_text_def)

lemma plain_text_to_string: "plain_text (to_string n)"
  using num_str_chars(4) [of 10 _ n] by (auto simp: plain_text_def to_string_def)

lemma answers_ok:
  "response_ok created_answer" "plain_text p \<Longrightarrow> response_ok (download_answer p body)"
proof -
  have l: "plain_text ''Created''" "plain_text ''OK''" "plain_text ''Cache-Control''" "plain_text ''no-cache''"
    "plain_text ''Content-Disposition''" "plain_text (''attachment; filename='' @ s) \<longleftrightarrow> plain_text s" for s
    by (simp_all add: plain_text_def)
  show "response_ok created_answer" by (auto simp: created_answer_def intro!: response_ok_setters l)
  assume "plain_text p"
  then show "response_ok (download_answer p body)"
    unfolding download_answer_def by (intro response_ok_setters l plain_text_mime plain_text_to_string plain_text_GetFileName iffD2 [OF l(6)]) (simp_all)
qed


definition read_headers :: "HttpResponse \<Rightarrow> string \<rightharpoonup> string" where
  "read_headers r = ([''Connection'' \<mapsto> if close_connection r then ''close'' else ''Keep-Alive''] ++ rs_headers r)
        (''Cache-Control'' \<mapsto> ''no-cache, no-store, must-revalidate'')"

lemma client_reads_line:
  assumes "response_ok r" and "iterates iter"
  shows "client_read (message iter r)
     = Some (''HTTP/1.1 '' @ to_string_int (status_code r) @ '' '' @ status_message r, read_headers r, rs_body r)"
  using client_reads [OF assms] by (simp add: read_headers_def)

lemma answer_parts:
  "''HTTP/1.1 '' @ to_string_int (status_code created_answer) @ '' '' @ status_message created_answer = ''HTTP/1.1 201 Created''"
  "rs_body created_answer = []"
  "''HTTP/1.1 '' @ to_string_int (status_code (download_answer p b)) @ '' '' @ status_message (download_answer p b) = ''HTTP/1.1 200 OK''"
  "rs_body (download_answer p b) = b"
  "int (length b) \<le> ULONG_MAX \<Longrightarrow> read_headers (download_answer p b) ''Content-Length'' = Some (to_string (length b))"
proof -
  have n: "to_string_int 201 = ''201''" "to_string_int 200 = ''200''" by code_simp+
  show "''HTTP/1.1 '' @ to_string_int (status_code created_answer) @ '' '' @ status_message created_answer = ''HTTP/1.1 201 Created''"
    "rs_body created_answer = []"
    by (simp_all add: created_answer_def response_defs HttpResponse_ctor_def k201Created_def n)
  show "''HTTP/1.1 '' @ to_string_int (status_code (download_answer p b)) @ '' '' @ status_message (download_answer p b) = ''HTTP/1.1 200 OK''"
    "rs_body (download_answer p b) = b"
    by (simp_all add: download_answer_def response_defs HttpResponse_ctor_def k200OK_def Let_def n)
  show "int (length b) \<le> ULONG_MAX \<Longrightarrow> read_headers (download_answer p b) ''Content-Length'' = Some (to_string (length b))"
    by (simp add: read_headers_def download_answer_def response_defs Let_def ULONG_MAX_def)
qed

lemma session_app:
  assumes "u \<noteq> ''/''" "u \<noteq> ''/favicon.ico''" "u' \<noteq> ''/''" "u' \<noteq> ''/favicon.ico''"
    and "request_filename u' = request_filename u" and "map_of (rev hs') ''Range'' = None"
    and "can_write e (root_path e @ request_filename u)" and "fs (root_path e @ request_filename u) = None"
  shows "app_run (on_request (FileServer_ctor e tm)) (map the_request [(''POST'', u, hs, body), (''GET'', u', hs', [])]) fs
     = Inr (fs(root_path e @ request_filename u \<mapsto> body), [created_answer, download_answer (root_path e @ request_filename u) body])"
proof -
  let ?p = "root_path e @ request_filename u" and ?up = "ctx_request (parsed_request ''POST'' u hs body)" and ?down = "ctx_request (parsed_request ''GET'' u' hs' [])"
  have n: "names_file ?up" "names_file ?down" "rq_method ?up = kPOST" "rq_method ?down = kGET"
    using assms(1-4) by (simp_all add: names_file_def parsed_request_fields SetMethod_def)
  have up: "AnalyzeRequest e ?up fs (HttpResponse_ctor False) = Inr (fs(?p \<mapsto> body), created_answer)"
    using assms by (simp add: AnalyzeRequest_POST [OF n(1,3)] HandleUpload_def Exists_def writeFileBinary_def Let_def created_answer_def parsed_request_fields)
  have down: "AnalyzeRequest e ?down (fs(?p \<mapsto> body)) (HttpResponse_ctor False) = Inr (fs(?p \<mapsto> body), download_answer ?p body)"
    using assms by (simp add: AnalyzeRequest_GET [OF n(2,4)] HandleDownload_def HasHeader_def Let_def BuildDownloadResponse_def
      readFileBinary_def getFileSize_def download_answer_def parsed_request_fields)
  show ?thesis using up down by simp
qed

section \<open>Properties across the components\<close>


text \<open>The upload in two events, the download in one\<close>

definition upload_events :: "(timespec \<times> string list) list" where
  "upload_events = [(\<lparr>tv_sec = 0, tv_nsec = 0\<rparr>, [''POST /a HTTP/1.1'' @ crlf @ ''Content-Len'']),
                    (\<lparr>tv_sec = 0, tv_nsec = 0\<rparr>, [''gth: 3'' @ crlf, crlf @ ''xyz''])]"

definition download_events :: "(timespec \<times> string list) list" where
  "download_events = [(\<lparr>tv_sec = 1, tv_nsec = 0\<rparr>, [''GET /download/a HTTP/1.1'' @ crlf @ ''Content-Length: 0'' @ crlf @ crlf])]"

lemma length_by_key:
  assumes "finite (dom m)"
  shows "length (concat (map (\<lambda>(k, v). k @ CHR '':'' # CHR '' '' # v @ crlf) (by_key m))) = (\<Sum>k \<in> dom m. length k + length (the (m k)) + 4)"
proof -
  have "length (concat (map (\<lambda>(k, v). k @ CHR '':'' # CHR '' '' # v @ crlf) (by_key m)))
      = sum_list (map (\<lambda>k. length k + length (the (m k)) + 4) (sorted_list_of_set (dom m)))"
    by (simp add: by_key_def length_concat comp_def crlf_def eval_nat_numeral)
  also have "\<dots> = (\<Sum>k \<in> set (sorted_list_of_set (dom m)). length k + length (the (m k)) + 4)"
    by (simp add: sum_list_distinct_conv_sum_set)
  finally show ?thesis using assms by simp
qed

lemma example_lengths:
  "length (message by_key created_answer) \<le> 1000" "length (message by_key (download_answer ''../files/a'' ''xyz'')) \<le> 1000"
proof -
  have n: "to_string_int 201 = ''201''" "to_string_int 200 = ''200''" "to_string 3 = ''3''" "GetFileName ''../files/a'' = ''a''"
    "getMimeType ''../files/a'' = ''application/octet-stream''" "length crlf = 2" by code_simp+
  show "length (message by_key created_answer) \<le> 1000"
    by (simp add: message_def ResponseHeaderString_def length_by_key created_answer_def response_defs HttpResponse_ctor_def
      k201Created_def n del: length_concat)
  show "length (message by_key (download_answer ''../files/a'' ''xyz'')) \<le> 1000"
    by (simp add: message_def ResponseHeaderString_def length_by_key download_answer_def response_defs HttpResponse_ctor_def
      k200OK_def n Let_def del: length_concat)
qed


end
